(* ===== verification/Prelude.thy ===== *)
theory Prelude
  imports Main "HOL-Library.Word" "HOL-Library.AList" "HOL-Library.Char_ord" "HOL-Library.List_Lexorder"
begin

text \<open>
  Shared vocabulary of the development: the byte types, fixed-width little-endian fields, and
  the state-and-error monad in which every fallible operation of the crate is written.
  A Rust \<open>Result<T, E>\<close> is a value of \<open>'e + 'a\<close> (\<open>Inl\<close> is \<open>Err\<close>), and a function
  with side effects maps a state to a result and the state it leaves behind, whether it
  failed or not: an operation that returns \<open>Err\<close> half way keeps the changes it had made.
\<close>

type_synonym u8 = "8 word"
type_synonym u32 = "32 word"
type_synonym u64 = "64 word"
type_synonym bytes = "u8 list"

named_theorems run_simps \<open>running the monad's combinators on a state\<close>
named_theorems hoare \<open>rules for the triples of monadic programs\<close>

lemma distinct_remdups_adj_sorted: "sorted xs \<Longrightarrow> distinct (remdups_adj xs)"
  by (induction xs rule: remdups_adj.induct) force+

lemma set_List_map_filter: "set (List.map_filter f xs) = {y. \<exists>x \<in> set xs. f x = Some y}"
  by (force simp: List.map_filter_def)

section \<open>The state-and-error monad\<close>

type_synonym ('s, 'e, 'a) prog = "'s \<Rightarrow> ('e + 'a) \<times> 's"

definition returnE :: "'a \<Rightarrow> ('s, 'e, 'a) prog" where
  "returnE x s = (Inr x, s)"

definition throwE :: "'e \<Rightarrow> ('s, 'e, 'a) prog" where
  "throwE e s = (Inl e, s)"

text \<open>The question mark operator: stop at the first error.\<close>

definition bindE :: "('s, 'e, 'a) prog \<Rightarrow> ('a \<Rightarrow> ('s, 'e, 'b) prog) \<Rightarrow> ('s, 'e, 'b) prog" where
  "bindE m f s = (case m s of (Inl e, t) \<Rightarrow> (Inl e, t) | (Inr x, t) \<Rightarrow> f x t)"

text \<open>\<open>map_err\<close>, also the implicit \<open>From\<close> conversion of the question mark operator.\<close>

definition map_err :: "('e \<Rightarrow> 'f) \<Rightarrow> ('s, 'e, 'a) prog \<Rightarrow> ('s, 'f, 'a) prog" where
  "map_err g m s = (case m s of (Inl e, t) \<Rightarrow> (Inl (g e), t) | (Inr x, t) \<Rightarrow> (Inr x, t))"

text \<open>Matching on a \<open>Result\<close> instead of propagating it, as \<open>let _ = ..\<close> does too.\<close>

definition attemptE :: "('s, 'e, 'a) prog \<Rightarrow> ('s, 'f, 'e + 'a) prog" where
  "attemptE m s = (case m s of (r, t) \<Rightarrow> (Inr r, t))"

definition getsE :: "('s \<Rightarrow> 'a) \<Rightarrow> ('s, 'e, 'a) prog" where
  "getsE f s = (Inr (f s), s)"

definition modifyE :: "('s \<Rightarrow> 's) \<Rightarrow> ('s, 'e, unit) prog" where
  "modifyE f s = (Inr (), f s)"

text \<open>A pure \<open>Result\<close>.\<close>

definition liftE :: "'e + 'a \<Rightarrow> ('s, 'e, 'a) prog" where
  "liftE r s = (r, s)"

text \<open>A \<open>for\<close> loop that updates local variables (the accumulator \<open>a\<close>).\<close>

fun foldE :: "('x \<Rightarrow> 'a \<Rightarrow> ('s, 'e, 'a) prog) \<Rightarrow> 'x list \<Rightarrow> 'a \<Rightarrow> ('s, 'e, 'a) prog" where
  "foldE f [] a = returnE a"
| "foldE f (x # xs) a = bindE (f x a) (foldE f xs)"

definition mapE :: "('x \<Rightarrow> ('s, 'e, 'a) prog) \<Rightarrow> 'x list \<Rightarrow> ('s, 'e, 'a list) prog" where
  "mapE f xs = foldE (\<lambda>x acc. bindE (f x) (\<lambda>y. returnE (acc @ [y]))) xs []"

lemma run_return [run_simps]: "returnE x s = (Inr x, s)"
  by (simp add: returnE_def)

lemma run_throw [run_simps]: "throwE e s = (Inl e, s)"
  by (simp add: throwE_def)

lemma run_gets [run_simps]: "getsE f s = (Inr (f s), s)"
  by (simp add: getsE_def)

lemma run_modify [run_simps]: "modifyE f s = (Inr (), f s)"
  by (simp add: modifyE_def)

lemma run_lift [run_simps]: "liftE r s = (r, s)"
  by (simp add: liftE_def)

lemma run_bind_ok: "m s = (Inr x, t) \<Longrightarrow> bindE m f s = f x t"
  by (simp add: bindE_def)

lemma run_bind_err: "m s = (Inl e, t) \<Longrightarrow> bindE m f s = (Inl e, t)"
  by (simp add: bindE_def)

lemmas run_atoms = run_return run_throw run_gets run_modify run_lift

lemma bind_pure [run_simps]:
  "bindE (returnE x) f s = f x s"
  "bindE (throwE e) f s = (Inl e, s)"
  "bindE (getsE g) f s = f (g s) s"
  "bindE (modifyE h) k s = k () (h s)"
  "bindE (liftE r) f s = (case r of Inl e \<Rightarrow> (Inl e, s) | Inr x \<Rightarrow> f x s)"
  by (simp_all add: bindE_def run_simps split: sum.split)

section \<open>Triples\<close>

text \<open>
  \<open>triple P m Q R\<close>: from a state that satisfies \<open>P\<close>, an \<open>Ok x\<close> of \<open>m\<close> leaves a state with
  \<open>Q x\<close> and an \<open>Err e\<close> one with \<open>R e\<close>. Every program of the monad ends, so with a false
  \<open>R\<close> a triple says that \<open>m\<close> succeeds.
\<close>

definition triple ::
  "('s \<Rightarrow> bool) \<Rightarrow> ('s, 'e, 'a) prog \<Rightarrow> ('a \<Rightarrow> 's \<Rightarrow> bool) \<Rightarrow> ('e \<Rightarrow> 's \<Rightarrow> bool) \<Rightarrow> bool" where
  "triple P m Q R \<longleftrightarrow>
     (\<forall>s. P s \<longrightarrow> (\<forall>x t. m s = (Inr x, t) \<longrightarrow> Q x t) \<and> (\<forall>e t. m s = (Inl e, t) \<longrightarrow> R e t))"

lemma bindE_eq:
  "bindE m f s = (r, t) \<longleftrightarrow>
     (\<exists>e. m s = (Inl e, t) \<and> r = Inl e) \<or> (\<exists>y u. m s = (Inr y, u) \<and> f y u = (r, t))"
  by (auto simp: bindE_def split: prod.split sum.split)

lemma map_err_eq:
  "map_err g m s = (r, t) \<longleftrightarrow>
     (\<exists>e. m s = (Inl e, t) \<and> r = Inl (g e)) \<or> (\<exists>y. m s = (Inr y, t) \<and> r = Inr y)"
  by (auto simp: map_err_def split: prod.split sum.split)

lemma attemptE_eq: "attemptE m s = (r, t) \<longleftrightarrow> (\<exists>q. m s = (q, t) \<and> r = Inr q)"
  by (auto simp: attemptE_def split: prod.split)

lemmas prog_eqs = bindE_eq map_err_eq attemptE_eq

lemma tripleI:
  assumes "\<And>s x t. P s \<Longrightarrow> m s = (Inr x, t) \<Longrightarrow> Q x t"
    and "\<And>s e t. P s \<Longrightarrow> m s = (Inl e, t) \<Longrightarrow> R e t"
  shows "triple P m Q R"
  using assms by (simp add: triple_def)

lemma triple_ok: "triple P m Q R \<Longrightarrow> P s \<Longrightarrow> m s = (Inr x, t) \<Longrightarrow> Q x t"
  by (simp add: triple_def)

lemma triple_err: "triple P m Q R \<Longrightarrow> P s \<Longrightarrow> m s = (Inl e, t) \<Longrightarrow> R e t"
  by (simp add: triple_def)

lemma triple_succeeds:
  assumes "triple P m Q (\<lambda>_ _. False)" and "P s"
  obtains x t where "m s = (Inr x, t)" and "Q x t"
  using assms by (cases "m s"; cases "fst (m s)") (auto simp: triple_def)

lemma triple_bind [hoare]:
  assumes "triple P m A R" and "\<And>x. triple (A x) (f x) Q R"
  shows "triple P (bindE m f) Q R"
  using assms by (auto simp: triple_def bindE_eq)

lemma triple_weaken:
  assumes "triple P' m Q' R'" and "\<And>s. P s \<Longrightarrow> P' s"
    and "\<And>x s. Q' x s \<Longrightarrow> Q x s" and "\<And>e s. R' e s \<Longrightarrow> R e s"
  shows "triple P m Q R"
  by (rule tripleI) (rule assms(3) assms(4), erule triple_ok [OF assms(1) assms(2)]
      triple_err [OF assms(1) assms(2)], assumption)+

lemma triple_map_err [hoare]: "triple P m Q (\<lambda>e. R (g e)) \<Longrightarrow> triple P (map_err g m) Q R"
  by (auto simp: triple_def map_err_eq)

text \<open>The loop rule: the invariant speaks of the elements already done and of the accumulator.\<close>

lemma triple_foldE_from:
  assumes "\<And>pre x post a. ys @ xs = pre @ x # post \<Longrightarrow> triple (I pre a) (f x a) (I (pre @ [x])) R"
  shows "triple (I ys a) (foldE f xs a) (I (ys @ xs)) R"
  using assms
proof (induction xs arbitrary: ys a)
  case Nil
  then show ?case
    by (simp add: triple_def run_simps)
next
  case (Cons x xs)
  have "triple (I ys a) (f x a) (I (ys @ [x])) R"
    using Cons.prems [of ys x xs] by simp
  moreover have "triple (I (ys @ [x]) b) (foldE f xs b) (I ((ys @ [x]) @ xs)) R" for b
    by (rule Cons.IH) (use Cons.prems in simp)
  ultimately show ?case
    by (auto intro: triple_bind)
qed

lemma triple_foldE:
  assumes "\<And>pre x post a. xs = pre @ x # post \<Longrightarrow> triple (I pre a) (f x a) (I (pre @ [x])) R"
  shows "triple (I [] a) (foldE f xs a) (I xs) R"
  using triple_foldE_from [of "[]" xs I f R a] assms by simp

text \<open>A loop whose body only reads is a pure loop over results.\<close>

fun collect :: "('x \<Rightarrow> 'e + 'y) \<Rightarrow> 'x list \<Rightarrow> 'e + 'y list" where
  "collect g [] = Inr []"
| "collect g (x # xs) =
     (case g x of
        Inl e \<Rightarrow> Inl e
      | Inr y \<Rightarrow> (case collect g xs of Inl e \<Rightarrow> Inl e | Inr ys \<Rightarrow> Inr (y # ys)))"

lemma mapE_pure:
  assumes "\<And>x. x \<in> set xs \<Longrightarrow> f x s = (g x, s)"
  shows "mapE f xs s = (collect g xs, s)"
proof -
  have "foldE (\<lambda>x acc. bindE (f x) (\<lambda>y. returnE (acc @ [y]))) xs acc s =
      ((case collect g xs of Inl e \<Rightarrow> Inl e | Inr ys \<Rightarrow> Inr (acc @ ys)), s)" for acc
    using assms
    by (induction xs arbitrary: acc) (auto simp: bindE_def run_atoms split: sum.split)
  then show ?thesis
    by (auto simp: mapE_def split: sum.split)
qed

lemma collect_ok: "collect g xs = Inr ys \<longleftrightarrow> list_all2 (\<lambda>x y. g x = Inr y) xs ys"
proof (induction xs arbitrary: ys)
  case (Cons x xs)
  show ?case
  proof (cases "collect g xs")
    case (Inl e)
    then have "\<not> list_all2 (\<lambda>x y. g x = Inr y) xs zs" for zs
      using Cons.IH [of zs] by simp
    with Inl show ?thesis
      by (auto simp: list_all2_Cons1 split: sum.split)
  next
    case (Inr zs)
    then have "list_all2 (\<lambda>x y. g x = Inr y) xs vs \<longleftrightarrow> zs = vs" for vs
      using Cons.IH [of vs] by simp
    with Inr show ?thesis
      by (auto simp: list_all2_Cons1 split: sum.split)
  qed
qed auto

lemma collect_cong: "(\<And>x. x \<in> set xs \<Longrightarrow> f x = g x) \<Longrightarrow> collect f xs = collect g xs"
proof (induction xs)
  case (Cons x xs)
  then have "f x = g x" and "collect f xs = collect g xs" by simp_all
  then show ?case by (simp only: collect.simps)
qed simp

section \<open>Relations between the state before and after\<close>

text \<open>
  \<open>upholds R m\<close>: whatever \<open>m\<close> returns, the state it leaves is related by \<open>R\<close> to the one it
  started from. This is the shape of every frame, and of every statement about crashes and
  I/O errors. For a reflexive and transitive relation the combinators compose; the locale
  proves that once, and every relation of the development is an interpretation of it.
\<close>

definition upholds :: "('s \<Rightarrow> 's \<Rightarrow> bool) \<Rightarrow> ('s, 'e, 'a) prog \<Rightarrow> bool" where
  "upholds R m \<longleftrightarrow> (\<forall>s r t. m s = (r, t) \<longrightarrow> R s t)"

text \<open>The program reads the state only; the program keeps \<open>I\<close>.\<close>

abbreviation reads :: "('s, 'e, 'a) prog \<Rightarrow> bool" where
  "reads m \<equiv> upholds (=) m"

abbreviation keeps :: "('s \<Rightarrow> bool) \<Rightarrow> ('s, 'e, 'a) prog \<Rightarrow> bool" where
  "keeps I m \<equiv> upholds (\<lambda>s t. I s \<longrightarrow> I t) m"

lemma upholdsI: "(\<And>s r t. m s = (r, t) \<Longrightarrow> R s t) \<Longrightarrow> upholds R m"
  by (simp add: upholds_def)

lemma upholdsD: "upholds R m \<Longrightarrow> m s = (r, t) \<Longrightarrow> R s t"
  by (simp add: upholds_def)

lemma upholds_mono: "upholds R m \<Longrightarrow> (\<And>s t. R s t \<Longrightarrow> Q s t) \<Longrightarrow> upholds Q m"
  by (blast intro: upholdsI dest: upholdsD)

lemma readsD: "reads m \<Longrightarrow> m s = (r, t) \<Longrightarrow> t = s"
  by (drule (1) upholdsD) simp

locale state_preorder =
  fixes R :: "'s \<Rightarrow> 's \<Rightarrow> bool"
  assumes related_refl: "R s s"
    and related_trans: "R s t \<Longrightarrow> R t u \<Longrightarrow> R s u"
begin

lemma resp_reads: "reads m \<Longrightarrow> upholds R m"
  by (erule upholds_mono) (auto simp: related_refl)

lemma resp_pure [hoare]:
  "upholds R (returnE x)" "upholds R (throwE e)" "upholds R (getsE f)" "upholds R (liftE r)"
  by (auto intro!: upholdsI simp: run_atoms related_refl)

lemma resp_bind [hoare]: "upholds R m \<Longrightarrow> (\<And>x. upholds R (f x)) \<Longrightarrow> upholds R (bindE m f)"
  by (rule upholdsI) (unfold bindE_eq, metis upholdsD related_trans)

lemma resp_map_err [hoare]: "upholds R m \<Longrightarrow> upholds R (map_err g m)"
  by (rule upholdsI) (unfold map_err_eq, metis upholdsD)

lemma resp_attempt [hoare]: "upholds R m \<Longrightarrow> upholds R (attemptE m)"
  by (rule upholdsI) (unfold attemptE_eq, metis upholdsD)

lemma resp_if [hoare]:
  "(b \<Longrightarrow> upholds R m) \<Longrightarrow> (\<not> b \<Longrightarrow> upholds R n) \<Longrightarrow> upholds R (if b then m else n)"
  by simp

lemma resp_foldE [hoare]:
  "(\<And>x a. x \<in> set xs \<Longrightarrow> upholds R (f x a)) \<Longrightarrow> upholds R (foldE f xs a)"
proof (induction xs arbitrary: a)
  case Nil
  then show ?case by (simp add: resp_pure)
next
  case (Cons x xs)
  then show ?case by (auto intro: resp_bind)
qed

lemma resp_mapE [hoare]: "(\<And>x. x \<in> set xs \<Longrightarrow> upholds R (f x)) \<Longrightarrow> upholds R (mapE f xs)"
  unfolding mapE_def by (intro resp_foldE resp_bind resp_pure)

lemma resp_option [hoare]:
  "(y = None \<Longrightarrow> upholds R n) \<Longrightarrow> (\<And>x. y = Some x \<Longrightarrow> upholds R (f x)) \<Longrightarrow>
     upholds R (case y of None \<Rightarrow> n | Some x \<Rightarrow> f x)"
  by (simp split: option.split)

lemma resp_sum [hoare]:
  "(\<And>e. y = Inl e \<Longrightarrow> upholds R (g e)) \<Longrightarrow> (\<And>x. y = Inr x \<Longrightarrow> upholds R (f x)) \<Longrightarrow>
     upholds R (case y of Inl e \<Rightarrow> g e | Inr x \<Rightarrow> f x)"
  by (simp split: sum.split)

lemma resp_prod [hoare]:
  "(\<And>a b. p = (a, b) \<Longrightarrow> upholds R (f a b)) \<Longrightarrow> upholds R (case p of (a, b) \<Rightarrow> f a b)"
  "(\<And>a b. p = (a, b) \<Longrightarrow> upholds R (g a b c)) \<Longrightarrow> upholds R ((case p of (a, b) \<Rightarrow> g a b) c)"
  by (simp_all split: prod.split)

lemma resp_let [hoare]: "upholds R (f x) \<Longrightarrow> upholds R (Let x f)"
  by simp

end

interpretation reading: state_preorder "(=)"
  by unfold_locales simp_all

interpretation keeping: state_preorder "\<lambda>s t. I s \<longrightarrow> I t" for I
  by unfold_locales simp_all

text \<open>A component \<open>f\<close> of the state does not change.\<close>

abbreviation preserves :: "('s \<Rightarrow> 'b) \<Rightarrow> ('s, 'e, 'a) prog \<Rightarrow> bool" where
  "preserves f m \<equiv> upholds (\<lambda>s t. f t = f s) m"

interpretation preserving: state_preorder "\<lambda>s t. f t = f s" for f
  by unfold_locales simp_all

end
