(* ===== verification/Text.thy ===== *)
theory Text
  imports Prelude
begin

text \<open>
  What the crate uses of Rust's \<open>str\<close>: a \<open>str\<close> is its UTF-8 encoding, so \<open>string\<close> (a list
  of 8-bit characters) stands for the bytes and \<open>length\<close> is \<open>str::len\<close>. File names are byte
  strings too; the two places of the crate that look at their encoding are \<open>OsStr::to_str\<close>
  (\<open>utf8_valid\<close> below) and \<open>String::from_utf8_lossy\<close> (\<open>utf8_lossy\<close>).
  The last section is the formatting of numbers.
\<close>

section \<open>UTF-8\<close>

text \<open>
  For the first byte of an encoded character: the width of the sequence and the range of
  its second byte; no entry for a byte that starts no sequence.
\<close>

definition utf8_lead :: "nat \<Rightarrow> (nat \<times> nat \<times> nat) option" where
  "utf8_lead b =
     (if b < 128 then Some (1, 0, 0)
      else if 194 \<le> b \<and> b \<le> 223 then Some (2, 128, 191)
      else if b = 224 then Some (3, 160, 191)
      else if b = 237 then Some (3, 128, 159)
      else if 225 \<le> b \<and> b \<le> 239 then Some (3, 128, 191)
      else if b = 240 then Some (4, 144, 191)
      else if 241 \<le> b \<and> b \<le> 243 then Some (4, 128, 191)
      else if b = 244 then Some (4, 128, 143)
      else None)"

text \<open>The front of a non-empty text: \<open>Inr n\<close> is a character of \<open>n\<close> bytes, \<open>Inl n\<close> an ill-formed part.\<close>

definition utf8_front :: "nat \<Rightarrow> nat list \<Rightarrow> nat + nat" where
  "utf8_front b bs =
     (case utf8_lead b of
        None \<Rightarrow> Inl 1
      | Some (w, lo, hi) \<Rightarrow>
          let good = (case bs of
                [] \<Rightarrow> 0
              | c # cs \<Rightarrow>
                  if w = 1 \<or> c < lo \<or> hi < c then 0
                  else Suc (length (takeWhile (\<lambda>x. 128 \<le> x \<and> x \<le> 191) (take (w - 2) cs))))
          in if Suc good = w then Inr w else Inl (Suc good))"

function utf8_valid_bytes :: "nat list \<Rightarrow> bool" where
  "utf8_valid_bytes [] = True"
| "utf8_valid_bytes (b # bs) =
     (case utf8_front b bs of Inl n \<Rightarrow> False | Inr n \<Rightarrow> utf8_valid_bytes (drop (n - 1) bs))"
  by pat_completeness auto
termination
  by (relation "measure length") auto

definition utf8_valid :: "string \<Rightarrow> bool" where
  "utf8_valid s = utf8_valid_bytes (map of_char s)"

text \<open>The replacement character U+FFFD is the bytes 239, 191, 189.\<close>

function utf8_lossy_bytes :: "nat list \<Rightarrow> nat list" where
  "utf8_lossy_bytes [] = []"
| "utf8_lossy_bytes (b # bs) =
     (case utf8_front b bs of
        Inl n \<Rightarrow> [239, 191, 189] @ utf8_lossy_bytes (drop (n - 1) bs)
      | Inr n \<Rightarrow> take n (b # bs) @ utf8_lossy_bytes (drop (n - 1) bs))"
  by pat_completeness auto
termination
  by (relation "measure length") auto

definition utf8_lossy :: "bytes \<Rightarrow> string" where
  "utf8_lossy bs = map char_of (utf8_lossy_bytes (map unat bs))"

lemma utf8_front_ascii: "b < 128 \<Longrightarrow> utf8_front b bs = Inr 1"
  by (simp add: utf8_front_def utf8_lead_def split: list.split)

lemma utf8_valid_bytes_ascii: "\<forall>b \<in> set bs. b < 128 \<Longrightarrow> utf8_valid_bytes bs"
  by (induction bs) (simp_all add: utf8_front_ascii)

text \<open>Names made of ASCII characters only are accepted by \<open>to_str\<close>.\<close>

lemma utf8_valid_ascii: "\<forall>c \<in> set s. of_char c < (128::nat) \<Longrightarrow> utf8_valid s"
  by (simp add: utf8_valid_def utf8_valid_bytes_ascii)

text \<open>Valid text is its own lossy decoding.\<close>

lemma utf8_front_pos: "utf8_front b bs = Inr n \<Longrightarrow> 0 < n"
  by (auto simp: utf8_front_def Let_def split: option.splits if_splits)

lemma utf8_lossy_valid: "utf8_valid_bytes bs \<Longrightarrow> utf8_lossy_bytes bs = bs"
proof (induction bs rule: utf8_lossy_bytes.induct)
  case (2 b bs)
  then obtain n where n: "utf8_front b bs = Inr n" and rest: "utf8_valid_bytes (drop (n - 1) bs)"
    by (auto split: sum.splits)
  from n have "0 < n" by (rule utf8_front_pos)
  then have "take n (b # bs) = b # take (n - 1) bs"
    by (cases n) simp_all
  with 2 n rest show ?case by simp
qed simp

section \<open>Suffixes and numbers\<close>

definition ends_with :: "string \<Rightarrow> string \<Rightarrow> bool" where
  "ends_with s suf \<longleftrightarrow> length suf \<le> length s \<and> drop (length s - length suf) s = suf"

lemma ends_with_append [simp]: "ends_with (s @ suf) suf"
  by (simp add: ends_with_def)

lemma ends_withE:
  assumes "ends_with s suf"
  obtains t where "s = t @ suf"
  using assms by (metis append_take_drop_id ends_with_def)

fun decimal :: "nat \<Rightarrow> string" where
  "decimal n =
     (if n < 10 then [char_of (48 + n)] else decimal (n div 10) @ [char_of (48 + n mod 10)])"

declare decimal.simps [simp del]

end
