(* ===== verification/Errors.thy ===== *)
theory Errors
  imports Text
begin

text \<open>
  The error types of the crate (\<open>src/error.rs\<close>, \<open>HashError\<close> of \<open>src/hash.rs\<close> and \<open>PackError\<close> of
  \<open>src/pack.rs\<close>), with the constructors and payloads of the source and their \<open>Display\<close> forms.
  An \<open>io::Error\<close> is its \<open>ErrorKind\<close>; its text comes from the operating system and is an
  argument (\<open>io_text\<close>) of the display functions.
\<close>

datatype io_error =
    NotFound
  | UnexpectedEof
  | IsADirectory
  | NotADirectory
  | FileExists
  | DirectoryNotEmpty
  | InvalidInput
  | OtherIo

datatype hash_error =
    InvalidLength nat
  | InvalidHex

datatype pack_error =
    InvalidMagic string
  | UnsupportedVersion u32
  | InvalidIndexMagic string
  | PackBlobNotFound string
  | PackIo io_error
  | PackCompressionError string
  | PackDecompressionError string
  | EmptyPack
  | UnexpectedObjectType u8
  | PackHashMismatch string string

datatype cas_error =
    BlobNotFound string
  | HashMismatch string string
  | LockPoisoned string
  | Io io_error
  | CompressionError string
  | DecompressionError string
  | DecompressionTooLarge nat
  | AlreadyExists string
  | InvalidPath string
  | Pack pack_error
  | GcPathEscape string
  | TaskJoin string

definition hash_error_display :: "hash_error \<Rightarrow> string" where
  "hash_error_display e =
     (case e of
        InvalidLength n \<Rightarrow> ''invalid hash length: expected 64 hex chars, got '' @ decimal n
      | InvalidHex \<Rightarrow> ''invalid hex in hash'')"

definition pack_error_display :: "(io_error \<Rightarrow> string) \<Rightarrow> pack_error \<Rightarrow> string" where
  "pack_error_display io_text e =
     (case e of
        InvalidMagic s \<Rightarrow> ''invalid pack magic: '' @ s
      | UnsupportedVersion v \<Rightarrow> ''unsupported pack version: '' @ decimal (unat v)
      | InvalidIndexMagic s \<Rightarrow> ''invalid index magic: '' @ s
      | PackBlobNotFound s \<Rightarrow> ''blob not found in pack: '' @ s
      | PackIo io \<Rightarrow> ''I/O error: '' @ io_text io
      | PackCompressionError s \<Rightarrow> ''compression error: '' @ s
      | PackDecompressionError s \<Rightarrow> ''decompression error: '' @ s
      | EmptyPack \<Rightarrow> ''cannot create empty pack''
      | UnexpectedObjectType t \<Rightarrow> ''unexpected object type: '' @ decimal (unat t)
      | PackHashMismatch x a \<Rightarrow> ''hash mismatch in pack: expected '' @ x @ '', got '' @ a)"

definition cas_error_display :: "(io_error \<Rightarrow> string) \<Rightarrow> cas_error \<Rightarrow> string" where
  "cas_error_display io_text e =
     (case e of
        BlobNotFound s \<Rightarrow> ''blob not found: '' @ s
      | HashMismatch x a \<Rightarrow> ''hash mismatch: expected '' @ x @ '', got '' @ a
      | LockPoisoned s \<Rightarrow> ''lock poisoned: '' @ s
      | Io io \<Rightarrow> ''I/O error: '' @ io_text io
      | CompressionError s \<Rightarrow> ''compression error: '' @ s
      | DecompressionError s \<Rightarrow> ''decompression error: '' @ s
      | DecompressionTooLarge m \<Rightarrow> ''decompressed data too large: '' @ decimal m @ '' bytes max''
      | AlreadyExists s \<Rightarrow> ''blob already exists: '' @ s
      | InvalidPath s \<Rightarrow> ''invalid path: '' @ s
      | Pack p \<Rightarrow> ''pack error: '' @ pack_error_display io_text p
      | GcPathEscape s \<Rightarrow> ''gc path outside store root: '' @ s
      | TaskJoin s \<Rightarrow> ''background gc task failed: '' @ s)"

end
