(* ===== verification/Digest.thy ===== *)
theory Digest
  imports Errors
begin

text \<open>
  The content address type of \<open>src/hash.rs\<close>: \<open>Hash([u8; 32])\<close> with its derived order, the hex
  text form in both directions, and the bucket byte.
\<close>

unbundle bit_operations_syntax

section \<open>The type of 32-byte digests\<close>

typedef hash = "{bs :: bytes. length bs = 32}"
  morphisms digest Abs_hash
  by (rule exI [of _ "replicate 32 0"]) simp

text \<open>
  \<open>hash_of\<close> makes a digest of any byte list (\<open>Self(bytes)\<close>; callers pass 32 bytes, a shorter
  list would be padded with zeros and a longer one cut, to keep the function total).
\<close>

definition hash_of :: "bytes \<Rightarrow> hash" where
  "hash_of bs = Abs_hash (take 32 (bs @ replicate 32 0))"

lemma Abs_hash_digest [code abstype]: "Abs_hash (digest h) = h"
  by (rule digest_inverse)

lemma digest_hash_of [code abstract]: "digest (hash_of bs) = take 32 (bs @ replicate 32 0)"
  by (simp add: hash_of_def Abs_hash_inverse)

lemma length_digest [simp]: "length (digest h) = 32"
  using digest [of h] by simp

lemma digest_hash_of_32: "length bs = 32 \<Longrightarrow> digest (hash_of bs) = bs"
  by (simp add: digest_hash_of)

lemma hash_of_digest [simp]: "hash_of (digest h) = h"
  by (simp add: hash_of_def digest_inverse)

text \<open>The derived \<open>Ord\<close> compares the arrays lexicographically.\<close>

instantiation hash :: linorder
begin

definition less_eq_hash :: "hash \<Rightarrow> hash \<Rightarrow> bool" where
  "less_eq_hash a b \<longleftrightarrow> digest a \<le> digest b"

definition less_hash :: "hash \<Rightarrow> hash \<Rightarrow> bool" where
  "less_hash a b \<longleftrightarrow> digest a < digest b"

instance
proof
  fix x y z :: hash
  show "x < y \<longleftrightarrow> x \<le> y \<and> \<not> y \<le> x"
    by (auto simp: less_eq_hash_def less_hash_def)
  show "x \<le> x"
    by (simp add: less_eq_hash_def)
  show "x \<le> y \<Longrightarrow> y \<le> z \<Longrightarrow> x \<le> z"
    by (simp add: less_eq_hash_def)
  show "x \<le> y \<Longrightarrow> y \<le> x \<Longrightarrow> x = y"
    by (simp add: less_eq_hash_def digest_inject)
  show "x \<le> y \<or> y \<le> x"
    by (auto simp: less_eq_hash_def)
qed

end

instantiation hash :: equal
begin

definition equal_hash :: "hash \<Rightarrow> hash \<Rightarrow> bool" where
  "equal_hash a b \<longleftrightarrow> digest a = digest b"

instance
  by standard (simp add: equal_hash_def digest_inject)

end

section \<open>Hex text\<close>

text \<open>\<open>char::to_digit\<close> in radix 16, which accepts both letter cases.\<close>

definition hex_digit :: "char \<Rightarrow> nat option" where
  "hex_digit c =
     (let n = of_char c :: nat in
      if 48 \<le> n \<and> n \<le> 57 then Some (n - 48)
      else if 97 \<le> n \<and> n \<le> 102 then Some (n - 87)
      else if 65 \<le> n \<and> n \<le> 70 then Some (n - 55)
      else None)"

text \<open>The digits of a number, most significant first; \<open>None\<close> for a bad digit or an overflow of u8.\<close>

fun radix16 :: "nat \<Rightarrow> string \<Rightarrow> nat option" where
  "radix16 acc [] = Some acc"
| "radix16 acc (c # cs) =
     (case hex_digit c of
        None \<Rightarrow> None
      | Some d \<Rightarrow> if 256 \<le> acc * 16 + d then None else radix16 (acc * 16 + d) cs)"

text \<open>
  \<open>u8::from_str_radix(_, 16)\<close>: an optional leading plus sign, then at least one digit (a minus
  sign is not a digit of an unsigned type). A chunk that is not UTF-8 holds a byte of at
  least 128, which is no digit, so the two error exits of \<open>from_hex\<close> meet in \<open>None\<close>.
\<close>

definition u8_from_str_radix16 :: "string \<Rightarrow> u8 option" where
  "u8_from_str_radix16 s =
     (let ds = (case s of c # cs \<Rightarrow> if c = CHR ''+'' \<and> cs \<noteq> [] then cs else s | [] \<Rightarrow> s)
      in if ds = [] then None else map_option word_of_nat (radix16 0 ds))"

text \<open>\<open>chunks_exact(2)\<close> parsed into the bytes in order, stopping at the first bad chunk.\<close>

fun parse_chunks :: "string \<Rightarrow> bytes option" where
  "parse_chunks (a # b # cs) =
     (case u8_from_str_radix16 [a, b] of
        None \<Rightarrow> None
      | Some w \<Rightarrow> map_option ((#) w) (parse_chunks cs))"
| "parse_chunks cs = Some []"

definition from_hex :: "string \<Rightarrow> hash_error + hash" where
  "from_hex hex =
     (if length hex \<noteq> 64 then Inl (InvalidLength (length hex))
      else case parse_chunks hex of
        None \<Rightarrow> Inl InvalidHex
      | Some bs \<Rightarrow> Inr (hash_of bs))"

definition HEX_CHARS :: string where
  "HEX_CHARS = ''0123456789abcdef''"

definition hex_of_byte :: "u8 \<Rightarrow> string" where
  "hex_of_byte b = [HEX_CHARS ! unat (drop_bit 4 b), HEX_CHARS ! unat (b AND 15)]"

definition to_hex :: "hash \<Rightarrow> string" where
  "to_hex h = concat (map hex_of_byte (digest h))"

definition ZERO :: hash where
  "ZERO = hash_of (replicate 32 0)"

definition bucket :: "hash \<Rightarrow> u8" where
  "bucket h = digest h ! 0"

text \<open>The \<open>Display\<close> form (12 hex characters and an ellipsis, U+2026) and the \<open>Debug\<close> form.\<close>

definition hash_display :: "hash \<Rightarrow> string" where
  "hash_display h = take 12 (to_hex h) @ map char_of [226 :: nat, 128, 166]"

definition hash_debug :: "hash \<Rightarrow> string" where
  "hash_debug h = ''Hash('' @ to_hex h @ '')''"


section \<open>Facts about the text form\<close>

lemma u8_less_256 [simp]: "unat (b :: u8) < 256"
  using unsigned_less [of b] by simp

lemma unat_high_nibble: "unat (drop_bit 4 b) = unat (b :: u8) div 16"
proof -
  have "unat (drop_bit 4 b) = drop_bit 4 (unat b)"
    by (rule unat_drop_bit_eq)
  then show ?thesis
    by (simp add: drop_bit_eq_div)
qed

lemma unat_low_nibble: "unat (b AND 15) = unat (b :: u8) mod 16"
proof -
  have "b AND 15 = take_bit 4 b"
    by (simp add: take_bit_eq_mask mask_eq_exp_minus_1)
  then have "unat (b AND 15) = take_bit 4 (unat b)"
    by (simp only: unsigned_take_bit_eq)
  then show ?thesis
    by (simp only: take_bit_eq_mod) simp
qed

lemma nibbles_less: "unat (b :: u8) div 16 < 16" "unat b mod 16 < 16"
  using u8_less_256 [of b] by (simp_all add: less_mult_imp_div_less del: u8_less_256)

lemma hex_digit_HEX_CHARS: "n < 16 \<Longrightarrow> hex_digit (HEX_CHARS ! n) = Some n"
  unfolding HEX_CHARS_def hex_digit_def
  by (auto simp: less_Suc_eq numeral_eq_Suc)

lemma HEX_CHARS_not_plus: "n < 16 \<Longrightarrow> HEX_CHARS ! n \<noteq> CHR ''+''"
  unfolding HEX_CHARS_def by (auto simp: less_Suc_eq numeral_eq_Suc)

lemma HEX_CHARS_mem: "n < 16 \<Longrightarrow> HEX_CHARS ! n \<in> set HEX_CHARS"
  by (rule nth_mem) (simp add: HEX_CHARS_def)

lemma length_hex_of_byte [simp]: "length (hex_of_byte b) = 2"
  by (simp add: hex_of_byte_def)

lemma parse_hex_of_byte: "u8_from_str_radix16 (hex_of_byte b) = Some b"
proof -
  have hi: "unat (drop_bit 4 b) < 16" and lo: "unat (b AND 15) < 16"
    by (simp_all add: unat_high_nibble unat_low_nibble nibbles_less)
  have whole: "unat (drop_bit 4 b) * 16 + unat (b AND 15) = unat b"
    by (simp add: unat_high_nibble unat_low_nibble)
  show ?thesis
    using hi lo whole
    by (simp add: u8_from_str_radix16_def hex_of_byte_def HEX_CHARS_not_plus
        hex_digit_HEX_CHARS del: One_nat_def)
qed

lemma parse_chunks_hex: "parse_chunks (concat (map hex_of_byte bs)) = Some bs"
proof (induction bs)
  case (Cons b bs)
  obtain x y where "hex_of_byte b = [x, y]"
    by (simp add: hex_of_byte_def)
  then show ?case
    using Cons parse_hex_of_byte [of b] by simp
qed simp

lemma length_concat_hex: "length (concat (map hex_of_byte bs)) = 2 * length bs"
  by (induction bs) simp_all

lemma length_to_hex [simp]: "length (to_hex h) = 64"
  by (simp add: to_hex_def length_concat_hex)

lemma from_hex_to_hex_eq [simp]: "from_hex (to_hex h) = Inr h"
proof -
  have "parse_chunks (to_hex h) = Some (digest h)"
    by (simp add: to_hex_def parse_chunks_hex)
  then show ?thesis
    by (simp add: from_hex_def)
qed

lemma to_hex_inject [simp]: "to_hex g = to_hex h \<longleftrightarrow> g = h"
  by (metis from_hex_to_hex_eq Inr_inject)

lemma set_to_hex: "set (to_hex h) \<subseteq> set HEX_CHARS"
proof -
  have "set (hex_of_byte b) \<subseteq> set HEX_CHARS" for b
    by (simp add: hex_of_byte_def HEX_CHARS_mem unat_high_nibble unat_low_nibble nibbles_less)
  then show ?thesis
    by (auto simp: to_hex_def)
qed

lemma to_hex_split: "take 2 (to_hex h) @ drop 2 (to_hex h) = to_hex h"
  by simp

lemma take2_to_hex: "take 2 (to_hex h) = hex_of_byte (bucket h)"
proof -
  obtain b bs where "digest h = b # bs"
    using length_digest [of h] by (cases "digest h") auto
  then show ?thesis
    by (simp add: to_hex_def bucket_def)
qed

end
