(* ===== verification/Bytes.thy ===== *)
theory Bytes
  imports Digest
begin

text \<open>
  Binary fields. A reader over a byte string (\<open>BufReader\<close> and \<open>read_exact\<close>) is a program
  whose state is the unread rest; integers are written with \<open>to_le_bytes\<close> and read with
  \<open>from_le_bytes\<close>. A record of the pack formats is a sequence of fields of fixed width, and
  the locale \<open>field_codec\<close> is what parsing relies on for each of them.
\<close>

section \<open>Readers\<close>

text \<open>\<open>Read::read_exact\<close>; at an early end the reader has consumed what there was.\<close>

definition read_exact :: "nat \<Rightarrow> (bytes, io_error, bytes) prog" where
  "read_exact n bs = (if length bs < n then (Inl UnexpectedEof, []) else (Inr (take n bs), drop n bs))"

lemma read_exact_append [run_simps]: "length bs = n \<Longrightarrow> read_exact n (bs @ rest) = (Inr bs, rest)"
  by (simp add: read_exact_def)

lemma bind_read_append:
  "length bs = n \<Longrightarrow> bindE (map_err g (read_exact n)) f (bs @ rest) = f bs rest"
  by (simp add: bindE_def map_err_def read_exact_append)

lemma read_exact_short [run_simps]: "length bs < n \<Longrightarrow> read_exact n bs = (Inl UnexpectedEof, [])"
  by (simp add: read_exact_def)

section \<open>Little-endian integers\<close>

fun le_bytes :: "nat \<Rightarrow> nat \<Rightarrow> bytes" where
  "le_bytes 0 n = []"
| "le_bytes (Suc k) n = word_of_nat (n mod 256) # le_bytes k (n div 256)"

fun le_nat :: "bytes \<Rightarrow> nat" where
  "le_nat [] = 0"
| "le_nat (b # bs) = unat b + 256 * le_nat bs"

definition u32_to_le :: "u32 \<Rightarrow> bytes" where
  "u32_to_le w = le_bytes 4 (unat w)"

definition u32_from_le :: "bytes \<Rightarrow> u32" where
  "u32_from_le bs = word_of_nat (le_nat bs)"

definition u64_to_le :: "u64 \<Rightarrow> bytes" where
  "u64_to_le w = le_bytes 8 (unat w)"

definition u64_from_le :: "bytes \<Rightarrow> u64" where
  "u64_from_le bs = word_of_nat (le_nat bs)"

lemma length_le_bytes [simp]: "length (le_bytes k n) = k"
  by (induction k arbitrary: n) simp_all

lemma unat_u8_of_nat: "n < 256 \<Longrightarrow> unat (word_of_nat n :: u8) = n"
  by (simp add: unsigned_of_nat take_bit_eq_mod)

lemma le_nat_le_bytes: "n < 256 ^ k \<Longrightarrow> le_nat (le_bytes k n) = n"
proof (induction k arbitrary: n)
  case (Suc k)
  have "n div 256 < 256 ^ k"
    using Suc.prems by (simp add: less_mult_imp_div_less mult.commute)
  then have "le_nat (le_bytes k (n div 256)) = n div 256"
    by (rule Suc.IH)
  then show ?case
    by (simp add: unat_u8_of_nat)
qed simp

lemma le_nat_less: "le_nat bs < 256 ^ length bs"
proof (induction bs)
  case (Cons b bs)
  have "unat b + 256 * le_nat bs < 256 + 256 * le_nat bs"
    using unsigned_less [of b] by simp
  also have "\<dots> \<le> 256 * 256 ^ length bs"
    using Cons by simp
  finally show ?case by simp
qed simp

lemma le_bytes_le_nat: "le_bytes (length bs) (le_nat bs) = bs"
  by (induction bs) simp_all

section \<open>The interface of a fixed-width field\<close>

locale field_codec =
  fixes enc :: "'a \<Rightarrow> bytes"
    and dec :: "bytes \<Rightarrow> 'a"
    and width :: nat
  assumes length_enc: "length (enc x) = width"
    and dec_enc: "dec (enc x) = x"
    and enc_dec: "length bs = width \<Longrightarrow> enc (dec bs) = bs"
begin

lemma read_field_iff: "read_exact width bs = (Inr x, rest) \<longleftrightarrow> bs = enc (dec x) @ rest \<and> length x = width"
  by (auto simp: read_exact_def enc_dec split: if_splits)

lemma enc_inject: "enc x = enc y \<longleftrightarrow> x = y"
  by (metis dec_enc)

lemma read_enc: "read_exact width (enc x @ rest) = (Inr (enc x), rest)"
  by (rule read_exact_append) (rule length_enc)

lemma bind_read_enc: "bindE (map_err g (read_exact width)) f (enc x @ rest) = f (enc x) rest"
  by (rule bind_read_append) (rule length_enc)

lemma length_concat_enc: "length (concat (map enc xs)) = width * length xs"
  by (induction xs) (simp_all add: length_enc)

end

interpretation u32_field: field_codec u32_to_le u32_from_le 4
proof
  fix x :: u32
  have "unat x < 256 ^ 4"
    using unsigned_less [of x] by simp
  then show "u32_from_le (u32_to_le x) = x"
    by (simp add: u32_from_le_def u32_to_le_def le_nat_le_bytes)
next
  fix bs :: bytes
  assume len: "length bs = 4"
  then have "le_nat bs < 2 ^ 32"
    using le_nat_less [of bs] by simp
  then have "unat (u32_from_le bs) = le_nat bs"
    by (simp add: u32_from_le_def unsigned_of_nat take_bit_eq_mod)
  then show "u32_to_le (u32_from_le bs) = bs"
    using le_bytes_le_nat [of bs] len by (simp add: u32_to_le_def)
qed (simp add: u32_to_le_def)

interpretation u64_field: field_codec u64_to_le u64_from_le 8
proof
  fix x :: u64
  have "unat x < 256 ^ 8"
    using unsigned_less [of x] by simp
  then show "u64_from_le (u64_to_le x) = x"
    by (simp add: u64_from_le_def u64_to_le_def le_nat_le_bytes)
next
  fix bs :: bytes
  assume len: "length bs = 8"
  then have "le_nat bs < 2 ^ 64"
    using le_nat_less [of bs] by simp
  then have "unat (u64_from_le bs) = le_nat bs"
    by (simp add: u64_from_le_def unsigned_of_nat take_bit_eq_mod)
  then show "u64_to_le (u64_from_le bs) = bs"
    using le_bytes_le_nat [of bs] len by (simp add: u64_to_le_def)
qed (simp add: u64_to_le_def)

interpretation digest_field: field_codec digest hash_of 32
  by unfold_locales (simp_all add: digest_hash_of_32)

lemmas field_lengths [simp] = u32_field.length_enc u64_field.length_enc digest_field.length_enc
lemmas field_reads [run_simps] = u32_field.bind_read_enc u64_field.bind_read_enc
  digest_field.bind_read_enc
lemmas field_decodes [run_simps] = u32_field.dec_enc u64_field.dec_enc digest_field.dec_enc

end
