(* ===== verification/Disk.thy ===== *)
theory Disk
  imports Errors
begin

text \<open>
  The part of \<open>std::fs\<close> and \<open>std::path\<close> that the crate uses. A path is the list of its
  components, a disk an association list from paths to files and directories; the order of
  the list is the order in which \<open>read_dir\<close> enumerates, so a statement about every disk is
  a statement about every enumeration order.

  Every operation that changes the disk first takes the next entry of a schedule of faults
  (\<open>pending\<close>): it proceeds, or is refused with an I/O error and no change, or is torn: a
  write leaves a prefix of the new content, \<open>create_dir_all\<close> a prefix of the missing
  directories. An empty schedule is a disk on which nothing fails. A crash is a torn or
  refused operation with every later one refused, so a statement about all schedules covers
  a crash at any point. Reading an existing file does not fail. Links, permissions and
  mount points are not modelled.
\<close>

type_synonym path = "string list"

datatype node =
    File bytes
  | Dir

datatype io_fault =
    Proceed
  | Refuse
  | Tear nat

text \<open>\<open>dir_len\<close> is what the operating system reports as the length of a directory.\<close>

record disk =
  nodes :: "(path \<times> node) list"
  pending :: "io_fault list"
  dir_len :: nat

definition node_at :: "'z disk_scheme \<Rightarrow> path \<Rightarrow> node option" where
  "node_at d p = map_of (nodes d) p"

definition put_node :: "path \<Rightarrow> node \<Rightarrow> 'z disk_scheme \<Rightarrow> 'z disk_scheme" where
  "put_node p n d = d\<lparr>nodes := AList.update p n (nodes d)\<rparr>"

definition del_node :: "path \<Rightarrow> 'z disk_scheme \<Rightarrow> 'z disk_scheme" where
  "del_node p d = d\<lparr>nodes := AList.delete p (nodes d)\<rparr>"

section \<open>Paths\<close>

text \<open>
  \<open>Path::with_extension\<close>: the stem of a file name ends before its last dot, and a name
  whose only dot is its first character is all stem.
\<close>

definition file_stem :: "string \<Rightarrow> string" where
  "file_stem name =
     (let tail = takeWhile (\<lambda>c. c \<noteq> CHR ''.'') (rev name);
          n = length name - Suc (length tail)
      in if CHR ''.'' \<in> set name \<and> 0 < n then take n name else name)"

definition with_extension :: "path \<Rightarrow> string \<Rightarrow> path" where
  "with_extension p ext = butlast p @ [file_stem (last p) @ ''.'' @ ext]"

definition is_under :: "path \<Rightarrow> path \<Rightarrow> bool" where
  "is_under base p \<longleftrightarrow> take (length base) p = base"

definition strip_prefix :: "path \<Rightarrow> path \<Rightarrow> path option" where
  "strip_prefix base p = (if is_under base p then Some (drop (length base) p) else None)"

definition ancestors :: "path \<Rightarrow> path list" where
  "ancestors p = map (\<lambda>n. take n p) [0..<length p]"

section \<open>Queries\<close>

definition path_exists :: "'z disk_scheme \<Rightarrow> path \<Rightarrow> bool" where
  "path_exists d p \<longleftrightarrow> node_at d p \<noteq> None"

definition is_file_node :: "node option \<Rightarrow> bool" where
  "is_file_node n \<longleftrightarrow> (case n of Some (File b) \<Rightarrow> True | _ \<Rightarrow> False)"

text \<open>The error of looking up a path with no node: a file among its ancestors, or nothing there.\<close>

definition absent_error :: "'z disk_scheme \<Rightarrow> path \<Rightarrow> io_error" where
  "absent_error d p =
     (if list_ex (\<lambda>q. is_file_node (node_at d q)) (ancestors p) then NotADirectory else NotFound)"

definition fs_read :: "path \<Rightarrow> ('z disk_scheme, io_error, bytes) prog" where
  "fs_read p d =
     (case node_at d p of
        Some (File b) \<Rightarrow> (Inr b, d)
      | Some Dir \<Rightarrow> (Inl IsADirectory, d)
      | None \<Rightarrow> (Inl (absent_error d p), d))"

text \<open>\<open>fs::metadata(p)?.len()\<close>.\<close>

definition metadata_len :: "path \<Rightarrow> ('z disk_scheme, io_error, nat) prog" where
  "metadata_len p d =
     (case node_at d p of
        Some (File b) \<Rightarrow> (Inr (length b), d)
      | Some Dir \<Rightarrow> (Inr (dir_len d), d)
      | None \<Rightarrow> (Inl (absent_error d p), d))"

definition children :: "'z disk_scheme \<Rightarrow> path \<Rightarrow> (string \<times> node) list" where
  "children d p =
     map (\<lambda>(q, n). (last q, n)) (filter (\<lambda>(q, n). q \<noteq> [] \<and> butlast q = p) (nodes d))"

definition read_dir :: "path \<Rightarrow> ('z disk_scheme, io_error, (string \<times> node) list) prog" where
  "read_dir p d =
     (case node_at d p of
        Some Dir \<Rightarrow> (Inr (children d p), d)
      | Some (File b) \<Rightarrow> (Inl NotADirectory, d)
      | None \<Rightarrow> (Inl (absent_error d p), d))"

section \<open>Changes\<close>

definition next_fault :: "('z disk_scheme, 'e, io_fault) prog" where
  "next_fault d =
     (case pending d of [] \<Rightarrow> (Inr Proceed, d) | f # fs \<Rightarrow> (Inr f, d\<lparr>pending := fs\<rparr>))"

definition write_error :: "'z disk_scheme \<Rightarrow> path \<Rightarrow> io_error option" where
  "write_error d p =
     (if node_at d p = Some Dir then Some IsADirectory
      else case node_at d (butlast p) of
        Some Dir \<Rightarrow> None
      | Some (File b) \<Rightarrow> Some NotADirectory
      | None \<Rightarrow> Some (absent_error d p))"

definition fs_write :: "path \<Rightarrow> bytes \<Rightarrow> ('z disk_scheme, io_error, unit) prog" where
  "fs_write p b =
     bindE next_fault (\<lambda>f d.
       if f = Refuse then (Inl OtherIo, d)
       else case write_error d p of
         Some e \<Rightarrow> (Inl e, d)
       | None \<Rightarrow>
           (case f of
              Tear k \<Rightarrow> (Inl OtherIo, put_node p (File (take k b)) d)
            | _ \<Rightarrow> (Inr (), put_node p (File b) d)))"

definition fs_remove_file :: "path \<Rightarrow> ('z disk_scheme, io_error, unit) prog" where
  "fs_remove_file p =
     bindE next_fault (\<lambda>f d.
       if f \<noteq> Proceed then (Inl OtherIo, d)
       else case node_at d p of
         Some (File b) \<Rightarrow> (Inr (), del_node p d)
       | Some Dir \<Rightarrow> (Inl IsADirectory, d)
       | None \<Rightarrow> (Inl (absent_error d p), d))"

definition add_dirs :: "path list \<Rightarrow> 'z disk_scheme \<Rightarrow> 'z disk_scheme" where
  "add_dirs qs d = fold (\<lambda>q. put_node q Dir) qs d"

definition missing_dirs :: "'z disk_scheme \<Rightarrow> path \<Rightarrow> path list" where
  "missing_dirs d p = filter (\<lambda>q. node_at d q = None) (ancestors p @ [p])"

definition create_dir_all :: "path \<Rightarrow> ('z disk_scheme, io_error, unit) prog" where
  "create_dir_all p d =
     (case node_at d p of
        Some Dir \<Rightarrow> (Inr (), d)
      | Some (File b) \<Rightarrow> (Inl FileExists, d)
      | None \<Rightarrow>
          if absent_error d p = NotADirectory then (Inl NotADirectory, d)
          else bindE next_fault (\<lambda>f d.
            case f of
              Proceed \<Rightarrow> (Inr (), add_dirs (missing_dirs d p) d)
            | Refuse \<Rightarrow> (Inl OtherIo, d)
            | Tear k \<Rightarrow> (Inl OtherIo, add_dirs (take k (missing_dirs d p)) d)) d)"

definition rename_error :: "'z disk_scheme \<Rightarrow> path \<Rightarrow> path \<Rightarrow> io_error option" where
  "rename_error d src dst =
     (case node_at d src of
        None \<Rightarrow> Some (absent_error d src)
      | Some n \<Rightarrow>
          (case node_at d (butlast dst) of
             None \<Rightarrow> Some (absent_error d dst)
           | Some (File b) \<Rightarrow> Some NotADirectory
           | Some Dir \<Rightarrow>
               (case n of
                  File b \<Rightarrow> if node_at d dst = Some Dir then Some IsADirectory else None
                | Dir \<Rightarrow>
                    if is_under src dst then Some InvalidInput
                    else case node_at d dst of
                      Some (File b) \<Rightarrow> Some NotADirectory
                    | Some Dir \<Rightarrow> if children d dst = [] then None else Some DirectoryNotEmpty
                    | None \<Rightarrow> None)))"

text \<open>A file moves alone, a directory with everything under it.\<close>

definition move_node :: "path \<Rightarrow> path \<Rightarrow> 'z disk_scheme \<Rightarrow> 'z disk_scheme" where
  "move_node src dst d =
     (case node_at d src of
        Some (File b) \<Rightarrow> put_node dst (File b) (del_node src d)
      | _ \<Rightarrow>
          d\<lparr>nodes :=
              map (\<lambda>(p, n). (if is_under src p then dst @ drop (length src) p else p, n))
                (AList.delete dst (nodes d))\<rparr>)"

definition fs_rename :: "path \<Rightarrow> path \<Rightarrow> ('z disk_scheme, io_error, unit) prog" where
  "fs_rename src dst =
     bindE next_fault (\<lambda>f d.
       if f \<noteq> Proceed then (Inl OtherIo, d)
       else case rename_error d src dst of
         Some e \<Rightarrow> (Inl e, d)
       | None \<Rightarrow> (Inr (), move_node src dst d))"

section \<open>The interface: a map from paths to nodes\<close>

text \<open>
  Everything the development proves of the operations rests on two laws of the node map;
  the components above never look into the association list, but for enumeration.
\<close>

locale node_map =
  fixes look :: "'d \<Rightarrow> path \<Rightarrow> node option"
    and put :: "path \<Rightarrow> node \<Rightarrow> 'd \<Rightarrow> 'd"
    and del :: "path \<Rightarrow> 'd \<Rightarrow> 'd"
  assumes look_put: "look (put p n d) q = (if q = p then Some n else look d q)"
    and look_del: "look (del p d) q = (if q = p then None else look d q)"
begin

lemma look_put_other: "q \<noteq> p \<Longrightarrow> look (put p n d) q = look d q"
  by (simp add: look_put)

lemma look_del_other: "q \<noteq> p \<Longrightarrow> look (del p d) q = look d q"
  by (simp add: look_del)

lemma look_put_all: "look (fold (\<lambda>q. put q n) qs d) p = (if p \<in> set qs then Some n else look d p)"
  by (induction qs arbitrary: d) (auto simp: look_put)

lemma look_move: "look (put dst n (del src d)) q =
    (if q = dst then Some n else if q = src then None else look d q)"
  by (simp add: look_put look_del)

end

interpretation disk_nodes: node_map node_at put_node del_node
  by unfold_locales
    (simp_all add: node_at_def put_node_def del_node_def update_conv' delete_conv')

lemma put_node_fields [simp]:
  "pending (put_node p n d) = pending d" "dir_len (put_node p n d) = dir_len d"
  "disk.more (put_node p n d) = disk.more d"
  by (simp_all add: put_node_def)

lemma del_node_fields [simp]:
  "pending (del_node p d) = pending d" "dir_len (del_node p d) = dir_len d"
  "disk.more (del_node p d) = disk.more d"
  by (simp_all add: del_node_def)

lemma add_dirs_fields [simp]:
  "pending (add_dirs qs d) = pending d" "dir_len (add_dirs qs d) = dir_len d"
  "disk.more (add_dirs qs d) = disk.more d"
  by (induction qs arbitrary: d) (simp_all add: add_dirs_def)

lemma node_at_pending [simp]: "node_at (d\<lparr>pending := fs\<rparr>) p = node_at d p"
  by (simp add: node_at_def)

lemma node_at_add_dirs: "node_at (add_dirs qs d) p = (if p \<in> set qs then Some Dir else node_at d p)"
  by (simp add: add_dirs_def disk_nodes.look_put_all)

section \<open>Frames: what an operation may touch\<close>

definition touches :: "path set \<Rightarrow> 'z disk_scheme \<Rightarrow> 'z disk_scheme \<Rightarrow> bool" where
  "touches S d t \<longleftrightarrow>
     (\<forall>q. q \<notin> S \<longrightarrow> node_at t q = node_at d q) \<and> dir_len t = dir_len d \<and> disk.more t = disk.more d"

abbreviation frames :: "path set \<Rightarrow> ('z disk_scheme, 'e, 'a) prog \<Rightarrow> bool" where
  "frames S m \<equiv> upholds (touches S) m"

lemma touches_refl [simp]: "touches S d d"
  by (simp add: touches_def)

lemma touches_trans: "touches S d t \<Longrightarrow> touches S t u \<Longrightarrow> touches S d u"
  by (simp add: touches_def)

lemma touches_mono: "touches S d t \<Longrightarrow> S \<subseteq> T \<Longrightarrow> touches T d t"
  by (auto simp: touches_def)

lemma touches_at: "touches S d t \<Longrightarrow> q \<notin> S \<Longrightarrow> node_at t q = node_at d q"
  by (simp add: touches_def)

interpretation touching: state_preorder "touches S" for S
  by unfold_locales (simp_all add: touches_def)

lemma touches_put: "p \<in> S \<Longrightarrow> touches S d (put_node p n d)"
  by (auto simp: touches_def disk_nodes.look_put)

lemma touches_del: "p \<in> S \<Longrightarrow> touches S d (del_node p d)"
  by (auto simp: touches_def disk_nodes.look_del)

lemma touches_dirs: "set qs \<subseteq> S \<Longrightarrow> touches S d (add_dirs qs d)"
  by (auto simp: touches_def node_at_add_dirs)

lemma next_fault_touches: "next_fault d = (r, t) \<Longrightarrow> touches S d t"
  by (auto simp: next_fault_def touches_def split: list.splits)

lemma frames_fs_write: "p \<in> S \<Longrightarrow> frames S (fs_write p b)"
  unfolding fs_write_def
  by (rule touching.resp_bind; rule upholdsI)
    (auto simp: touches_put split: if_splits option.splits io_fault.splits
      intro: next_fault_touches)

lemma frames_fs_remove_file: "p \<in> S \<Longrightarrow> frames S (fs_remove_file p)"
  unfolding fs_remove_file_def
  by (rule touching.resp_bind; rule upholdsI)
    (auto simp: touches_del split: if_splits option.splits node.splits
      intro: next_fault_touches)

lemma reads_queries [hoare]:
  "reads (fs_read p)" "reads (metadata_len p)" "reads (read_dir p)"
  by (auto intro!: upholdsI simp: fs_read_def metadata_len_def read_dir_def
      split: option.splits node.splits)

section \<open>Outcomes of the operations\<close>

lemma node_at_next_fault: "next_fault d = (r, t) \<Longrightarrow> node_at t q = node_at d q"
  by (auto simp: next_fault_def split: list.splits)

lemma next_fault_node_at: "next_fault d = (r, t) \<Longrightarrow> node_at t = node_at d"
  by (rule ext) (rule node_at_next_fault)

lemma fs_write_ok: "fs_write p b d = (Inr u, t) \<Longrightarrow> node_at t p = Some (File b)"
  by (auto simp: fs_write_def bindE_eq disk_nodes.look_put
      split: if_splits option.splits io_fault.splits)

text \<open>A failed write leaves the old node or a prefix of the new content.\<close>

lemma fs_write_err:
  assumes "fs_write p b d = (Inl e, t)"
  shows "node_at t p = node_at d p \<or> (\<exists>k. node_at t p = Some (File (take k b)))"
  using assms
  by (auto simp: fs_write_def bindE_eq disk_nodes.look_put
      split: if_splits option.splits io_fault.splits dest: node_at_next_fault)

lemma fs_write_touches: "fs_write p b d = (r, t) \<Longrightarrow> touches {p} d t"
  by (rule upholdsD [OF frames_fs_write]) simp_all

lemma fs_remove_ok: "fs_remove_file p d = (Inr u, t) \<Longrightarrow> node_at t p = None"
  by (auto simp: fs_remove_file_def bindE_eq disk_nodes.look_del
      split: if_splits option.splits node.splits)

lemma fs_remove_ok_file: "fs_remove_file p d = (Inr u, t) \<Longrightarrow> \<exists>b. node_at d p = Some (File b)"
  by (auto simp: fs_remove_file_def bindE_eq
      split: if_splits option.splits node.splits dest!: next_fault_node_at)

lemma fs_remove_err: "fs_remove_file p d = (Inl e, t) \<Longrightarrow> node_at t = node_at d"
  by (auto simp: fs_remove_file_def bindE_eq
      split: if_splits option.splits node.splits dest: next_fault_node_at)

lemma fs_remove_touches: "fs_remove_file p d = (r, t) \<Longrightarrow> touches {p} d t"
  by (rule upholdsD [OF frames_fs_remove_file]) simp_all

lemma set_missing_dirs: "set (missing_dirs d p) = {q \<in> insert p (set (ancestors p)). node_at d q = None}"
  by (auto simp: missing_dirs_def)

lemma create_dir_all_cases:
  assumes "create_dir_all p d = (r, t)"
  obtains (same) "node_at t = node_at d" "touches {} d t" "r = Inr () \<Longrightarrow> node_at d p = Some Dir"
  | (added) qs u where "set qs \<subseteq> set (missing_dirs d p)" "t = add_dirs qs u"
      "touches {} d u" "r = Inr () \<Longrightarrow> qs = missing_dirs d p \<and> node_at d p = None"
proof -
  have quiet: "touches {} d d"
    by simp
  show thesis
  proof (cases "node_at d p")
    case None
    show thesis
    proof (cases "absent_error d p = NotADirectory")
      case True
      with None assms show thesis
        by (intro same) (auto simp: create_dir_all_def)
    next
      case False
      then obtain f u where nf: "next_fault d = (Inr f, u)"
        and rest: "(case f of Proceed \<Rightarrow> (Inr (), add_dirs (missing_dirs u p) u)
            | Refuse \<Rightarrow> (Inl OtherIo, u)
            | Tear k \<Rightarrow> (Inl OtherIo, add_dirs (take k (missing_dirs u p)) u)) = (r, t)"
        using None assms
        by (auto simp: create_dir_all_def bindE_eq next_fault_def split: list.splits)
      have u: "touches {} d u" "node_at u = node_at d"
        using nf by (auto intro: next_fault_touches next_fault_node_at)
      then have md: "missing_dirs u p = missing_dirs d p"
        by (simp add: missing_dirs_def)
      show thesis
      proof (cases f)
        case Proceed
        with rest md u None show thesis by (intro added [of "missing_dirs d p" u]) auto
      next
        case Refuse
        with rest u None show thesis by (intro same) auto
      next
        case (Tear k)
        with rest md u None show thesis
          by (intro added [of "take k (missing_dirs d p)" u]) (auto dest: in_set_takeD)
      qed
    qed
  next
    case (Some n)
    with assms quiet show thesis
      by (intro same) (auto simp: create_dir_all_def split: node.splits)
  qed
qed

text \<open>\<open>create_dir_all\<close> only adds directories where nothing was.\<close>

lemma create_dir_all_grows:
  assumes "create_dir_all p d = (r, t)" and "node_at d q = Some n"
  shows "node_at t q = Some n"
  using assms(1)
proof (cases rule: create_dir_all_cases)
  case same
  with assms(2) show ?thesis by simp
next
  case (added qs u)
  then have "q \<notin> set qs" "node_at u q = node_at d q"
    using assms(2) by (auto simp: set_missing_dirs touches_def)
  with added(2) assms(2) show ?thesis by (simp add: node_at_add_dirs)
qed

lemma create_dir_all_file:
  assumes "create_dir_all p d = (r, t)"
  shows "node_at t q = Some (File b) \<longleftrightarrow> node_at d q = Some (File b)"
  using assms
proof (cases rule: create_dir_all_cases)
  case same
  then show ?thesis by simp
next
  case (added qs u)
  then have "node_at u q = node_at d q" and "q \<in> set qs \<Longrightarrow> node_at d q = None"
    by (auto simp: set_missing_dirs touches_def)
  with added(2) show ?thesis by (auto simp: node_at_add_dirs)
qed

lemma create_dir_all_ok: "create_dir_all p d = (Inr u, t) \<Longrightarrow> node_at t p = Some Dir"
  by (erule create_dir_all_cases) (auto simp: node_at_add_dirs set_missing_dirs)

lemma create_dir_all_touches:
  assumes "create_dir_all p d = (r, t)"
  shows "touches {q \<in> insert p (set (ancestors p)). node_at d q = None} d t"
  using assms
proof (cases rule: create_dir_all_cases)
  case same
  then show ?thesis by (blast intro: touches_mono)
next
  case (added qs u)
  have "touches {q \<in> insert p (set (ancestors p)). node_at d q = None} u t"
    using added(1,2) by (auto simp: set_missing_dirs intro: touches_dirs)
  moreover have "touches {q \<in> insert p (set (ancestors p)). node_at d q = None} d u"
    using added(3) by (rule touches_mono) simp
  ultimately show ?thesis by (rule touches_trans [rotated])
qed

lemma create_dir_all_far:
  assumes "create_dir_all p d = (r, t)" and "length p < length q"
  shows "node_at t q = node_at d q"
proof -
  have "\<forall>x \<in> insert p (set (ancestors p)). length x \<le> length p"
    by (simp add: ancestors_def)
  then have "q \<notin> insert p (set (ancestors p))"
    using assms(2) leD by blast
  with touches_at [OF create_dir_all_touches [OF assms(1)]] show ?thesis by auto
qed

section \<open>Confinement: new directories anywhere, files only here\<close>

text \<open>
  Most operations of the crate create missing directories on their way. \<open>confined S m\<close> says
  that outside \<open>S\<close> the program \<open>m\<close> changes no file, removes no directory and creates no file,
  whatever its outcome.
\<close>

definition same_files :: "path set \<Rightarrow> 'z disk_scheme \<Rightarrow> 'z disk_scheme \<Rightarrow> bool" where
  "same_files S d t \<longleftrightarrow>
     (\<forall>q. q \<notin> S \<longrightarrow> (\<forall>b. node_at t q = Some (File b) \<longleftrightarrow> node_at d q = Some (File b)) \<and>
        (node_at d q = Some Dir \<longrightarrow> node_at t q = Some Dir)) \<and>
     dir_len t = dir_len d \<and> disk.more t = disk.more d"

abbreviation confined :: "path set \<Rightarrow> ('z disk_scheme, 'e, 'a) prog \<Rightarrow> bool" where
  "confined S m \<equiv> upholds (same_files S) m"

lemma same_files_refl [simp]: "same_files S d d"
  by (simp add: same_files_def)

lemma same_files_trans: "same_files S d t \<Longrightarrow> same_files S t u \<Longrightarrow> same_files S d u"
  by (simp add: same_files_def)

lemma same_files_mono: "same_files S d t \<Longrightarrow> S \<subseteq> T \<Longrightarrow> same_files T d t"
  by (auto simp: same_files_def)

lemma same_files_at:
  "same_files S d t \<Longrightarrow> q \<notin> S \<Longrightarrow> node_at t q = Some (File b) \<longleftrightarrow> node_at d q = Some (File b)"
  by (simp add: same_files_def)

lemma same_files_dir: "same_files S d t \<Longrightarrow> q \<notin> S \<Longrightarrow> node_at d q = Some Dir \<Longrightarrow> node_at t q = Some Dir"
  by (simp add: same_files_def)

lemma same_files_exists:
  assumes "same_files S d t" and "q \<notin> S" and "path_exists d q"
  shows "path_exists t q"
proof -
  obtain n where "node_at d q = Some n"
    using assms(3) by (auto simp: path_exists_def)
  with assms(1,2) have "node_at t q = Some n"
    by (cases n) (simp_all add: same_files_def)
  then show ?thesis by (simp add: path_exists_def)
qed

lemma touches_same_files: "touches S d t \<Longrightarrow> same_files S d t"
  by (simp add: touches_def same_files_def)

interpretation confining: state_preorder "same_files S" for S
  by unfold_locales (simp_all add: same_files_def)

lemma confined_frames: "frames S m \<Longrightarrow> confined S m"
  by (erule upholds_mono) (erule touches_same_files)

lemma confined_fs_write [hoare]: "p \<in> S \<Longrightarrow> confined S (fs_write p b)"
  by (rule confined_frames) (rule frames_fs_write)

lemma confined_fs_remove_file [hoare]: "p \<in> S \<Longrightarrow> confined S (fs_remove_file p)"
  by (rule confined_frames) (rule frames_fs_remove_file)

lemma confined_create_dir_all [hoare]: "confined S (create_dir_all p)"
proof (rule upholdsI)
  fix d :: "'z disk_scheme" and r t
  assume run: "create_dir_all p d = (r, t)"
  then show "same_files S d t"
    using create_dir_all_touches [OF run] create_dir_all_grows [OF run] create_dir_all_file [OF run]
    by (auto simp: same_files_def touches_def)
qed

section \<open>Runs on a disk without faults\<close>

lemma quiet_next_fault [run_simps]: "pending d = [] \<Longrightarrow> next_fault d = (Inr Proceed, d)"
  by (simp add: next_fault_def)

lemma quiet_write:
  "pending d = [] \<Longrightarrow> write_error d p = None \<Longrightarrow> fs_write p b d = (Inr (), put_node p (File b) d)"
  by (simp add: fs_write_def bindE_def run_simps)

lemma quiet_remove:
  "pending d = [] \<Longrightarrow> node_at d p = Some (File b) \<Longrightarrow> fs_remove_file p d = (Inr (), del_node p d)"
  by (simp add: fs_remove_file_def bindE_def run_simps)

lemma quiet_create_dir_all:
  assumes "pending d = []" and "\<forall>q \<in> insert p (set (ancestors p)). \<not> is_file_node (node_at d q)"
  obtains t where "create_dir_all p d = (Inr (), t)" and "pending t = []"
proof (cases "node_at d p")
  case None
  have "absent_error d p \<noteq> NotADirectory"
    using assms(2) by (auto simp: absent_error_def list_ex_iff)
  with None assms(1) show thesis
    by (intro that [of "add_dirs (missing_dirs d p) d"])
      (simp_all add: create_dir_all_def bindE_def run_simps)
next
  case (Some n)
  with assms(2) have "n = Dir" by (cases n) (auto simp: is_file_node_def)
  with Some assms(1) show thesis
    by (intro that [of d]) (simp_all add: create_dir_all_def)
qed

section \<open>Enumeration\<close>

text \<open>A directory lists each name once: the keys of the node list are distinct.\<close>

definition wf_disk :: "'z disk_scheme \<Rightarrow> bool" where
  "wf_disk d \<longleftrightarrow> distinct (map fst (nodes d))"

lemma wf_put_node [intro]: "wf_disk d \<Longrightarrow> wf_disk (put_node p n d)"
  by (simp add: wf_disk_def put_node_def distinct_update)

lemma wf_del_node [intro]: "wf_disk d \<Longrightarrow> wf_disk (del_node p d)"
  by (simp add: wf_disk_def del_node_def distinct_delete)

lemma node_at_iff: "wf_disk d \<Longrightarrow> node_at d p = Some n \<longleftrightarrow> (p, n) \<in> set (nodes d)"
  by (simp add: wf_disk_def node_at_def)

lemma mem_children:
  "wf_disk d \<Longrightarrow> (name, n) \<in> set (children d p) \<longleftrightarrow> node_at d (p @ [name]) = Some n"
proof -
  assume wf: "wf_disk d"
  have "(name, n) \<in> set (children d p) \<longleftrightarrow> (p @ [name], n) \<in> set (nodes d)"
    by (force simp: children_def)
  with wf show ?thesis by (simp add: node_at_iff)
qed

lemma children_exist: "(name, n) \<in> set (children d p) \<Longrightarrow> \<exists>m. node_at d (p @ [name]) = Some m"
proof -
  assume "(name, n) \<in> set (children d p)"
  then have "(p @ [name], n) \<in> set (nodes d)"
    by (force simp: children_def)
  then show ?thesis
    unfolding node_at_def by (rule weak_map_of_SomeI)
qed

end
