(* ===== verification/Codec.thy ===== *)
theory Codec
  imports Bytes Disk "HOL-Library.Multiset"
begin

text \<open>
  Hashing and compression: \<open>src/hasher.rs\<close> and \<open>src/compressor.rs\<close> over the two third-party
  crates they call. BLAKE3 and zstd are not part of the repository, so their functions are
  the fields of a record \<open>env\<close>, an argument of every definition that uses them; what the
  crate relies on of them is stated by the named predicates of the second section.
\<close>

section \<open>The environment\<close>

text \<open>
  \<^item> \<open>feature_zstd\<close>: the cargo feature the crate is built with;
  \<^item> \<open>blake3_hash\<close>: \<open>blake3::hash\<close>; \<open>blake3_stream\<close>: a \<open>Hasher\<close> fed with the chunks in order and
    finalized; \<open>blake3_derive_key\<close> and \<open>blake3_keyed\<close>: key derivation and the keyed hasher;
  \<^item> \<open>zstd_encode\<close>: an encoder created at a level, fed and finished, with the text of its first
    error; \<open>zstd_open\<close>: the error of creating a decoder on a frame, if any; \<open>zstd_read\<close>: what the
    \<open>i\<close>-th read of 64 KiB from that decoder returns;
  \<^item> \<open>read_limit\<close>: the most bytes the \<open>i\<close>-th read of an open file returns (reads may be short);
  \<^item> \<open>io_text\<close>: the operating system's text for an I/O error;
  \<^item> \<open>map_order\<close>: the order in which a \<open>HashMap\<close> with these keys is iterated.
\<close>

record env =
  feature_zstd :: bool
  blake3_hash :: "bytes \<Rightarrow> hash"
  blake3_stream :: "bytes list \<Rightarrow> hash"
  blake3_derive_key :: "string \<Rightarrow> bytes \<Rightarrow> bytes"
  blake3_keyed :: "bytes \<Rightarrow> bytes \<Rightarrow> hash"
  zstd_encode :: "int \<Rightarrow> bytes \<Rightarrow> string + bytes"
  zstd_open :: "bytes \<Rightarrow> string option"
  zstd_read :: "bytes \<Rightarrow> nat \<Rightarrow> string + bytes"
  read_limit :: "nat \<Rightarrow> nat"
  io_text :: "io_error \<Rightarrow> string"
  map_order :: "path list \<Rightarrow> path list"

section \<open>Documented behaviour of the third-party code\<close>

text \<open>A streaming hasher hashes the concatenation of what it was fed.\<close>

definition streaming_hash :: "env \<Rightarrow> bool" where
  "streaming_hash E \<longleftrightarrow> (\<forall>chunks. blake3_stream E chunks = blake3_hash E (concat chunks))"

text \<open>The decoder of a frame opens, yields non-empty chunks and then the end of the stream.\<close>

definition zstd_yields :: "env \<Rightarrow> bytes \<Rightarrow> bytes list \<Rightarrow> bool" where
  "zstd_yields E frame chunks \<longleftrightarrow>
     zstd_open E frame = None \<and>
     (\<forall>i < length chunks. zstd_read E frame i = Inr (chunks ! i) \<and> chunks ! i \<noteq> []) \<and>
     zstd_read E frame (length chunks) = Inr []"

text \<open>Compression is lossless: decoding an encoder's frame yields the data.\<close>

definition zstd_lossless :: "env \<Rightarrow> bool" where
  "zstd_lossless E \<longleftrightarrow>
     (\<forall>level data frame. zstd_encode E level data = Inr frame \<longrightarrow>
        (\<exists>chunks. zstd_yields E frame chunks \<and> concat chunks = data))"

text \<open>A frame starts with the magic number of the zstd format.\<close>

definition ZSTD_MAGIC :: bytes where
  "ZSTD_MAGIC = [0x28, 0xB5, 0x2F, 0xFD]"

definition zstd_frames :: "env \<Rightarrow> bool" where
  "zstd_frames E \<longleftrightarrow>
     (\<forall>level data frame. zstd_encode E level data = Inr frame \<longrightarrow> take 4 frame = ZSTD_MAGIC)"

text \<open>A \<open>HashMap\<close> yields each key once, in any order.\<close>

definition map_order_ok :: "env \<Rightarrow> bool" where
  "map_order_ok E \<longleftrightarrow> (\<forall>ps. mset (map_order E ps) = mset ps)"

section \<open>Hashing\<close>

definition from_data :: "env \<Rightarrow> bytes \<Rightarrow> hash" where
  "from_data E data = blake3_hash E data"

definition hash_bytes :: "env \<Rightarrow> bytes \<Rightarrow> hash" where
  "hash_bytes E data = from_data E data"

definition verify_hash :: "env \<Rightarrow> bytes \<Rightarrow> hash \<Rightarrow> cas_error + unit" where
  "verify_hash E data expected =
     (let actual = hash_bytes E data in
      if actual = expected then Inr ()
      else Inl (HashMismatch (to_hex expected) (to_hex actual)))"

definition BUFFER_SIZE :: nat where
  "BUFFER_SIZE = 64 * 1024"

text \<open>One read of an open file into the 64 KiB buffer: empty only at the end of the file.\<close>

definition file_chunk :: "env \<Rightarrow> nat \<Rightarrow> bytes \<Rightarrow> bytes" where
  "file_chunk E i rest = take (min BUFFER_SIZE (max 1 (read_limit E i))) rest"

lemma file_chunk_empty [simp]: "file_chunk E i rest = [] \<longleftrightarrow> rest = []"
  by (auto simp: file_chunk_def BUFFER_SIZE_def)

text \<open>The chunks the loop of \<open>hash_file\<close> feeds to the hasher.\<close>

function hash_file_loop :: "env \<Rightarrow> nat \<Rightarrow> bytes \<Rightarrow> bytes list \<Rightarrow> bytes list" where
  "hash_file_loop E i rest fed =
     (let chunk = file_chunk E i rest in
      if chunk = [] then fed
      else hash_file_loop E (Suc i) (drop (length chunk) rest) (fed @ [chunk]))"
  by pat_completeness auto
termination
  by (relation "measure (\<lambda>(E, i, rest, fed). length rest)") (auto simp: Let_def)

declare hash_file_loop.simps [simp del]

definition hash_file :: "env \<Rightarrow> path \<Rightarrow> ('z disk_scheme, io_error, hash) prog" where
  "hash_file E p =
     bindE (fs_read p) (\<lambda>content. returnE (blake3_stream E (hash_file_loop E 0 content [])))"

text \<open>The domain string, ``suture-context-v1''.\<close>

definition CONTEXT_DOMAIN :: bytes where
  "CONTEXT_DOMAIN = map (\<lambda>c. word_of_nat (of_char c)) ''suture-context-v1''"

definition hash_with_context :: "env \<Rightarrow> string \<Rightarrow> bytes \<Rightarrow> hash" where
  "hash_with_context E context data =
     (let context_key = blake3_derive_key E context CONTEXT_DOMAIN
      in blake3_keyed E context_key data)"

section \<open>Compression\<close>

definition DEFAULT_COMPRESSION_LEVEL :: int where
  "DEFAULT_COMPRESSION_LEVEL = 3"

definition MAX_DECOMPRESSED_SIZE :: nat where
  "MAX_DECOMPRESSED_SIZE = 1024 * 1024 * 1024"

text \<open>The three calls on the encoder fail alike; \<open>zstd_encode\<close> carries the first failure.\<close>

definition zstd_compress :: "env \<Rightarrow> bytes \<Rightarrow> int \<Rightarrow> cas_error + bytes" where
  "zstd_compress E data level =
     (case zstd_encode E level data of
        Inl msg \<Rightarrow> Inl (CompressionError msg)
      | Inr frame \<Rightarrow> Inr frame)"

definition compress_default :: "env \<Rightarrow> bytes \<Rightarrow> cas_error + bytes" where
  "compress_default E data = zstd_compress E data DEFAULT_COMPRESSION_LEVEL"

text \<open>
  The read loop of \<open>decompress\<close>. It ends for every decoder, even one that never reaches the
  end of its stream, because every turn adds at least one byte and the size is capped.
\<close>

function decompress_loop :: "(nat \<Rightarrow> string + bytes) \<Rightarrow> nat \<Rightarrow> bytes \<Rightarrow> cas_error + bytes" where
  "decompress_loop reader i buf =
     (case reader i of
        Inl msg \<Rightarrow> Inl (DecompressionError msg)
      | Inr chunk \<Rightarrow>
          if length chunk = 0 then Inr buf
          else if length buf + length chunk > MAX_DECOMPRESSED_SIZE
          then Inl (DecompressionTooLarge MAX_DECOMPRESSED_SIZE)
          else decompress_loop reader (Suc i) (buf @ chunk))"
  by pat_completeness auto
termination
proof (relation "measure (\<lambda>(reader, i, buf). MAX_DECOMPRESSED_SIZE - length buf)", goal_cases)
  case (2 reader i buf chunk)
  then have "0 < length chunk" and "length buf + length chunk \<le> MAX_DECOMPRESSED_SIZE"
    by simp_all
  then show ?case by (cases chunk) (simp_all add: diff_less_mono2)
qed simp

declare decompress_loop.simps [simp del]

definition decompress :: "env \<Rightarrow> bytes \<Rightarrow> cas_error + bytes" where
  "decompress E data =
     (case zstd_open E data of
        Some msg \<Rightarrow> Inl (DecompressionError msg)
      | None \<Rightarrow> decompress_loop (zstd_read E data) 0 [])"

text \<open>\<open>is_zstd_compressed\<close> of \<open>src/store.rs\<close>, in its two builds.\<close>

definition is_zstd_compressed :: "env \<Rightarrow> bytes \<Rightarrow> bool" where
  "is_zstd_compressed E data \<longleftrightarrow>
     feature_zstd E \<and> 4 \<le> length data \<and> take 4 data = [0x28, 0xB5, 0x2F, 0xFD]"

section \<open>Facts about hashing\<close>

lemma concat_hash_file_loop: "concat (hash_file_loop E i rest fed) = concat fed @ rest"
proof (induction E i rest fed rule: hash_file_loop.induct)
  case (1 E i rest fed)
  show ?case
  proof (cases "rest = []")
    case True
    then show ?thesis by (subst hash_file_loop.simps) simp
  next
    case False
    let ?c = "file_chunk E i rest"
    have "?c @ drop (length ?c) rest = rest"
      by (simp add: file_chunk_def min_def)
    moreover have "concat (hash_file_loop E (Suc i) (drop (length ?c) rest) (fed @ [?c])) =
        concat (fed @ [?c]) @ drop (length ?c) rest"
      using False by (intro "1.IH") simp_all
    ultimately show ?thesis
      using False by (simp add: hash_file_loop.simps [of E i rest fed] Let_def)
  qed
qed

lemma verify_hash_ok [simp]: "verify_hash E data h = Inr u \<longleftrightarrow> hash_bytes E data = h"
  by (simp add: verify_hash_def Let_def)

lemma verify_hash_err:
  "verify_hash E data h = Inl e \<longleftrightarrow>
     hash_bytes E data \<noteq> h \<and> e = HashMismatch (to_hex h) (to_hex (hash_bytes E data))"
  by (auto simp: verify_hash_def Let_def)

section \<open>Facts about decompression\<close>

lemma decompress_loop_bound:
  "decompress_loop reader i buf = Inr data \<Longrightarrow> length buf \<le> MAX_DECOMPRESSED_SIZE \<Longrightarrow>
     length data \<le> MAX_DECOMPRESSED_SIZE"
proof (induction reader i buf rule: decompress_loop.induct)
  case (1 reader i buf)
  from "1.prems"(1) show ?case
    unfolding decompress_loop.simps [of reader i buf]
    using "1.IH" "1.prems"(2) by (auto split: sum.splits if_splits)
qed

text \<open>The loop on a decoder that yields \<open>chunks\<close>, from its \<open>i\<close>-th read on.\<close>

lemma decompress_loop_chunks:
  assumes "\<forall>i < length chunks. reader i = Inr (chunks ! i) \<and> chunks ! i \<noteq> []"
    and "reader (length chunks) = Inr []" and "i \<le> length chunks"
    and "length buf \<le> MAX_DECOMPRESSED_SIZE"
  shows "decompress_loop reader i buf =
    (if length buf + length (concat (drop i chunks)) \<le> MAX_DECOMPRESSED_SIZE
     then Inr (buf @ concat (drop i chunks))
     else Inl (DecompressionTooLarge MAX_DECOMPRESSED_SIZE))"
  using assms
proof (induction "length chunks - i" arbitrary: i buf)
  case 0
  then show ?case
    by (subst decompress_loop.simps) simp
next
  case (Suc n)
  then have i: "i < length chunks" by simp
  then have split: "concat (drop i chunks) = chunks ! i @ concat (drop (Suc i) chunks)"
    by (simp add: Cons_nth_drop_Suc [symmetric])
  have step: "reader i = Inr (chunks ! i)" "chunks ! i \<noteq> []"
    using Suc.prems(1) i by auto
  show ?case
  proof (cases "length buf + length (chunks ! i) \<le> MAX_DECOMPRESSED_SIZE")
    case True
    have "decompress_loop reader (Suc i) (buf @ chunks ! i) =
      (if length (buf @ chunks ! i) + length (concat (drop (Suc i) chunks)) \<le> MAX_DECOMPRESSED_SIZE
       then Inr ((buf @ chunks ! i) @ concat (drop (Suc i) chunks))
       else Inl (DecompressionTooLarge MAX_DECOMPRESSED_SIZE))"
      using Suc.hyps(2) Suc.prems i True by (intro Suc.hyps(1)) simp_all
    with True step show ?thesis
      by (subst decompress_loop.simps) (simp add: split add.assoc)
  next
    case False
    with step show ?thesis
      by (subst decompress_loop.simps) (simp add: split)
  qed
qed

lemma decompress_yields:
  assumes "zstd_yields E frame chunks"
  shows "decompress E frame =
    (if length (concat chunks) \<le> MAX_DECOMPRESSED_SIZE then Inr (concat chunks)
     else Inl (DecompressionTooLarge MAX_DECOMPRESSED_SIZE))"
  using assms decompress_loop_chunks [of chunks "zstd_read E frame" 0 "[]"]
  by (simp add: zstd_yields_def decompress_def)

lemma decompress_compress:
  assumes "zstd_lossless E" and "zstd_compress E data level = Inr frame"
  shows "decompress E frame =
    (if length data \<le> MAX_DECOMPRESSED_SIZE then Inr data
     else Inl (DecompressionTooLarge MAX_DECOMPRESSED_SIZE))"
proof -
  have "zstd_encode E level data = Inr frame"
    using assms(2) by (simp add: zstd_compress_def split: sum.splits)
  with assms(1) obtain chunks where "zstd_yields E frame chunks" "concat chunks = data"
    unfolding zstd_lossless_def by blast
  then show ?thesis by (simp add: decompress_yields)
qed

lemma compress_is_zstd:
  assumes "zstd_frames E" and "feature_zstd E" and "zstd_compress E data level = Inr frame"
  shows "is_zstd_compressed E frame"
proof -
  have "take 4 frame = ZSTD_MAGIC"
    using assms unfolding zstd_frames_def zstd_compress_def by (auto split: sum.splits)
  moreover from this have "length (take 4 frame) = 4"
    by (simp add: ZSTD_MAGIC_def)
  then have "4 \<le> length frame"
    by simp
  ultimately show ?thesis
    using assms(2) by (simp add: is_zstd_compressed_def ZSTD_MAGIC_def)
qed

end
