(* ===== verification/Search.thy ===== *)
theory Search
  imports Prelude "HOL-Library.Multiset"
begin

text \<open>
  The slice searches of the standard library that the pack index uses. \<open>slice::binary_search_by\<close>
  halves the window without an early exit and compares once at the end; the locale
  \<open>ordered_search\<close> is its contract, and the lookup lemma of the index is proved from the
  contract alone.
\<close>

function bs_window :: "('k :: linorder) list \<Rightarrow> 'k \<Rightarrow> nat \<Rightarrow> nat \<Rightarrow> nat" where
  "bs_window ks k base width =
     (if 1 < width then
        let half = width div 2; mid = base + half
        in bs_window ks k (if k < ks ! mid then base else mid) (width - half)
      else base)"
  by pat_completeness auto
termination
  by (relation "measure (\<lambda>(ks, k, base, width). width)") auto

declare bs_window.simps [simp del]

definition binary_search :: "('k :: linorder) list \<Rightarrow> 'k \<Rightarrow> nat option" where
  "binary_search ks k =
     (if ks = [] then None
      else let base = bs_window ks k 0 (length ks)
           in if ks ! base = k then Some base else None)"

section \<open>The contract of a search in a sorted list\<close>

locale ordered_search =
  fixes search :: "('k :: linorder) list \<Rightarrow> 'k \<Rightarrow> nat option"
  assumes search_sound: "search ks k = Some i \<Longrightarrow> i < length ks \<and> ks ! i = k"
    and search_complete: "sorted ks \<Longrightarrow> k \<in> set ks \<Longrightarrow> search ks k \<noteq> None"
begin

lemma search_absent: "k \<notin> set ks \<Longrightarrow> search ks k = None"
  using search_sound [of ks k] by (cases "search ks k") (auto intro: nth_mem)

lemma search_None_iff: "sorted ks \<Longrightarrow> search ks k = None \<longleftrightarrow> k \<notin> set ks"
  using search_complete search_absent by blast

lemma lookup_member:
  assumes "map_option (\<lambda>i. g (xs ! i)) (search (map f xs) k) = Some v"
  shows "\<exists>x \<in> set xs. f x = k \<and> g x = v"
proof -
  from assms obtain i where i: "search (map f xs) k = Some i" and v: "g (xs ! i) = v"
    by auto
  from search_sound [OF i] have "i < length xs" "f (xs ! i) = k"
    by auto
  with v show ?thesis by (intro bexI [of _ "xs ! i"]) simp_all
qed

text \<open>On sorted distinct keys the search is the dictionary lookup.\<close>

lemma lookup_map_of:
  assumes "sorted (map f xs)" and "distinct (map f xs)"
  shows "map_option (\<lambda>i. g (xs ! i)) (search (map f xs) k) = map_of (map (\<lambda>x. (f x, g x)) xs) k"
proof (cases "map_option (\<lambda>i. g (xs ! i)) (search (map f xs) k)")
  case None
  then have "k \<notin> set (map f xs)"
    using search_complete [OF assms(1), of k] by (cases "k \<in> set (map f xs)") simp_all
  then have "map_of (map (\<lambda>x. (f x, g x)) xs) k = None"
    by (auto simp: map_of_eq_None_iff image_image)
  with None show ?thesis by simp
next
  case (Some v)
  then obtain x where "x \<in> set xs" "f x = k" "g x = v"
    using lookup_member [OF Some] by auto
  then have "(k, v) \<in> set (map (\<lambda>x. (f x, g x)) xs)" by force
  with assms(2) have "map_of (map (\<lambda>x. (f x, g x)) xs) k = Some v"
    by (intro map_of_is_SomeI) (simp_all add: comp_def)
  with Some show ?thesis by simp
qed

end

lemma bs_window_bounds:
  "0 < width \<Longrightarrow> base \<le> bs_window ks k base width \<and> bs_window ks k base width < base + width"
proof (induction ks k base width rule: bs_window.induct)
  case (1 ks k base width)
  show ?case
  proof (cases "1 < width")
    case True
    let ?b = "if k < ks ! (base + width div 2) then base else base + width div 2"
    have "?b \<le> bs_window ks k ?b (width - width div 2) \<and>
        bs_window ks k ?b (width - width div 2) < ?b + (width - width div 2)"
      using True by (intro "1.IH") simp_all
    moreover have "base \<le> ?b" "?b + (width - width div 2) \<le> base + width"
      by (auto split: if_splits)
    ultimately show ?thesis
      using True unfolding bs_window.simps [of ks k base width] Let_def by simp
  next
    case False
    with "1.prems" show ?thesis by (simp add: bs_window.simps [of ks k base width])
  qed
qed

text \<open>The window never loses the key.\<close>

lemma bs_window_keeps:
  assumes "sorted ks" and "base + width \<le> length ks" and "0 < width"
    and "\<exists>i. base \<le> i \<and> i < base + width \<and> ks ! i = k"
  shows "ks ! bs_window ks k base width = k"
  using assms
proof (induction ks k base width rule: bs_window.induct)
  case (1 ks k base width)
  show ?case
  proof (cases "1 < width")
    case False
    with "1.prems"(3,4) have "ks ! base = k"
      by (metis One_nat_def add.commute le_antisym less_Suc_eq_le linorder_not_less nat_less_le plus_1_eq_Suc)
    with False show ?thesis by (simp add: bs_window.simps [of ks k base width])
  next
    case True
    let ?mid = "base + width div 2"
    let ?b = "if k < ks ! ?mid then base else ?mid"
    from "1.prems"(4) obtain i where i: "base \<le> i" "i < base + width" "ks ! i = k"
      by blast
    have len: "?mid < length ks" "i < length ks"
      using "1.prems"(2) i(2) True by linarith+
    have "\<exists>j. ?b \<le> j \<and> j < ?b + (width - width div 2) \<and> ks ! j = k"
    proof (cases "k < ks ! ?mid")
      case less: True
      have "i < ?mid"
      proof (rule ccontr)
        assume "\<not> i < ?mid"
        then have "ks ! ?mid \<le> ks ! i"
          using "1.prems"(1) len by (intro sorted_nth_mono) simp_all
        with less i(3) show False by simp
      qed
      with less i show ?thesis by auto
    next
      case ge: False
      show ?thesis
      proof (cases "?mid \<le> i")
        case True
        with ge i show ?thesis by auto
      next
        case False
        then have "ks ! i \<le> ks ! ?mid"
          using "1.prems"(1) len by (intro sorted_nth_mono) simp_all
        with ge i(3) have "ks ! ?mid = k" by simp
        with ge \<open>1 < width\<close> show ?thesis by (intro exI [of _ ?mid]) auto
      qed
    qed
    moreover have "?b + (width - width div 2) \<le> length ks"
      using "1.prems"(2) by (auto split: if_splits)
    ultimately have "ks ! bs_window ks k ?b (width - width div 2) = k"
      using True "1.prems"(1) by (intro "1.IH") simp_all
    with True show ?thesis
      unfolding bs_window.simps [of ks k base width] Let_def by simp
  qed
qed

interpretation std_search: ordered_search "binary_search :: ('k :: linorder) list \<Rightarrow> 'k \<Rightarrow> nat option"
proof
  fix ks :: "'k list" and k i
  assume found: "binary_search ks k = Some i"
  then have "ks \<noteq> []" "ks ! i = k" "i = bs_window ks k 0 (length ks)"
    by (auto simp: binary_search_def Let_def split: if_splits)
  with bs_window_bounds [of "length ks" 0 ks k] show "i < length ks \<and> ks ! i = k"
    by simp
next
  fix ks :: "'k list" and k
  assume "sorted ks" and mem: "k \<in> set ks"
  then have "ks ! bs_window ks k 0 (length ks) = k"
    by (intro bs_window_keeps) (auto simp: in_set_conv_nth)
  moreover have "ks \<noteq> []"
    using mem by auto
  ultimately show "binary_search ks k \<noteq> None"
    by (simp add: binary_search_def Let_def)
qed

lemma map_of_perm:
  assumes "mset xs = mset ys" and "distinct (map fst xs)"
  shows "map_of xs = map_of ys"
proof -
  have "distinct (map fst ys)"
    by (metis assms mset_eq_imp_distinct_iff mset_map)
  moreover have "set xs = set ys"
    using assms(1) by (rule mset_eq_setD)
  ultimately show ?thesis
    using assms(2) by (simp add: map_of_inject_set)
qed

end
