(* ===== verification/PackFormat.thy ===== *)
theory PackFormat
  imports Codec Search
begin

text \<open>
  The two binary formats of \<open>src/pack.rs\<close>: the index (\<open>.idx\<close>) with its parser, its serializer
  and the lookup, and the object records of a pack (\<open>.pack\<close>). Everything here is about byte
  strings; the file operations are in the theory PackFiles.
\<close>

definition PACK_MAGIC :: bytes where
  "PACK_MAGIC = [0x53, 0x50, 0x43, 0x4B]"

definition INDEX_MAGIC :: bytes where
  "INDEX_MAGIC = [0x53, 0x49, 0x44, 0x58]"

definition PACK_VERSION :: u32 where
  "PACK_VERSION = 1"

definition TYPE_BLOB :: u8 where
  "TYPE_BLOB = 1"

record pack_index_entry =
  entry_hash :: hash
  entry_offset :: u64

record pack_index =
  entries :: "pack_index_entry list"

section \<open>The index\<close>

text \<open>The entry loop of \<open>PackIndex::load\<close>.\<close>

fun read_entries ::
  "nat \<Rightarrow> pack_index_entry list \<Rightarrow> (bytes, pack_error, pack_index_entry list) prog" where
  "read_entries 0 acc = returnE acc"
| "read_entries (Suc n) acc =
     bindE (map_err PackIo (read_exact 32)) (\<lambda>hash_bytes.
     bindE (map_err PackIo (read_exact 8)) (\<lambda>offset_bytes.
       read_entries n
         (acc @ [\<lparr>entry_hash = hash_of hash_bytes, entry_offset = u64_from_le offset_bytes\<rparr>])))"

text \<open>\<open>PackIndex::load\<close> on the opened file.\<close>

definition PackIndex_parse :: "(bytes, pack_error, pack_index) prog" where
  "PackIndex_parse =
     bindE (map_err PackIo (read_exact 4)) (\<lambda>magic.
       if magic \<noteq> INDEX_MAGIC then throwE (InvalidIndexMagic (utf8_lossy magic))
       else
     bindE (map_err PackIo (read_exact 4)) (\<lambda>version_bytes.
       if u32_from_le version_bytes \<noteq> PACK_VERSION
       then throwE (UnsupportedVersion (u32_from_le version_bytes))
       else
     bindE (map_err PackIo (read_exact 4)) (\<lambda>count_bytes.
     bindE (read_entries (unat (u32_from_le count_bytes)) []) (\<lambda>es.
       returnE \<lparr>entries = sort_key entry_hash es\<rparr>))))"

definition PackIndex_find :: "pack_index \<Rightarrow> hash \<Rightarrow> u64 option" where
  "PackIndex_find index h =
     map_option (\<lambda>i. entry_offset (entries index ! i))
       (binary_search (map entry_hash (entries index)) h)"

definition PackIndex_hashes :: "pack_index \<Rightarrow> hash list" where
  "PackIndex_hashes index = map entry_hash (entries index)"

definition PackIndex_len :: "pack_index \<Rightarrow> nat" where
  "PackIndex_len index = length (entries index)"

definition PackIndex_is_empty :: "pack_index \<Rightarrow> bool" where
  "PackIndex_is_empty index \<longleftrightarrow> entries index = []"

definition entry_bytes :: "pack_index_entry \<Rightarrow> bytes" where
  "entry_bytes e = digest (entry_hash e) @ u64_to_le (entry_offset e)"

definition serialize_index :: "pack_index_entry list \<Rightarrow> bytes" where
  "serialize_index es =
     INDEX_MAGIC @ u32_to_le PACK_VERSION @ u32_to_le (word_of_nat (length es)) @
     concat (map entry_bytes es)"

section \<open>Object records\<close>

text \<open>The payload of an object: a zstd frame, or the raw data in a build without the feature.\<close>

definition encode_payload :: "env \<Rightarrow> bytes \<Rightarrow> pack_error + bytes" where
  "encode_payload E data =
     (if feature_zstd E then
        (case compress_default E data of
           Inl e \<Rightarrow> Inl (PackCompressionError (cas_error_display (io_text E) e))
         | Inr c \<Rightarrow> Inr c)
      else Inr data)"

definition decode_payload :: "env \<Rightarrow> bytes \<Rightarrow> pack_error + bytes" where
  "decode_payload E compressed =
     (if feature_zstd E then
        (case decompress E compressed of
           Inl e \<Rightarrow> Inl (PackDecompressionError (cas_error_display (io_text E) e))
         | Inr data \<Rightarrow> Inr data)
      else Inr compressed)"

text \<open>The bytes that the loop of \<open>PackFile::create\<close> appends for one object (lengths cut to u32).\<close>

definition object_bytes :: "hash \<Rightarrow> bytes \<Rightarrow> bytes \<Rightarrow> bytes" where
  "object_bytes h data compressed =
     [TYPE_BLOB] @ u32_to_le (word_of_nat (length data)) @
     u32_to_le (word_of_nat (length compressed)) @ digest h @ compressed"

text \<open>The loop of \<open>PackFile::create\<close> over the objects.\<close>

fun pack_objects ::
  "env \<Rightarrow> (hash \<times> bytes) list \<Rightarrow> bytes \<Rightarrow> pack_index_entry list \<Rightarrow>
     pack_error + bytes \<times> pack_index_entry list" where
  "pack_objects E [] pack_data index_entries = Inr (pack_data, index_entries)"
| "pack_objects E ((h, data) # objects) pack_data index_entries =
     (case encode_payload E data of
        Inl e \<Rightarrow> Inl e
      | Inr compressed \<Rightarrow>
          pack_objects E objects (pack_data @ object_bytes h data compressed)
            (index_entries @
              [\<lparr>entry_hash = h, entry_offset = word_of_nat (length pack_data)\<rparr>]))"

definition pack_header :: "(hash \<times> bytes) list \<Rightarrow> bytes" where
  "pack_header objects =
     PACK_MAGIC @ u32_to_le PACK_VERSION @ u32_to_le (word_of_nat (length objects))"

text \<open>\<open>PackFile::read_blob\<close> after the seek: parse one object record and verify its digest.\<close>

definition read_object :: "env \<Rightarrow> hash \<Rightarrow> (bytes, pack_error, bytes) prog" where
  "read_object E h =
     bindE (map_err PackIo (read_exact 1)) (\<lambda>type_byte.
       if hd type_byte \<noteq> TYPE_BLOB then throwE (UnexpectedObjectType (hd type_byte))
       else
     bindE (map_err PackIo (read_exact 4)) (\<lambda>uncomp_size.
     bindE (map_err PackIo (read_exact 4)) (\<lambda>comp_size.
     bindE (map_err PackIo (read_exact 32)) (\<lambda>stored_hash.
     bindE (map_err PackIo (read_exact (unat (u32_from_le comp_size)))) (\<lambda>compressed.
     bindE (liftE (decode_payload E compressed)) (\<lambda>data.
       let actual_hash = hash_bytes E data in
       if actual_hash \<noteq> h then throwE (PackHashMismatch (to_hex h) (to_hex actual_hash))
       else returnE data))))))"

section \<open>Parsing what was serialized\<close>

lemma read_entries_bytes:
  "read_entries (length es) acc (concat (map entry_bytes es) @ rest) = (Inr (acc @ es), rest)"
  by (induction es arbitrary: acc) (simp_all add: entry_bytes_def run_simps)

lemma unat_u32_of_nat: "n < 2 ^ 32 \<Longrightarrow> unat (word_of_nat n :: u32) = n"
  by (simp add: unsigned_of_nat take_bit_eq_mod)

lemma unat_u64_of_nat: "n < 2 ^ 64 \<Longrightarrow> unat (word_of_nat n :: u64) = n"
  by (simp add: unsigned_of_nat take_bit_eq_mod)

lemma bind_read_magic [run_simps]:
  "bindE (map_err g (read_exact 4)) f (INDEX_MAGIC @ rest) = f INDEX_MAGIC rest"
  by (rule bind_read_append) (simp add: INDEX_MAGIC_def)

lemma PackIndex_parse_serialize:
  assumes "length es < 2 ^ 32"
  shows "PackIndex_parse (serialize_index es @ rest) = (Inr \<lparr>entries = sort_key entry_hash es\<rparr>, rest)"
proof -
  have "bindE (read_entries (length es) []) (\<lambda>es. returnE \<lparr>entries = sort_key entry_hash es\<rparr>)
      (concat (map entry_bytes es) @ rest) = (Inr \<lparr>entries = sort_key entry_hash es\<rparr>, rest)"
    using read_entries_bytes [of es "[]" rest] by (simp add: bindE_def run_simps)
  with assms show ?thesis
    by (simp add: PackIndex_parse_def serialize_index_def run_simps unat_u32_of_nat)
qed

text \<open>The parser accepts nothing but serialized indices.\<close>

lemma read_magic_iff: "read_exact 4 bs = (Inr x, rest) \<longleftrightarrow> bs = x @ rest \<and> length x = 4"
  by (auto simp: read_exact_def)

lemma read_entries_sound:
  "read_entries n acc bs = (Inr es, rest) \<Longrightarrow>
     \<exists>news. es = acc @ news \<and> length news = n \<and> bs = concat (map entry_bytes news) @ rest"
proof (induction n arbitrary: acc bs)
  case (Suc n)
  obtain hb ob b1 b2 where h: "read_exact 32 bs = (Inr hb, b1)" and off: "read_exact 8 b1 = (Inr ob, b2)"
    and more: "read_entries n (acc @ [\<lparr>entry_hash = hash_of hb, entry_offset = u64_from_le ob\<rparr>]) b2 = (Inr es, rest)"
    using Suc.prems by (auto simp: bindE_eq map_err_eq)
  from Suc.IH [OF more] obtain news where news: "length news = n" "b2 = concat (map entry_bytes news) @ rest"
    "es = acc @ \<lparr>entry_hash = hash_of hb, entry_offset = u64_from_le ob\<rparr> # news"
    by auto
  with h off show ?case
    by (intro exI [of _ "\<lparr>entry_hash = hash_of hb, entry_offset = u64_from_le ob\<rparr> # news"])
      (simp add: entry_bytes_def [of "\<lparr>entry_hash = _, entry_offset = _\<rparr>"]
        digest_field.read_field_iff u64_field.read_field_iff)
qed (simp add: run_atoms)

lemma PackIndex_parse_sound:
  assumes "PackIndex_parse bs = (Inr index, rest)"
  shows "\<exists>es. length es < 2 ^ 32 \<and> bs = serialize_index es @ rest \<and> index = \<lparr>entries = sort_key entry_hash es\<rparr>"
proof -
  obtain vb cb b1 b2 b3 es where magic: "read_exact 4 bs = (Inr INDEX_MAGIC, b1)"
    and version: "read_exact 4 b1 = (Inr vb, b2)" "u32_from_le vb = PACK_VERSION"
    and count: "read_exact 4 b2 = (Inr cb, b3)"
    and es: "read_entries (unat (u32_from_le cb)) [] b3 = (Inr es, rest)"
    and index: "index = \<lparr>entries = sort_key entry_hash es\<rparr>"
    using assms by (auto simp: PackIndex_parse_def bindE_eq map_err_eq run_atoms split: if_splits)
  from read_entries_sound [OF es] have len: "length es = unat (u32_from_le cb)"
    and b3: "b3 = concat (map entry_bytes es) @ rest"
    by simp_all
  have "length es < 2 ^ 32"
    unfolding len using unsigned_less [of "u32_from_le cb"] by simp
  moreover have "bs = serialize_index es @ rest"
  proof -
    have "bs = INDEX_MAGIC @ b1"
      using magic by (simp only: read_magic_iff)
    with version count b3 show ?thesis
      by (simp add: serialize_index_def len u32_field.read_field_iff)
  qed
  ultimately show ?thesis using index by blast
qed

lemma read_entries_length:
  "read_entries n acc bs = (Inr es, rest) \<Longrightarrow> length es = length acc + n"
  by (induction n arbitrary: acc bs) (auto simp: run_simps bindE_eq map_err_eq)

lemma PackIndex_parse_ok:
  assumes "PackIndex_parse bs = (Inr index, rest)"
  obtains es where "entries index = sort_key entry_hash es"
  using assms unfolding PackIndex_parse_def
  by (auto simp: bindE_eq run_simps split: if_splits)

lemma PackIndex_parse_sorted:
  "PackIndex_parse bs = (Inr index, rest) \<Longrightarrow> sorted (PackIndex_hashes index)"
  by (erule PackIndex_parse_ok) (simp add: PackIndex_hashes_def)

section \<open>The lookup\<close>

lemma PackIndex_find_mem:
  assumes "PackIndex_find index h = Some off"
  shows "\<lparr>entry_hash = h, entry_offset = off\<rparr> \<in> set (entries index)"
proof -
  obtain e where e: "e \<in> set (entries index)" and fields: "entry_hash e = h" "entry_offset e = off"
    using std_search.lookup_member [of entry_offset "entries index" entry_hash h off] assms
    unfolding PackIndex_find_def by blast
  from fields have "e = \<lparr>entry_hash = h, entry_offset = off\<rparr>"
    by (cases e) simp
  with e show ?thesis by simp
qed

lemma PackIndex_find_None:
  "sorted (PackIndex_hashes index) \<Longrightarrow> PackIndex_find index h = None \<longleftrightarrow> h \<notin> set (PackIndex_hashes index)"
  using std_search.search_None_iff [of "PackIndex_hashes index" h]
  by (simp add: PackIndex_find_def PackIndex_hashes_def)

lemma PackIndex_find_absent: "h \<notin> set (PackIndex_hashes index) \<Longrightarrow> PackIndex_find index h = None"
  using std_search.search_absent [of h "PackIndex_hashes index"]
  by (simp add: PackIndex_find_def PackIndex_hashes_def)

lemma PackIndex_find_map_of:
  "sorted (PackIndex_hashes index) \<Longrightarrow> distinct (PackIndex_hashes index) \<Longrightarrow>
     PackIndex_find index h = map_of (map (\<lambda>e. (entry_hash e, entry_offset e)) (entries index)) h"
  unfolding PackIndex_find_def PackIndex_hashes_def by (rule std_search.lookup_map_of)

section \<open>Object records at their offsets\<close>

lemma read_object_bytes:
  assumes "length compressed < 2 ^ 32"
  shows "read_object E h (object_bytes h' data compressed @ rest) =
    ((case decode_payload E compressed of
        Inl e \<Rightarrow> Inl e
      | Inr out \<Rightarrow>
          if hash_bytes E out \<noteq> h then Inl (PackHashMismatch (to_hex h) (to_hex (hash_bytes E out)))
          else Inr out), rest)"
proof -
  have type: "bindE (map_err PackIo (read_exact (Suc 0))) f (TYPE_BLOB # bs) = f [TYPE_BLOB] bs"
    for f :: "bytes \<Rightarrow> (bytes, pack_error, bytes) prog" and bs
    using bind_read_append [of "[TYPE_BLOB]" "Suc 0" PackIo f bs] by simp
  have payload: "bindE (map_err PackIo (read_exact (length compressed))) f (compressed @ rest) =
      f compressed rest" for f :: "bytes \<Rightarrow> (bytes, pack_error, bytes) prog"
    by (simp add: bind_read_append)
  show ?thesis
    using assms
    by (auto simp: read_object_def object_bytes_def type payload run_simps unat_u32_of_nat
        Let_def split: sum.split)
qed

text \<open>Whatever \<open>read_object\<close> returns hashes to the digest it was asked for.\<close>

lemma read_object_hash: "read_object E h bs = (Inr data, rest) \<Longrightarrow> hash_bytes E data = h"
  by (auto simp: read_object_def bindE_eq run_atoms Let_def split: if_splits)

lemma pack_objects_prefix:
  "pack_objects E objects pd ies = Inr (pd', ies') \<Longrightarrow>
     \<exists>more. pd' = pd @ more \<and> (\<exists>news. ies' = ies @ news \<and> map entry_hash news = map fst objects)"
proof (induction E objects pd ies rule: pack_objects.induct)
  case (2 E h data objects pd ies)
  then show ?case
    by (fastforce split: sum.splits)
qed simp

text \<open>Each object is in the index, and at its offset the pack holds its record.\<close>

lemma pack_objects_layout:
  assumes "pack_objects E objects pd ies = Inr (pd', ies')" and "(h, data) \<in> set objects"
  shows "\<exists>off c rest. \<lparr>entry_hash = h, entry_offset = word_of_nat off\<rparr> \<in> set ies' \<and>
    encode_payload E data = Inr c \<and> off \<le> length pd' \<and> drop off pd' = object_bytes h data c @ rest"
  using assms
proof (induction E objects pd ies rule: pack_objects.induct)
  case (2 E g dat objects pd ies)
  from "2.prems"(1) obtain c where c: "encode_payload E dat = Inr c"
    and rest: "pack_objects E objects (pd @ object_bytes g dat c)
      (ies @ [\<lparr>entry_hash = g, entry_offset = word_of_nat (length pd)\<rparr>]) = Inr (pd', ies')"
    by (auto split: sum.splits)
  show ?case
  proof (cases "(h, data) \<in> set objects")
    case True
    with c rest show ?thesis by (intro "2.IH")
  next
    case False
    with "2.prems"(2) have "h = g" "data = dat" by simp_all
    moreover obtain more news where "pd' = (pd @ object_bytes g dat c) @ more"
      and "ies' = (ies @ [\<lparr>entry_hash = g, entry_offset = word_of_nat (length pd)\<rparr>]) @ news"
      using pack_objects_prefix [OF rest] by blast
    ultimately show ?thesis
      using c by (intro exI [of _ "length pd"] exI [of _ c] exI [of _ more]) simp
  qed
qed simp

end
