(* ===== verification/PackFiles.thy ===== *)
theory PackFiles
  imports PackFormat
begin

text \<open>
  The file operations of \<open>src/pack.rs\<close>: loading an index, creating a pack, reading a blob out
  of one, listing the packs of a directory, and the cache of loaded indices (\<open>PackCache\<close>,
  a \<open>HashMap\<close> whose iteration order is the environment's \<open>map_order\<close>).
\<close>

section \<open>Packs\<close>

definition PackIndex_load :: "path \<Rightarrow> ('z disk_scheme, pack_error, pack_index) prog" where
  "PackIndex_load p =
     bindE (map_err PackIo (fs_read p)) (\<lambda>content. liftE (fst (PackIndex_parse content)))"

definition pack_name :: "env \<Rightarrow> bytes \<Rightarrow> string" where
  "pack_name E index_data = ''pack-'' @ to_hex (hash_bytes E index_data)"

text \<open>The end of \<open>PackFile::create\<close>: name the pair after the index, write the pack, then the index.\<close>

definition write_pack_pair ::
  "env \<Rightarrow> path \<Rightarrow> bytes \<Rightarrow> pack_index_entry list \<Rightarrow> ('z disk_scheme, pack_error, path \<times> path) prog" where
  "write_pack_pair E pack_dir pack_data index_entries =
     (let index_data = serialize_index index_entries;
          name = pack_name E index_data;
          pack_path = pack_dir @ [name @ ''.pack''];
          idx_path = pack_dir @ [name @ ''.idx'']
      in
      bindE (map_err PackIo (fs_write pack_path pack_data)) (\<lambda>_.
      bindE (map_err PackIo (fs_write idx_path index_data)) (\<lambda>_.
      returnE (pack_path, idx_path))))"

definition PackFile_create ::
  "env \<Rightarrow> path \<Rightarrow> (hash \<times> bytes) list \<Rightarrow> ('z disk_scheme, pack_error, path \<times> path) prog" where
  "PackFile_create E pack_dir objects =
     (if objects = [] then throwE EmptyPack
      else
      bindE (map_err PackIo (create_dir_all pack_dir)) (\<lambda>_.
      bindE (liftE (pack_objects E objects (pack_header objects) [])) (\<lambda>(pack_data, index_entries).
        write_pack_pair E pack_dir pack_data index_entries)))"

definition PackFile_read_blob ::
  "env \<Rightarrow> path \<Rightarrow> pack_index \<Rightarrow> hash \<Rightarrow> ('z disk_scheme, pack_error, bytes) prog" where
  "PackFile_read_blob E pack_path index h =
     (case PackIndex_find index h of
        None \<Rightarrow> throwE (PackBlobNotFound (to_hex h))
      | Some offset \<Rightarrow>
          bindE (map_err PackIo (fs_read pack_path)) (\<lambda>file.
            liftE (fst (read_object E h (drop (unat offset) file)))))"

definition list_packs :: "path \<Rightarrow> ('z disk_scheme, io_error, path list) prog" where
  "list_packs pack_dir =
     bindE (getsE (\<lambda>d. path_exists d pack_dir)) (\<lambda>there.
       if \<not> there then returnE []
       else
       bindE (read_dir pack_dir) (\<lambda>names.
         returnE (sort (map (\<lambda>(name, n). pack_dir @ [name])
           (filter (\<lambda>(name, n). utf8_valid name \<and> ends_with name ''.pack'') names)))))"

section \<open>The cache of indices\<close>

record pack_cache =
  indices :: "(path \<times> pack_index) list"

definition PackCache_new :: pack_cache where
  "PackCache_new = \<lparr>indices = []\<rparr>"

definition load_one :: "path \<Rightarrow> pack_cache \<Rightarrow> ('z disk_scheme, pack_error, pack_cache) prog" where
  "load_one pack_path cache =
     bindE (getsE (\<lambda>d. path_exists d (with_extension pack_path ''idx''))) (\<lambda>there.
       if there then
         bindE (PackIndex_load (with_extension pack_path ''idx'')) (\<lambda>index.
           returnE (cache\<lparr>indices := AList.update pack_path index (indices cache)\<rparr>))
       else returnE cache)"

definition load_all :: "path \<Rightarrow> ('z disk_scheme, pack_error, pack_cache) prog" where
  "load_all pack_dir =
     bindE (map_err PackIo (list_packs pack_dir)) (\<lambda>pack_files.
       foldE load_one pack_files PackCache_new)"

text \<open>The indices in the order in which the \<open>HashMap\<close> yields them.\<close>

definition cached_indices :: "env \<Rightarrow> pack_cache \<Rightarrow> (path \<times> pack_index) list" where
  "cached_indices E cache =
     List.map_filter (\<lambda>p. map_option (Pair p) (map_of (indices cache) p))
       (map_order E (map fst (indices cache)))"

fun first_hit :: "hash \<Rightarrow> (path \<times> pack_index) list \<Rightarrow> (path \<times> u64) option" where
  "first_hit h [] = None"
| "first_hit h ((pack_path, index) # rest) =
     (case PackIndex_find index h of
        Some offset \<Rightarrow> Some (pack_path, offset)
      | None \<Rightarrow> first_hit h rest)"

definition PackCache_find :: "env \<Rightarrow> pack_cache \<Rightarrow> hash \<Rightarrow> (path \<times> u64) option" where
  "PackCache_find E cache h = first_hit h (cached_indices E cache)"

definition all_hashes :: "env \<Rightarrow> pack_cache \<Rightarrow> hash list" where
  "all_hashes E cache =
     remdups_adj (sort (concat (map (\<lambda>(p, index). PackIndex_hashes index) (cached_indices E cache))))"

definition pack_count :: "pack_cache \<Rightarrow> nat" where
  "pack_count cache = length (indices cache)"

definition object_count :: "env \<Rightarrow> pack_cache \<Rightarrow> nat" where
  "object_count E cache = sum_list (map (\<lambda>(p, index). PackIndex_len index) (cached_indices E cache))"

section \<open>Names and paths of packs\<close>

lemma file_stem_dot:
  assumes "s \<noteq> []" and "CHR ''.'' \<notin> set ext"
  shows "file_stem (s @ ''.'' @ ext) = s"
proof -
  have "takeWhile (\<lambda>c. c \<noteq> CHR ''.'') (rev (s @ ''.'' @ ext)) = rev ext"
    using assms(2) by (simp add: takeWhile_append2 takeWhile_append)
  then show ?thesis
    using assms(1) by (simp add: file_stem_def Let_def)
qed

lemma pack_to_idx:
  "s \<noteq> [] \<Longrightarrow> with_extension (dir @ [s @ ''.pack'']) ''idx'' = dir @ [s @ ''.idx'']"
  using file_stem_dot [of s "''pack''"] by (simp add: with_extension_def)

lemma idx_to_pack:
  "s \<noteq> [] \<Longrightarrow> with_extension (dir @ [s @ ''.idx'']) ''pack'' = dir @ [s @ ''.pack'']"
  using file_stem_dot [of s "''idx''"] by (simp add: with_extension_def)

lemma pack_name_nonempty [simp]: "pack_name E x \<noteq> []"
  by (simp add: pack_name_def)

lemma of_char_HEX_CHARS: "c \<in> set HEX_CHARS \<Longrightarrow> of_char c < (128 :: nat)"
  unfolding HEX_CHARS_def by auto

lemma utf8_valid_pack_name: "utf8_valid (pack_name E x @ ''.pack'')"
proof (rule utf8_valid_ascii, rule ballI)
  fix c
  assume "c \<in> set (pack_name E x @ ''.pack'')"
  then have "c \<in> set HEX_CHARS \<or> c \<in> set ''pack-.pack''"
    using set_to_hex by (auto simp: pack_name_def)
  then show "of_char c < (128 :: nat)"
    by (auto simp: of_char_HEX_CHARS)
qed

section \<open>What loading and reading return\<close>

definition index_at :: "'z disk_scheme \<Rightarrow> path \<Rightarrow> pack_error + pack_index" where
  "index_at d p = fst (PackIndex_load p d)"

definition blob_in_pack :: "env \<Rightarrow> 'z disk_scheme \<Rightarrow> path \<Rightarrow> pack_index \<Rightarrow> hash \<Rightarrow> pack_error + bytes" where
  "blob_in_pack E d p index h = fst (PackFile_read_blob E p index h d)"

lemma reads_PackIndex_load [hoare]: "reads (PackIndex_load p)"
  unfolding PackIndex_load_def by (intro hoare)

lemma reads_PackFile_read_blob [hoare]: "reads (PackFile_read_blob E p index h)"
  unfolding PackFile_read_blob_def by (auto intro!: hoare split: option.split)

lemma PackIndex_load_eq: "PackIndex_load p d = (index_at d p, d)"
  unfolding index_at_def by (metis prod.collapse reads_PackIndex_load readsD)

lemma PackFile_read_blob_eq: "PackFile_read_blob E p index h d = (blob_in_pack E d p index h, d)"
  unfolding blob_in_pack_def by (metis prod.collapse reads_PackFile_read_blob readsD)

lemma index_at_ok:
  "index_at d p = Inr index \<longleftrightarrow>
     (\<exists>b. node_at d p = Some (File b) \<and> fst (PackIndex_parse b) = Inr index)"
  by (auto simp: index_at_def PackIndex_load_def bindE_def map_err_def fs_read_def run_simps
      split: option.splits node.splits)

lemma index_at_sorted: "index_at d p = Inr index \<Longrightarrow> sorted (PackIndex_hashes index)"
  by (metis PackIndex_parse_sorted index_at_ok prod.collapse)

lemma blob_in_pack_ok:
  "blob_in_pack E d p index h = Inr data \<longleftrightarrow>
     (\<exists>off b. PackIndex_find index h = Some off \<and> node_at d p = Some (File b) \<and>
        fst (read_object E h (drop (unat off) b)) = Inr data)"
  by (auto simp: blob_in_pack_def PackFile_read_blob_def bindE_def map_err_def fs_read_def run_simps
      split: option.splits node.splits)

lemma blob_in_pack_hash: "blob_in_pack E d p index h = Inr data \<Longrightarrow> hash_bytes E data = h"
  unfolding blob_in_pack_ok by (metis prod.collapse read_object_hash)

text \<open>A pack of the disk serves a blob: its index loads, and reading the blob through it succeeds.\<close>

definition pack_serves :: "env \<Rightarrow> 'z disk_scheme \<Rightarrow> path \<Rightarrow> hash \<Rightarrow> bytes \<Rightarrow> bool" where
  "pack_serves E d p h data \<longleftrightarrow>
     (\<exists>index. index_at d (with_extension p ''idx'') = Inr index \<and>
        blob_in_pack E d p index h = Inr data)"

lemma pack_serves_cong:
  assumes "node_at t p = node_at d p"
    and "node_at t (with_extension p ''idx'') = node_at d (with_extension p ''idx'')"
  shows "pack_serves E t p h data \<longleftrightarrow> pack_serves E d p h data"
  by (simp add: pack_serves_def index_at_ok blob_in_pack_ok assms)

lemma pack_serves_hash: "pack_serves E d p h data \<Longrightarrow> hash_bytes E data = h"
  unfolding pack_serves_def by (auto dest: blob_in_pack_hash)

section \<open>Creating a pack\<close>

text \<open>
  The objects fit the format as a whole: no digest comes twice, and neither their number nor an
  offset overflows its field.
\<close>

definition indexable :: "env \<Rightarrow> (hash \<times> bytes) list \<Rightarrow> bool" where
  "indexable E objects \<longleftrightarrow>
     distinct (map fst objects) \<and> length objects < 2 ^ 32 \<and>
     (\<forall>pd ies. pack_objects E objects (pack_header objects) [] = Inr (pd, ies) \<longrightarrow>
        length pd < 2 ^ 64)"

text \<open>The length of the payload of one object fits its field of 32 bits.\<close>

definition payload_fits :: "env \<Rightarrow> bytes \<Rightarrow> bool" where
  "payload_fits E data \<longleftrightarrow> (\<forall>c. encode_payload E data = Inr c \<longrightarrow> length c < 2 ^ 32)"

text \<open>
  What a pack can give back: with zstd a packed object is compressed, whatever the store does with
  loose files, and decompression stops at \<open>MAX_DECOMPRESSED_SIZE\<close>.
\<close>

definition unpackable :: "env \<Rightarrow> bytes \<Rightarrow> bool" where
  "unpackable E data \<longleftrightarrow>
     payload_fits E data \<and> (feature_zstd E \<longrightarrow> length data \<le> MAX_DECOMPRESSED_SIZE)"

definition packable :: "env \<Rightarrow> (hash \<times> bytes) list \<Rightarrow> bool" where
  "packable E objects \<longleftrightarrow>
     indexable E objects \<and> (\<forall>(h, data) \<in> set objects. hash_bytes E data = h \<and> unpackable E data)"

lemmas packable_simps = packable_def indexable_def unpackable_def payload_fits_def

lemma decode_encode_payload:
  assumes "feature_zstd E \<Longrightarrow> zstd_lossless E"
    and "feature_zstd E \<Longrightarrow> length data \<le> MAX_DECOMPRESSED_SIZE"
    and "encode_payload E data = Inr c"
  shows "decode_payload E c = Inr data"
  using assms decompress_compress [of E data DEFAULT_COMPRESSION_LEVEL c]
  by (auto simp: encode_payload_def decode_payload_def compress_default_def
      split: if_splits sum.splits)

lemma decode_encode_too_large:
  assumes "feature_zstd E" and "zstd_lossless E" and "MAX_DECOMPRESSED_SIZE < length data"
    and "encode_payload E data = Inr c"
  shows "\<exists>e. decode_payload E c = Inl e"
  using assms decompress_compress [of E data DEFAULT_COMPRESSION_LEVEL c]
  by (auto simp: encode_payload_def decode_payload_def compress_default_def split: sum.splits)

text \<open>
  The pair of files that \<open>create\<close> writes, as byte strings: the index leads to each object, and
  reading it decodes its payload.
\<close>

lemma pack_files_read:
  assumes fits: "indexable E objects"
    and image: "pack_objects E objects (pack_header objects) [] = Inr (pd, ies)"
    and obj: "(h, data) \<in> set objects" and hash: "hash_bytes E data = h" and size: "payload_fits E data"
    and pack: "node_at d p = Some (File pd)"
    and idx: "node_at d (with_extension p ''idx'') = Some (File (serialize_index ies))"
  obtains c where "encode_payload E data = Inr c"
    and "\<And>out. pack_serves E d p h out \<longleftrightarrow> decode_payload E c = Inr out \<and> hash_bytes E out = h"
proof -
  let ?index = "\<lparr>entries = sort_key entry_hash ies\<rparr>"
  obtain news where "ies = [] @ news" and keys: "map entry_hash ies = map fst objects"
    using pack_objects_prefix [OF image] by auto
  have small: "length ies < 2 ^ 32"
    using fits keys by (metis length_map indexable_def)
  have parsed: "PackIndex_parse (serialize_index ies) = (Inr ?index, [])"
    using PackIndex_parse_serialize [OF small, of "[]"] by simp
  obtain off c rest where entry: "\<lparr>entry_hash = h, entry_offset = word_of_nat off\<rparr> \<in> set ies"
    and c: "encode_payload E data = Inr c" and off: "off \<le> length pd"
    and recd: "drop off pd = object_bytes h data c @ rest"
    using pack_objects_layout [OF image obj] by blast
  have pd: "length pd < 2 ^ 64" and c32: "length c < 2 ^ 32"
    using fits image size c by (auto simp: indexable_def payload_fits_def)
  have distinct: "distinct (PackIndex_hashes ?index)"
  proof -
    have "distinct (map entry_hash ies)"
      using fits keys by (simp add: indexable_def)
    then show ?thesis
      by (metis PackIndex_hashes_def mset_eq_imp_distinct_iff mset_map mset_sort
          pack_index.select_convs(1))
  qed
  have "PackIndex_find ?index h = map_of (map (\<lambda>e. (entry_hash e, entry_offset e)) (entries ?index)) h"
    using distinct by (intro PackIndex_find_map_of) (simp_all add: PackIndex_hashes_def)
  also have "\<dots> = Some (word_of_nat off)"
    using distinct entry by (intro map_of_is_SomeI) (force simp: PackIndex_hashes_def comp_def)+
  finally have find: "PackIndex_find ?index h = Some (word_of_nat off)" .
  have "unat (word_of_nat off :: u64) = off"
    using off pd by (intro unat_u64_of_nat) simp
  then have "blob_in_pack E d p ?index h = Inr out \<longleftrightarrow> decode_payload E c = Inr out \<and> hash_bytes E out = h" for out
    unfolding blob_in_pack_ok
    using find pack recd read_object_bytes [OF c32, of E h h data rest] by (auto split: sum.splits)
  moreover have "index_at d (with_extension p ''idx'') = Inr ?index"
    unfolding index_at_ok using idx parsed by simp
  ultimately show thesis
    by (intro that [OF c]) (simp add: pack_serves_def)
qed

lemma pack_files_serve_one:
  assumes "feature_zstd E \<Longrightarrow> zstd_lossless E" and "indexable E objects"
    and "pack_objects E objects (pack_header objects) [] = Inr (pd, ies)"
    and "(h, data) \<in> set objects" and hash: "hash_bytes E data = h" and size: "unpackable E data"
    and "node_at d p = Some (File pd)"
    and "node_at d (with_extension p ''idx'') = Some (File (serialize_index ies))"
  shows "pack_serves E d p h data"
proof -
  have "payload_fits E data" and max: "feature_zstd E \<Longrightarrow> length data \<le> MAX_DECOMPRESSED_SIZE"
    using size by (simp_all add: unpackable_def)
  then obtain c where "encode_payload E data = Inr c"
    and "pack_serves E d p h data \<longleftrightarrow> decode_payload E c = Inr data \<and> hash_bytes E data = h"
    using pack_files_read [OF assms(2-4) hash _ assms(7,8)] by metis
  then show ?thesis
    using decode_encode_payload [OF assms(1) max] hash by blast
qed

lemma pack_files_serve:
  assumes "feature_zstd E \<Longrightarrow> zstd_lossless E" and "packable E objects"
    and "pack_objects E objects (pack_header objects) [] = Inr (pd, ies)"
    and "(h, data) \<in> set objects"
    and "node_at d p = Some (File pd)"
    and "node_at d (with_extension p ''idx'') = Some (File (serialize_index ies))"
  shows "pack_serves E d p h data"
  using assms(2,4) pack_files_serve_one [OF assms(1) _ assms(3,4) _ _ assms(5,6)]
  by (auto simp: packable_def)

text \<open>A pack does not give back what is beyond the limit of decompression.\<close>

lemma pack_files_too_large:
  assumes zstd: "feature_zstd E" "zstd_lossless E" and "indexable E objects"
    and "pack_objects E objects (pack_header objects) [] = Inr (pd, ies)"
    and "(h, data) \<in> set objects" and hash: "hash_bytes E data = h" and size: "payload_fits E data"
    and large: "MAX_DECOMPRESSED_SIZE < length data"
    and "node_at d p = Some (File pd)"
    and "node_at d (with_extension p ''idx'') = Some (File (serialize_index ies))"
  shows "\<not> pack_serves E d p h out"
proof -
  obtain c where "encode_payload E data = Inr c"
    and "pack_serves E d p h out \<longleftrightarrow> decode_payload E c = Inr out \<and> hash_bytes E out = h"
    using pack_files_read [OF assms(3-5) hash size assms(9,10)] by metis
  then show ?thesis
    using decode_encode_too_large [OF zstd large] by auto
qed

text \<open>The two files that \<open>create\<close> writes for these objects.\<close>

definition pair_paths :: "env \<Rightarrow> path \<Rightarrow> pack_index_entry list \<Rightarrow> path list" where
  "pair_paths E dir ies =
     [dir @ [pack_name E (serialize_index ies) @ ''.pack''],
      dir @ [pack_name E (serialize_index ies) @ ''.idx'']]"

definition new_pack_paths :: "env \<Rightarrow> path \<Rightarrow> (hash \<times> bytes) list \<Rightarrow> path list" where
  "new_pack_paths E dir objects =
     (case pack_objects E objects (pack_header objects) [] of
        Inl e \<Rightarrow> []
      | Inr (pd, ies) \<Rightarrow> pair_paths E dir ies)"

lemma confined_write_pack_pair:
  "set (pair_paths E dir ies) \<subseteq> S \<Longrightarrow> confined S (write_pack_pair E dir pd ies)"
  unfolding write_pack_pair_def Let_def pair_paths_def
  by (intro hoare ) simp_all

lemma PackFile_create_cases:
  assumes "PackFile_create E dir objects d = (r, t)"
  obtains (empty) "objects = []" "r = Inl EmptyPack" "t = d"
  | (stopped) e where "objects \<noteq> []" "r = Inl e" "same_files {} d t"
  | (wrote) pd ies u where "objects \<noteq> []" "same_files {} d u" "node_at u dir = Some Dir"
      "pack_objects E objects (pack_header objects) [] = Inr (pd, ies)"
      "write_pack_pair E dir pd ies u = (r, t)"
proof (cases "objects = []")
  case True
  with assms show thesis
    by (intro empty) (simp_all add: PackFile_create_def run_simps)
next
  case False
  obtain q u where dirs: "create_dir_all dir d = (q, u)"
    by (cases "create_dir_all dir d")
  have u: "same_files {} d u"
    by (rule upholdsD [OF confined_create_dir_all dirs])
  show thesis
  proof (cases q)
    case (Inl e)
    with False assms dirs u show thesis
      by (intro stopped) (auto simp: PackFile_create_def bindE_def map_err_def)
  next
    case (Inr x)
    have dir: "node_at u dir = Some Dir"
      using dirs Inr create_dir_all_ok by metis
    show thesis
    proof (cases "pack_objects E objects (pack_header objects) []")
      case Inl: (Inl e)
      with False assms dirs Inr u show thesis
        by (intro stopped) (auto simp: PackFile_create_def bindE_def map_err_def run_simps)
    next
      case Inr': (Inr out)
      with False assms dirs Inr u dir show thesis
        by (intro wrote [of u "fst out" "snd out"])
          (auto simp: PackFile_create_def bindE_def map_err_def run_simps split: prod.splits)
    qed
  qed
qed

lemma confined_PackFile_create [hoare]:
  assumes "set (new_pack_paths E dir objects) \<subseteq> S"
  shows "confined S (PackFile_create E dir objects)"
proof (rule upholdsI)
  fix d :: "'z disk_scheme" and r t
  assume "PackFile_create E dir objects d = (r, t)"
  then show "same_files S d t"
  proof (cases rule: PackFile_create_cases)
    case (wrote pd ies u)
    then have "same_files S u t"
      using assms by (intro upholdsD [OF confined_write_pack_pair]) (auto simp: new_pack_paths_def)
    with wrote(2) show ?thesis
      by (meson same_files_mono same_files_trans empty_subsetI)
  qed (auto intro: same_files_mono)
qed

text \<open>A successful \<open>create\<close> leaves the complete pair.\<close>

lemma write_pack_pair_ok:
  assumes "write_pack_pair E dir pd ies d = (Inr (p, i), t)"
  shows "p = dir @ [pack_name E (serialize_index ies) @ ''.pack'']"
    and "i = with_extension p ''idx''"
    and "node_at t p = Some (File pd)"
    and "node_at t i = Some (File (serialize_index ies))"
proof -
  let ?n = "pack_name E (serialize_index ies)"
  obtain u v where w1: "fs_write (dir @ [?n @ ''.pack'']) pd d = (Inr u, v)"
    and w2: "fs_write (dir @ [?n @ ''.idx'']) (serialize_index ies) v = (Inr (), t)"
    and pi: "p = dir @ [?n @ ''.pack'']" "i = dir @ [?n @ ''.idx'']"
    using assms by (auto simp: write_pack_pair_def Let_def bindE_eq map_err_eq run_atoms)
  show "p = dir @ [?n @ ''.pack'']" by (rule pi(1))
  show "i = with_extension p ''idx''"
    by (simp add: pi pack_to_idx)
  show "node_at t i = Some (File (serialize_index ies))"
    using fs_write_ok [OF w2] by (simp add: pi)
  have "node_at t p = node_at v p"
    using touches_at [OF fs_write_touches [OF w2]] by (simp add: pi)
  then show "node_at t p = Some (File pd)"
    using fs_write_ok [OF w1] by (simp add: pi)
qed

lemma PackFile_create_ok:
  assumes "PackFile_create E dir objects d = (Inr (p, i), t)"
  obtains pd ies where "pack_objects E objects (pack_header objects) [] = Inr (pd, ies)"
    and "p = dir @ [pack_name E (serialize_index ies) @ ''.pack'']"
    and "i = with_extension p ''idx''"
    and "node_at t p = Some (File pd)" and "node_at t i = Some (File (serialize_index ies))"
  using assms
proof (cases rule: PackFile_create_cases)
  case (wrote pd ies u)
  with that show thesis
    using write_pack_pair_ok [OF wrote(5)] by blast
qed simp_all

end
