(* ===== verification/PackCacheFacts.thy ===== *)
theory PackCacheFacts
  imports PackFiles
begin

text \<open>
  What listing the packs of a directory, loading all their indices and looking a digest up
  in the loaded indices return.
\<close>

section \<open>Listing\<close>

definition packs_at :: "'z disk_scheme \<Rightarrow> path \<Rightarrow> io_error + path list" where
  "packs_at d dir = fst (list_packs dir d)"

lemma reads_list_packs [hoare]: "reads (list_packs dir)"
  unfolding list_packs_def by (intro hoare)

lemma list_packs_eq: "list_packs dir d = (packs_at d dir, d)"
  unfolding packs_at_def by (metis prod.collapse reads_list_packs readsD)

lemma packs_at_cases:
  "packs_at d dir =
    (case node_at d dir of
       None \<Rightarrow> Inr []
     | Some (File b) \<Rightarrow> Inl NotADirectory
     | Some Dir \<Rightarrow> Inr (sort (map (\<lambda>(name, n). dir @ [name])
         (filter (\<lambda>(name, n). utf8_valid name \<and> ends_with name ''.pack'') (children d dir)))))"
  by (simp add: packs_at_def list_packs_def run_simps path_exists_def bindE_def read_dir_def
      split: option.split node.split)

text \<open>A name that \<open>list_packs\<close> takes.\<close>

definition is_pack_name :: "string \<Rightarrow> bool" where
  "is_pack_name name \<longleftrightarrow> utf8_valid name \<and> ends_with name ''.pack''"

lemma mem_packs_at:
  assumes "wf_disk d" and "packs_at d dir = Inr ps"
  shows "p \<in> set ps \<longleftrightarrow>
    node_at d dir = Some Dir \<and> (\<exists>name. p = dir @ [name] \<and> is_pack_name name \<and> path_exists d p)"
proof (cases "node_at d dir")
  case None
  with assms(2) show ?thesis by (simp add: packs_at_cases)
next
  case (Some n)
  with assms(2) have n: "n = Dir"
    and ps: "ps = sort (map (\<lambda>(name, n). dir @ [name])
      (filter (\<lambda>(name, n). utf8_valid name \<and> ends_with name ''.pack'') (children d dir)))"
    by (auto simp: packs_at_cases split: node.splits)
  have "p \<in> set ps \<longleftrightarrow> (\<exists>name m. p = dir @ [name] \<and> is_pack_name name \<and> (name, m) \<in> set (children d dir))"
    unfolding ps is_pack_name_def by force
  also have "\<dots> \<longleftrightarrow> (\<exists>name. p = dir @ [name] \<and> is_pack_name name \<and> path_exists d p)"
    using assms(1) by (auto simp: mem_children path_exists_def)
  finally show ?thesis using Some n by simp
qed

lemma sorted_packs_at: "packs_at d dir = Inr ps \<Longrightarrow> sorted ps"
  by (auto simp: packs_at_cases split: option.splits node.splits)

lemma distinct_children_names:
  assumes "wf_disk d"
  shows "distinct (map fst (children d dir))"
proof -
  let ?xs = "filter (\<lambda>(q, n). q \<noteq> [] \<and> butlast q = dir) (nodes d)"
  have "distinct (map fst ?xs)"
    using assms unfolding wf_disk_def by (rule distinct_map_filter)
  moreover have "inj_on last (set (map fst ?xs))"
    by (rule inj_onI) (auto, metis append_butlast_last_id)
  ultimately have "distinct (map last (map fst ?xs))"
    by (simp only: distinct_map)
  then show ?thesis
    by (simp add: children_def comp_def case_prod_beta)
qed

lemma distinct_packs_at:
  assumes "wf_disk d" and "packs_at d dir = Inr ps"
  shows "distinct ps"
proof -
  have "distinct (map fst (filter P (children d dir)))" for P
    using distinct_children_names [OF assms(1)] by (rule distinct_map_filter)
  then have "distinct (map (\<lambda>name. dir @ [name]) (map fst (filter P (children d dir))))" for P
    by (subst distinct_map) (auto intro: inj_onI)
  then have "distinct (map (\<lambda>(name, n). dir @ [name]) (filter P (children d dir)))" for P
    by (simp add: comp_def case_prod_unfold)
  with assms(2) show ?thesis
    by (auto simp: packs_at_cases split: option.splits node.splits)
qed

section \<open>Loading\<close>

definition has_idx :: "'z disk_scheme \<Rightarrow> path \<Rightarrow> bool" where
  "has_idx d p \<longleftrightarrow> path_exists d (with_extension p ''idx'')"

definition idx_of :: "'z disk_scheme \<Rightarrow> path \<Rightarrow> pack_error + pack_index" where
  "idx_of d p = index_at d (with_extension p ''idx'')"

lemma reads_load_one [hoare]: "reads (load_one p cache)"
  unfolding load_one_def by (intro hoare)

lemma reads_load_all [hoare]: "reads (load_all dir)"
  unfolding load_all_def by (intro hoare)

definition caches :: "'z disk_scheme \<Rightarrow> path list \<Rightarrow> pack_cache \<Rightarrow> bool" where
  "caches d ps cache \<longleftrightarrow>
     distinct (map fst (indices cache)) \<and>
     (\<forall>p index. map_of (indices cache) p = Some index \<longleftrightarrow>
        p \<in> set ps \<and> has_idx d p \<and> idx_of d p = Inr index)"

lemma load_one_triple:
  "triple (\<lambda>s. s = d \<and> caches d pre cache \<and> (\<forall>p \<in> set pre. has_idx d p \<longrightarrow> (\<exists>index. idx_of d p = Inr index)))
     (load_one x cache)
     (\<lambda>cache' s. s = d \<and> caches d (pre @ [x]) cache' \<and>
        (\<forall>p \<in> set (pre @ [x]). has_idx d p \<longrightarrow> (\<exists>index. idx_of d p = Inr index)))
     (\<lambda>e s. has_idx d x \<and> idx_of d x = Inl e)"
proof (rule tripleI, goal_cases)
  case (1 s cache' t)
  then show ?case
    by (auto simp: load_one_def run_atoms bindE_eq PackIndex_load_eq caches_def update_conv'
        distinct_update has_idx_def idx_of_def split: if_splits)
next
  case (2 s e t)
  then show ?case
    by (auto simp: load_one_def run_atoms bindE_eq PackIndex_load_eq has_idx_def idx_of_def
        split: if_splits)
qed

text \<open>
  \<open>load_all\<close> is all or nothing: it returns the indices of exactly the packs that have one, and
  one index that does not load makes it fail for the whole directory.
\<close>

lemma load_all_triple:
  assumes "packs_at d dir = Inr ps"
  shows "triple (\<lambda>s. s = d) (load_all dir)
    (\<lambda>cache s. s = d \<and> caches d ps cache \<and> (\<forall>p \<in> set ps. has_idx d p \<longrightarrow> (\<exists>index. idx_of d p = Inr index)))
    (\<lambda>e s. \<exists>p \<in> set ps. has_idx d p \<and> idx_of d p = Inl e)"
proof -
  let ?I = "\<lambda>pre cache s. s = d \<and> caches d pre cache \<and>
    (\<forall>p \<in> set pre. has_idx d p \<longrightarrow> (\<exists>index. idx_of d p = Inr index))"
  let ?R = "\<lambda>e s. \<exists>p \<in> set ps. has_idx d p \<and> idx_of d p = Inl e"
  have loop: "triple (?I [] PackCache_new) (foldE load_one ps PackCache_new) (?I ps) ?R"
  proof (rule triple_foldE, goal_cases)
    case (1 pre x post cache)
    then show ?case
      by (intro triple_weaken [OF load_one_triple [of d pre cache x]]) auto
  qed
  have init: "?I [] PackCache_new d"
    by (simp add: caches_def PackCache_new_def)
  show ?thesis
    unfolding load_all_def
  proof (rule triple_bind)
    show "triple (\<lambda>s. s = d) (map_err PackIo (list_packs dir)) (\<lambda>xs s. s = d \<and> xs = ps) ?R"
      using assms by (auto simp: triple_def map_err_eq list_packs_eq)
    show "triple (\<lambda>s. s = d \<and> xs = ps) (foldE load_one xs PackCache_new) (?I ps) ?R" for xs
      using loop init by (auto simp: triple_def)
  qed
qed

lemma load_all_ok:
  assumes "load_all dir d = (Inr cache, t)"
  obtains ps where "packs_at d dir = Inr ps" and "caches d ps cache"
    and "\<forall>p \<in> set ps. has_idx d p \<longrightarrow> (\<exists>index. idx_of d p = Inr index)"
proof -
  obtain ps where ps: "packs_at d dir = Inr ps"
    using assms by (auto simp: load_all_def bindE_eq map_err_eq list_packs_eq)
  from triple_ok [OF load_all_triple [OF ps] refl assms] that [OF ps] show thesis
    by blast
qed

lemma load_all_succeeds:
  assumes "packs_at d dir = Inr ps"
    and "\<forall>p \<in> set ps. has_idx d p \<longrightarrow> (\<exists>index. idx_of d p = Inr index)"
  obtains cache where "load_all dir d = (Inr cache, d)" and "caches d ps cache"
proof -
  obtain r t where run: "load_all dir d = (r, t)"
    by (cases "load_all dir d")
  have t: "t = d"
    using reads_load_all run by (rule readsD)
  show thesis
  proof (cases r)
    case (Inl e)
    with triple_err [OF load_all_triple [OF assms(1)] refl] run assms(2) show thesis
      by fastforce
  next
    case (Inr cache)
    with triple_ok [OF load_all_triple [OF assms(1)] refl] run t that show thesis
      by blast
  qed
qed

lemma load_all_fails:
  assumes "packs_at d dir = Inr ps" and "p \<in> set ps" and "has_idx d p" and "idx_of d p = Inl e"
  obtains e' where "load_all dir d = (Inl e', d)"
proof -
  obtain r t where run: "load_all dir d = (r, t)"
    by (cases "load_all dir d")
  have t: "t = d"
    using reads_load_all run by (rule readsD)
  show thesis
  proof (cases r)
    case (Inl e')
    with run t that show thesis by blast
  next
    case (Inr cache)
    with triple_ok [OF load_all_triple [OF assms(1)] refl] run assms show thesis
      by fastforce
  qed
qed

section \<open>Lookup\<close>

lemma set_cached_indices:
  assumes "map_order_ok E"
  shows "set (cached_indices E cache) = {(p, index). map_of (indices cache) p = Some index}"
proof -
  have "set (map_order E (map fst (indices cache))) = set (map fst (indices cache))"
    using assms unfolding map_order_ok_def by (metis set_mset_mset)
  moreover have "map_of (indices cache) p = Some index \<Longrightarrow> p \<in> set (map fst (indices cache))" for p index
    by (drule map_of_SomeD) (auto simp: image_iff intro: bexI [of _ "(p, index)"])
  ultimately show ?thesis
    unfolding cached_indices_def set_List_map_filter
    by (auto intro: bexI [OF _ map_of_SomeD])
qed

lemma first_hit_Some:
  "first_hit h xs = Some (p, off) \<Longrightarrow> \<exists>index. (p, index) \<in> set xs \<and> PackIndex_find index h = Some off"
  by (induction h xs rule: first_hit.induct) (auto split: option.splits)

lemma first_hit_None:
  "first_hit h xs = None \<longleftrightarrow> (\<forall>(p, index) \<in> set xs. PackIndex_find index h = None)"
  by (induction h xs rule: first_hit.induct) (auto split: option.splits)

lemma PackCache_find_Some:
  assumes "map_order_ok E" and "PackCache_find E cache h = Some (p, off)"
  obtains index where "map_of (indices cache) p = Some index" and "PackIndex_find index h = Some off"
  using first_hit_Some [of h "cached_indices E cache" p off] assms
  by (auto simp: PackCache_find_def set_cached_indices)

lemma PackCache_find_None:
  assumes "map_order_ok E"
  shows "PackCache_find E cache h = None \<longleftrightarrow>
    (\<forall>p index. map_of (indices cache) p = Some index \<longrightarrow> PackIndex_find index h = None)"
  by (auto simp: PackCache_find_def first_hit_None set_cached_indices [OF assms])

lemma set_all_hashes:
  assumes "map_order_ok E"
  shows "h \<in> set (all_hashes E cache) \<longleftrightarrow>
    (\<exists>p index. map_of (indices cache) p = Some index \<and> h \<in> set (PackIndex_hashes index))"
  unfolding all_hashes_def by (force simp: set_cached_indices [OF assms])

lemma sorted_all_hashes: "sorted (all_hashes E cache)"
  by (simp add: all_hashes_def)

lemma distinct_all_hashes: "distinct (all_hashes E cache)"
  by (simp add: all_hashes_def distinct_remdups_adj_sorted)

end
