(* ===== verification/Store.thy ===== *)
theory Store
  imports PackCacheFacts
begin

text \<open>
  The blob store of \<open>src/store.rs\<close>. A \<open>BlobStore\<close> is a record with the fields of the source; the
  three mutex-protected caches are part of it, each with its poison flag, and the state of a
  method is the disk together with the store (\<open>world\<close>), so that a method taking \<open>&self\<close>
  changes the caches by returning them in the state.
\<close>

section \<open>State\<close>

datatype 'a mutex = Mutex (poisoned: bool) (guarded: 'a)

record blob_store =
  root :: path
  compress :: bool
  compression_level :: int
  verify_on_read :: bool
  store_packs :: "pack_cache option mutex"
  blob_cache :: "(hash \<times> bytes) list mutex"
  known_dirs :: "path set mutex"

record world = disk +
  self :: blob_store

type_synonym 'a store_prog = "(world, cas_error, 'a) prog"

definition BLOB_CACHE_CAPACITY :: nat where
  "BLOB_CACHE_CAPACITY = 1024"

text \<open>\<open>Mutex::lock\<close> with its poison error turned into \<open>LockPoisoned\<close>; \<open>store_guard\<close> writes back.\<close>

definition poison_text :: string where
  "poison_text = ''poisoned lock: another task failed inside''"

definition lock :: "(blob_store \<Rightarrow> 'a mutex) \<Rightarrow> 'a store_prog" where
  "lock field =
     bindE (getsE (\<lambda>s. field (self s))) (\<lambda>m.
       if poisoned m then throwE (LockPoisoned poison_text) else returnE (guarded m))"

definition set_store_packs :: "pack_cache option \<Rightarrow> (world, 'e, unit) prog" where
  "set_store_packs c =
     modifyE (\<lambda>s. s\<lparr>self := (self s)\<lparr>store_packs := Mutex (poisoned (store_packs (self s))) c\<rparr>\<rparr>)"

definition set_blob_cache :: "(hash \<times> bytes) list \<Rightarrow> (world, 'e, unit) prog" where
  "set_blob_cache c =
     modifyE (\<lambda>s. s\<lparr>self := (self s)\<lparr>blob_cache := Mutex (poisoned (blob_cache (self s))) c\<rparr>\<rparr>)"

definition set_known_dirs :: "path set \<Rightarrow> (world, 'e, unit) prog" where
  "set_known_dirs c =
     modifyE (\<lambda>s. s\<lparr>self := (self s)\<lparr>known_dirs := Mutex (poisoned (known_dirs (self s))) c\<rparr>\<rparr>)"

section \<open>Opening a store\<close>

definition BlobStore_new :: "path \<Rightarrow> ('z disk_scheme, cas_error, blob_store) prog" where
  "BlobStore_new r =
     bindE (map_err Io (create_dir_all (r @ [''objects'']))) (\<lambda>_.
       returnE \<lparr>root = r, compress = True, compression_level = DEFAULT_COMPRESSION_LEVEL,
         verify_on_read = True, store_packs = Mutex False None, blob_cache = Mutex False [],
         known_dirs = Mutex False {}\<rparr>)"

text \<open>\<open>tempfile::tempdir\<close> is a third-party crate: its result is the argument.\<close>

definition open_in_memory :: "io_error + path \<Rightarrow> ('z disk_scheme, cas_error, path \<times> blob_store) prog" where
  "open_in_memory tempdir =
     bindE (map_err Io (liftE tempdir)) (\<lambda>r.
     bindE (map_err Io (create_dir_all (r @ [''objects'']))) (\<lambda>_.
       returnE (r, \<lparr>root = r, compress = True, compression_level = DEFAULT_COMPRESSION_LEVEL,
         verify_on_read = True, store_packs = Mutex False None, blob_cache = Mutex False [],
         known_dirs = Mutex False {}\<rparr>)))"

definition new_uncompressed :: "path \<Rightarrow> ('z disk_scheme, cas_error, blob_store) prog" where
  "new_uncompressed r = bindE (BlobStore_new r) (\<lambda>store. returnE (store\<lparr>compress := False\<rparr>))"

definition set_verify_on_read :: "bool \<Rightarrow> blob_store \<Rightarrow> blob_store" where
  "set_verify_on_read verify st = st\<lparr>verify_on_read := verify\<rparr>"

section \<open>Paths\<close>

definition objects_dir :: "blob_store \<Rightarrow> path" where
  "objects_dir st = root st @ [''objects'']"

definition pack_dir :: "blob_store \<Rightarrow> path" where
  "pack_dir st = root st @ [''objects'', ''pack'']"

definition blob_path :: "blob_store \<Rightarrow> hash \<Rightarrow> path" where
  "blob_path st h =
     (let hex = to_hex h in root st @ [''objects'', take 2 hex, drop 2 hex])"

section \<open>Writing\<close>

definition ensure_parent_dir :: "path \<Rightarrow> unit store_prog" where
  "ensure_parent_dir parent =
     bindE (lock known_dirs) (\<lambda>known.
       if parent \<in> known then returnE ()
       else
       bindE (map_err Io (create_dir_all parent)) (\<lambda>_.
       bindE (lock known_dirs) (\<lambda>known'. set_known_dirs (insert parent known'))))"

text \<open>The common tail of the three \<open>put\<close> functions, in both builds.\<close>

definition write_blob :: "env \<Rightarrow> path \<Rightarrow> bytes \<Rightarrow> unit store_prog" where
  "write_blob E p data =
     bindE (getsE self) (\<lambda>st.
       if feature_zstd E \<and> compress st then
         bindE (liftE (zstd_compress E data (compression_level st))) (\<lambda>compressed.
           map_err Io (fs_write p compressed))
       else map_err Io (fs_write p data))"

definition put_blob :: "env \<Rightarrow> bytes \<Rightarrow> hash store_prog" where
  "put_blob E data =
     (let h = hash_bytes E data in
      bindE (getsE (\<lambda>s. blob_path (self s) h)) (\<lambda>p.
      bindE (getsE (\<lambda>s. path_exists s p)) (\<lambda>there.
        if there then returnE h
        else
        bindE (ensure_parent_dir (butlast p)) (\<lambda>_.
        bindE (write_blob E p data) (\<lambda>_.
        returnE h)))))"

definition put_blob_new :: "env \<Rightarrow> bytes \<Rightarrow> hash store_prog" where
  "put_blob_new E data =
     (let h = hash_bytes E data in
      bindE (getsE (\<lambda>s. blob_path (self s) h)) (\<lambda>p.
      bindE (getsE (\<lambda>s. path_exists s p)) (\<lambda>there.
        if there then throwE (AlreadyExists (to_hex h))
        else
        bindE (ensure_parent_dir (butlast p)) (\<lambda>_.
        bindE (write_blob E p data) (\<lambda>_.
        returnE h)))))"

definition put_blob_with_hash :: "env \<Rightarrow> bytes \<Rightarrow> hash \<Rightarrow> unit store_prog" where
  "put_blob_with_hash E data expected =
     bindE (getsE (\<lambda>s. blob_path (self s) expected)) (\<lambda>p.
     bindE (getsE (\<lambda>s. path_exists s p)) (\<lambda>there.
       if there then returnE ()
       else
       bindE (liftE (verify_hash E data expected)) (\<lambda>_.
       bindE (ensure_parent_dir (butlast p)) (\<lambda>_.
       write_blob E p data))))"

section \<open>The pack cache\<close>

definition with_pack_cache :: "(pack_cache \<Rightarrow> 'a) \<Rightarrow> 'a store_prog" where
  "with_pack_cache f =
     bindE (lock store_packs) (\<lambda>guard.
       case guard of
         Some cache \<Rightarrow> returnE (f cache)
       | None \<Rightarrow>
           bindE (getsE (\<lambda>s. pack_dir (self s))) (\<lambda>dir.
           bindE (map_err Pack (load_all dir)) (\<lambda>cache.
           bindE (set_store_packs (Some cache)) (\<lambda>_.
           returnE (f cache)))))"

definition invalidate_pack_cache :: "unit store_prog" where
  "invalidate_pack_cache =
     bindE (attemptE (lock store_packs)) (\<lambda>r.
       case r of Inl e \<Rightarrow> returnE () | Inr guard \<Rightarrow> set_store_packs None)"

definition get_blob_packed :: "env \<Rightarrow> hash \<Rightarrow> bytes store_prog" where
  "get_blob_packed E h =
     bindE (with_pack_cache (\<lambda>cache. map_option fst (PackCache_find E cache h))) (\<lambda>found.
       case found of
         None \<Rightarrow> throwE (BlobNotFound (to_hex h))
       | Some pack_path \<Rightarrow>
           bindE (map_err Pack (PackIndex_load (with_extension pack_path ''idx''))) (\<lambda>index.
             map_err Pack (PackFile_read_blob E pack_path index h)))"

definition has_blob_packed :: "env \<Rightarrow> hash \<Rightarrow> bool store_prog" where
  "has_blob_packed E h =
     bindE (attemptE (with_pack_cache (\<lambda>cache. PackCache_find E cache h \<noteq> None))) (\<lambda>r.
       returnE (case r of Inl e \<Rightarrow> False | Inr b \<Rightarrow> b))"

definition list_blobs_packed :: "env \<Rightarrow> hash list store_prog" where
  "list_blobs_packed E = with_pack_cache (all_hashes E)"

section \<open>Reading\<close>

text \<open>\<open>Iterator::position\<close> and \<open>Vec::remove\<close>, for the scan of the blob cache.\<close>

fun position :: "('a \<Rightarrow> bool) \<Rightarrow> 'a list \<Rightarrow> nat option" where
  "position P [] = None"
| "position P (x # xs) = (if P x then Some 0 else map_option Suc (position P xs))"

definition vec_remove :: "nat \<Rightarrow> 'a list \<Rightarrow> 'a \<times> 'a list" where
  "vec_remove i xs = (xs ! i, take i xs @ drop (Suc i) xs)"

definition cache_blob :: "hash \<Rightarrow> bytes \<Rightarrow> unit store_prog" where
  "cache_blob h data =
     bindE (attemptE (lock blob_cache)) (\<lambda>r.
       case r of
         Inl e \<Rightarrow> returnE ()
       | Inr cache \<Rightarrow>
           (let kept = (if length cache \<ge> BLOB_CACHE_CAPACITY then butlast cache else cache)
            in set_blob_cache ((h, data) # kept)))"

definition unpack_loose :: "env \<Rightarrow> bytes \<Rightarrow> cas_error + bytes" where
  "unpack_loose E raw = (if is_zstd_compressed E raw then decompress E raw else Inr raw)"

definition get_blob_loose :: "env \<Rightarrow> hash \<Rightarrow> bytes store_prog" where
  "get_blob_loose E h =
     bindE (getsE (\<lambda>s. blob_path (self s) h)) (\<lambda>p.
     bindE (map_err Io (fs_read p)) (\<lambda>raw.
     bindE (liftE (unpack_loose E raw)) (\<lambda>result.
     bindE (getsE (\<lambda>s. verify_on_read (self s))) (\<lambda>verify.
     bindE (if verify then liftE (verify_hash E result h) else returnE ()) (\<lambda>_.
     returnE result)))))"

text \<open>The value of \<open>data\<close> in \<open>get_blob\<close> after a cache miss.\<close>

definition get_blob_miss :: "env \<Rightarrow> hash \<Rightarrow> bytes store_prog" where
  "get_blob_miss E h =
     bindE (getsE (\<lambda>s. path_exists s (blob_path (self s) h))) (\<lambda>there.
       if there then get_blob_loose E h
       else
       bindE (attemptE (get_blob_packed E h)) (\<lambda>r.
         case r of
           Inr data \<Rightarrow> returnE data
         | Inl e \<Rightarrow> throwE (case e of BlobNotFound _ \<Rightarrow> BlobNotFound (to_hex h) | _ \<Rightarrow> e)))"

definition get_blob :: "env \<Rightarrow> hash \<Rightarrow> bytes store_prog" where
  "get_blob E h =
     bindE (lock blob_cache) (\<lambda>cache.
       case position (\<lambda>(g, _). g = h) cache of
         Some pos \<Rightarrow>
           (case vec_remove pos cache of
              ((_, data), rest) \<Rightarrow>
                bindE (set_blob_cache ((h, data) # rest)) (\<lambda>_. returnE data))
       | None \<Rightarrow>
           bindE (get_blob_miss E h) (\<lambda>data.
           bindE (cache_blob h data) (\<lambda>_.
           returnE data)))"

definition has_blob :: "env \<Rightarrow> hash \<Rightarrow> bool store_prog" where
  "has_blob E h =
     bindE (getsE (\<lambda>s. path_exists s (blob_path (self s) h))) (\<lambda>there.
       if there then returnE True else has_blob_packed E h)"

definition delete_blob :: "hash \<Rightarrow> unit store_prog" where
  "delete_blob h =
     bindE (getsE (\<lambda>s. blob_path (self s) h)) (\<lambda>p.
       map_err (\<lambda>e. if e = NotFound then BlobNotFound (to_hex h) else Io e) (fs_remove_file p))"

section \<open>Enumeration\<close>

text \<open>\<open>OsStr::to_string_lossy\<close> on a file name.\<close>

definition to_string_lossy :: "string \<Rightarrow> string" where
  "to_string_lossy name = map char_of (utf8_lossy_bytes (map of_char name))"

text \<open>
  The nested loop that \<open>blob_count\<close>, \<open>total_size\<close> and \<open>list_blobs\<close> share: every regular file in
  every directory of \<open>objects/\<close> but \<open>pack\<close>, in enumeration order; \<open>f\<close> is the loop body. The
  u64 totals are naturals: they count files that exist.
\<close>

definition each_loose_file ::
  "(string \<Rightarrow> string \<Rightarrow> 'a \<Rightarrow> 'a store_prog) \<Rightarrow> 'a \<Rightarrow> 'a store_prog" where
  "each_loose_file f a =
     bindE (getsE (\<lambda>s. objects_dir (self s))) (\<lambda>dir.
     bindE (getsE (\<lambda>s. path_exists s dir)) (\<lambda>there.
       if \<not> there then returnE a
       else
       bindE (map_err Io (read_dir dir)) (\<lambda>names.
         foldE (\<lambda>(dir_name, n) a1.
           if n = Dir then
             if dir_name = ''pack'' then returnE a1
             else
             bindE (map_err Io (read_dir (dir @ [dir_name]))) (\<lambda>subs.
               foldE (\<lambda>(sub_name, m) a2.
                 if m \<noteq> Dir then f dir_name sub_name a2 else returnE a2) subs a1)
           else returnE a1) names a)))"

definition blob_count :: "nat store_prog" where
  "blob_count = each_loose_file (\<lambda>_ _ count. returnE (count + 1)) 0"

definition total_size :: "nat store_prog" where
  "total_size =
     bindE (getsE (\<lambda>s. objects_dir (self s))) (\<lambda>dir.
       each_loose_file (\<lambda>dir_name sub_name total.
         bindE (map_err Io (metadata_len (dir @ [dir_name, sub_name]))) (\<lambda>n.
           returnE (total + n))) 0)"

definition list_blobs :: "hash list store_prog" where
  "list_blobs =
     bindE (each_loose_file (\<lambda>dir_name sub_name hashes.
         let hex = to_string_lossy dir_name @ to_string_lossy sub_name in
         case from_hex hex of
           Inl e \<Rightarrow> returnE hashes
         | Inr h \<Rightarrow> returnE (hashes @ [h])) [])
       (\<lambda>hashes. returnE (sort hashes))"

section \<open>Repacking\<close>

definition repack :: "env \<Rightarrow> nat \<Rightarrow> nat store_prog" where
  "repack E threshold =
     bindE list_blobs (\<lambda>loose_hashes.
       if length loose_hashes \<le> threshold then returnE 0
       else
       bindE (mapE (\<lambda>h. bindE (get_blob E h) (\<lambda>data. returnE (h, data))) loose_hashes) (\<lambda>objects.
       bindE (getsE (\<lambda>s. pack_dir (self s))) (\<lambda>dir.
       bindE (map_err Pack (PackFile_create E dir objects)) (\<lambda>_.
       bindE (mapE (\<lambda>h. attemptE (delete_blob h)) loose_hashes) (\<lambda>_.
       bindE invalidate_pack_cache (\<lambda>_.
       returnE (length loose_hashes)))))))"

end
