(* ===== verification/Gc.thy ===== *)
theory Gc
  imports Store
begin

text \<open>
  The garbage collector of \<open>src/gc.rs\<close>: mark, plan and sweep. A \<open>HashSet\<close> or \<open>BTreeSet\<close> of
  digests is a \<open>hash set\<close>; where the source iterates one into a vector in order, the vector
  is the sorted list of the set. Byte and object counts are naturals: they count what is on
  the disk.
\<close>

section \<open>Data\<close>

definition TRASH_DIR :: string where
  "TRASH_DIR = ''trash''"

record live_set =
  live_hashes :: "hash set"
  missing :: "hash list"
  root_count :: nat
  present_count :: nat

datatype sweep_mode =
    DryRun
  | Trash
  | Delete

record sweep_options =
  mode :: sweep_mode
  rewrite_partial_packs :: bool

definition default_options :: sweep_options where
  "default_options = \<lparr>mode = DryRun, rewrite_partial_packs = True\<rparr>"

record pack_rewrite =
  rewrite_pack :: path
  keep :: "hash list"

record sweep_plan =
  scanned :: nat
  loose_present :: nat
  packed_present :: nat
  live_present :: nat
  garbage_count :: nat
  loose_garbage :: "hash list"
  loose_garbage_bytes :: nat
  packs_with_garbage :: nat
  packed_garbage_objects :: nat
  packs_to_remove :: "path list"
  packs_to_rewrite :: "pack_rewrite list"
  orphan_files :: "path list"
  unreadable_packs :: "path list"
  bytes_reclaimable :: nat

record sweep_report =
  report_plan :: sweep_plan
  report_mode :: sweep_mode
  executed :: bool
  loose_removed :: nat
  packs_removed :: nat
  packs_rewritten :: nat
  bytes_reclaimed :: nat
  trash :: "path option"

record pack_state =
  state_path :: path
  state_hashes :: "hash set"
  state_garbage :: "hash set"
  state_bytes :: nat

section \<open>Mark\<close>

definition mark :: "env \<Rightarrow> hash set \<Rightarrow> live_set store_prog" where
  "mark E roots =
     bindE list_blobs (\<lambda>loose.
     bindE (list_blobs_packed E) (\<lambda>packed.
       let present = set loose \<union> set packed in
       returnE
         \<lparr>live_hashes = Set.filter (\<lambda>h. h \<in> present) roots,
          missing = sorted_list_of_set (Set.filter (\<lambda>h. h \<notin> present) roots),
          root_count = card roots, present_count = card present\<rparr>))"

section \<open>Plan\<close>

definition loose_path :: "blob_store \<Rightarrow> hash \<Rightarrow> path" where
  "loose_path st h = (let hex = to_hex h in objects_dir st @ [take 2 hex, drop 2 hex])"

definition file_len :: "path \<Rightarrow> ('z disk_scheme, cas_error, nat) prog" where
  "file_len p = map_err Io (metadata_len p)"

text \<open>One turn of the inventory loop; the accumulator is \<open>packs\<close>, \<open>orphan_files\<close>, \<open>unreadable_packs\<close>.\<close>

definition scan_pack ::
  "hash set \<Rightarrow> path \<Rightarrow> pack_state list \<times> path list \<times> path list \<Rightarrow>
     ('z disk_scheme, cas_error, pack_state list \<times> path list \<times> path list) prog" where
  "scan_pack live p = (\<lambda>(packs, orphans, unreadable).
     let idx = with_extension p ''idx'' in
     bindE (getsE (\<lambda>d. path_exists d idx)) (\<lambda>there.
       if \<not> there then returnE (packs, orphans @ [p], unreadable)
       else
       bindE (attemptE (PackIndex_load idx)) (\<lambda>r.
         case r of
           Inl e \<Rightarrow> returnE (packs, orphans, unreadable @ [p])
         | Inr index \<Rightarrow>
             (let hashes = set (PackIndex_hashes index) in
              bindE (file_len p) (\<lambda>pack_len.
              bindE (file_len idx) (\<lambda>idx_len.
              returnE
                (packs @ [\<lparr>state_path = p, state_hashes = hashes,
                    state_garbage = Set.filter (\<lambda>h. h \<notin> live) hashes,
                    state_bytes = pack_len + idx_len\<rparr>],
                 orphans, unreadable)))))))"

text \<open>The loop that looks for an index without its pack.\<close>

definition scan_idx ::
  "path list \<Rightarrow> path \<Rightarrow> string \<times> node \<Rightarrow> path list \<Rightarrow> ('z disk_scheme, cas_error, path list) prog" where
  "scan_idx pack_names dir = (\<lambda>(name, n) orphans.
     let path = dir @ [name] in
     if ends_with (to_string_lossy name) ''.idx'' then
       (let pack = with_extension path ''pack'' in
        bindE (getsE (\<lambda>d. path_exists d pack)) (\<lambda>there.
          returnE (if pack \<notin> set pack_names \<and> \<not> there then orphans @ [path] else orphans)))
     else returnE orphans)"

definition inventory ::
  "path \<Rightarrow> hash set \<Rightarrow>
     ('z disk_scheme, cas_error, pack_state list \<times> path list \<times> path list) prog" where
  "inventory dir live =
     bindE (map_err Io (list_packs dir)) (\<lambda>pack_paths.
     bindE (foldE (scan_pack live) pack_paths ([], [], [])) (\<lambda>(packs, orphans, unreadable).
     bindE (getsE (\<lambda>d. path_exists d dir)) (\<lambda>there.
     bindE (if there then
              bindE (map_err Io (read_dir dir)) (\<lambda>names.
                foldE (scan_idx (map state_path packs) dir) names orphans)
            else returnE orphans) (\<lambda>all_orphans.
     returnE (packs, sort all_orphans, unreadable)))))"

text \<open>The local variables of the second half of \<open>plan_sweep\<close>, and one turn of its decision loop.\<close>

record decisions =
  covered :: "hash set"
  to_remove :: "path list"
  to_rewrite :: "pack_rewrite list"
  remove_bytes :: nat
  with_garbage :: nat

definition decide_pack :: "hash set \<Rightarrow> pack_state \<Rightarrow> decisions \<Rightarrow> decisions" where
  "decide_pack garbage_set pack ds =
     (if Set.is_empty (state_garbage pack) then ds
      else
        let needed = sorted_list_of_set
          (Set.filter (\<lambda>h. h \<notin> garbage_set \<and> h \<notin> covered ds) (state_hashes pack))
        in if needed = [] then
          ds\<lparr>to_remove := to_remove ds @ [state_path pack],
             remove_bytes := remove_bytes ds + state_bytes pack,
             with_garbage := with_garbage ds + 1\<rparr>
        else
          ds\<lparr>covered := covered ds \<union> set needed,
             to_rewrite := to_rewrite ds @ [\<lparr>rewrite_pack = state_path pack, keep = needed\<rparr>],
             with_garbage := with_garbage ds + 1\<rparr>)"

definition healthy_hashes :: "pack_state list \<Rightarrow> hash set" where
  "healthy_hashes packs =
     \<Union> (state_hashes ` set (filter (\<lambda>p. Set.is_empty (state_garbage p)) packs))"

definition decide_packs :: "hash set \<Rightarrow> hash set \<Rightarrow> pack_state list \<Rightarrow> decisions" where
  "decide_packs loose_set garbage_set packs =
     fold (decide_pack garbage_set) packs
       \<lparr>covered = Set.filter (\<lambda>h. h \<notin> garbage_set) loose_set \<union> healthy_hashes packs,
        to_remove = [], to_rewrite = [], remove_bytes = 0, with_garbage = 0\<rparr>"

definition plan_sweep :: "hash set \<Rightarrow> sweep_plan store_prog" where
  "plan_sweep live =
     bindE list_blobs (\<lambda>loose.
     bindE (getsE self) (\<lambda>st.
     bindE (inventory (pack_dir st) live) (\<lambda>(packs, orphans, unreadable).
       let loose_set = set loose;
           packed_hashes = \<Union> (state_hashes ` set packs);
           scanned_set = loose_set \<union> packed_hashes;
           garbage_set = Set.filter (\<lambda>h. h \<notin> live) scanned_set;
           garbage = sorted_list_of_set (Set.filter (\<lambda>h. h \<in> garbage_set) loose_set);
           ds = decide_packs loose_set garbage_set packs
       in
       bindE (foldE (\<lambda>h n. bindE (file_len (loose_path st h)) (\<lambda>m. returnE (n + m))) garbage 0)
         (\<lambda>garbage_bytes.
       returnE
         \<lparr>scanned = card scanned_set, loose_present = card loose_set,
          packed_present = card packed_hashes,
          live_present = card (Set.filter (\<lambda>h. h \<in> live) scanned_set),
          garbage_count = card garbage_set, loose_garbage = garbage,
          loose_garbage_bytes = garbage_bytes, packs_with_garbage = with_garbage ds,
          packed_garbage_objects = sum_list (map (\<lambda>p. card (state_garbage p)) packs),
          packs_to_remove = to_remove ds, packs_to_rewrite = to_rewrite ds,
          orphan_files = orphans, unreadable_packs = unreadable,
          bytes_reclaimable = garbage_bytes + remove_bytes ds\<rparr>))))"

section \<open>Sweep\<close>

text \<open>
  \<open>Path::display\<close> of an absolute path, and the panic of the branch that no caller reaches
  (\<open>unreachable!\<close>), rendered as an error that no sweep returns.
\<close>

definition path_display :: "path \<Rightarrow> string" where
  "path_display p = to_string_lossy (concat (map (\<lambda>c. CHR ''/'' # c) p))"

definition unreachable :: cas_error where
  "unreachable = TaskJoin ''dry-run sweeps never reach deletion''"

definition remove_or_trash :: "sweep_mode \<Rightarrow> path \<Rightarrow> path \<Rightarrow> nat store_prog" where
  "remove_or_trash md trash_root p =
     bindE (file_len p) (\<lambda>len.
     bindE
       (case md of
          Delete \<Rightarrow> map_err Io (fs_remove_file p)
        | Trash \<Rightarrow>
            bindE (getsE (\<lambda>s. root (self s))) (\<lambda>r.
              case strip_prefix r p of
                None \<Rightarrow> throwE (GcPathEscape (path_display p))
              | Some relative \<Rightarrow>
                  (let destination = trash_root @ relative in
                   bindE (map_err Io (create_dir_all (butlast destination))) (\<lambda>_.
                   bindE (getsE (\<lambda>s. path_exists s destination)) (\<lambda>there.
                   bindE (if there then bindE (attemptE (fs_remove_file destination)) (\<lambda>_. returnE ())
                          else returnE ()) (\<lambda>_.
                   map_err Io (fs_rename p destination))))))
        | DryRun \<Rightarrow> throwE unreachable)
       (\<lambda>_. returnE len))"

text \<open>Phase 1 for one rewrite; the accumulator is \<open>packs_rewritten\<close> and \<open>bytes_reclaimed\<close>.\<close>

definition read_kept :: "env \<Rightarrow> pack_rewrite \<Rightarrow> ('z disk_scheme, pack_error, (hash \<times> bytes) list) prog" where
  "read_kept E rw =
     bindE (PackIndex_load (with_extension (rewrite_pack rw) ''idx'')) (\<lambda>index.
       mapE (\<lambda>h. bindE (PackFile_read_blob E (rewrite_pack rw) index h) (\<lambda>data. returnE (h, data)))
         (keep rw))"

definition pair_saving :: "pack_rewrite \<Rightarrow> path \<times> path \<Rightarrow> nat store_prog" where
  "pair_saving rw = (\<lambda>(new_pack, new_idx).
     bindE (file_len (rewrite_pack rw)) (\<lambda>old1.
     bindE (file_len (with_extension (rewrite_pack rw) ''idx'')) (\<lambda>old2.
     bindE (file_len new_pack) (\<lambda>new1.
     bindE (file_len new_idx) (\<lambda>new2.
     returnE ((old1 + old2) - (new1 + new2)))))))"

definition rewrite_one :: "env \<Rightarrow> path \<Rightarrow> pack_rewrite \<Rightarrow> nat \<times> nat \<Rightarrow> (nat \<times> nat) store_prog" where
  "rewrite_one E dir rw = (\<lambda>(rewritten, reclaimed).
     bindE (map_err Pack (read_kept E rw)) (\<lambda>objects.
     bindE (map_err Pack (PackFile_create E dir objects)) (\<lambda>pair.
     bindE (pair_saving rw pair) (\<lambda>saving.
     returnE (rewritten + 1, reclaimed + saving)))))"

text \<open>Phase 4 for one pack: the index first, then the pack, each if it exists.\<close>

definition remove_if_there :: "sweep_mode \<Rightarrow> path \<Rightarrow> path \<Rightarrow> nat \<Rightarrow> nat store_prog" where
  "remove_if_there md trash_root p reclaimed =
     bindE (getsE (\<lambda>s. path_exists s p)) (\<lambda>there.
       if there then bindE (remove_or_trash md trash_root p) (\<lambda>n. returnE (reclaimed + n))
       else returnE reclaimed)"

definition remove_pack :: "sweep_mode \<Rightarrow> path \<Rightarrow> path \<Rightarrow> nat \<times> nat \<Rightarrow> (nat \<times> nat) store_prog" where
  "remove_pack md trash_root pack_path = (\<lambda>(removed, reclaimed).
     bindE (foldE (remove_if_there md trash_root)
              [with_extension pack_path ''idx'', pack_path] reclaimed) (\<lambda>reclaimed'.
     returnE (removed + 1, reclaimed')))"

definition removals :: "sweep_options \<Rightarrow> sweep_plan \<Rightarrow> path list" where
  "removals options plan =
     packs_to_remove plan @
     (if rewrite_partial_packs options then map rewrite_pack (packs_to_rewrite plan) else [])"

text \<open>The four phases; each adds to \<open>bytes_reclaimed\<close>.\<close>

definition rewrite_phase :: "env \<Rightarrow> sweep_options \<Rightarrow> path \<Rightarrow> sweep_plan \<Rightarrow> (nat \<times> nat) store_prog" where
  "rewrite_phase E options dir plan =
     (if rewrite_partial_packs options then foldE (rewrite_one E dir) (packs_to_rewrite plan) (0, 0)
      else returnE (0, 0))"

definition loose_phase ::
  "sweep_mode \<Rightarrow> path \<Rightarrow> blob_store \<Rightarrow> sweep_plan \<Rightarrow> nat \<Rightarrow> (nat \<times> nat) store_prog" where
  "loose_phase md trash_root st plan reclaimed =
     foldE (\<lambda>h (removed, n).
         bindE (remove_or_trash md trash_root (loose_path st h)) (\<lambda>m. returnE (removed + 1, n + m)))
       (loose_garbage plan) (0, reclaimed)"

definition orphan_phase :: "sweep_mode \<Rightarrow> path \<Rightarrow> sweep_plan \<Rightarrow> nat \<Rightarrow> nat store_prog" where
  "orphan_phase md trash_root plan reclaimed =
     foldE (\<lambda>p n. bindE (remove_or_trash md trash_root p) (\<lambda>m. returnE (n + m)))
       (orphan_files plan) reclaimed"

definition pack_phase ::
  "sweep_mode \<Rightarrow> path \<Rightarrow> sweep_options \<Rightarrow> sweep_plan \<Rightarrow> nat \<Rightarrow> (nat \<times> nat) store_prog" where
  "pack_phase md trash_root options plan reclaimed =
     foldE (remove_pack md trash_root) (removals options plan) (0, reclaimed)"

definition execute_plan :: "env \<Rightarrow> sweep_options \<Rightarrow> sweep_plan \<Rightarrow> sweep_report store_prog" where
  "execute_plan E options plan =
     bindE (getsE self) (\<lambda>st.
     let trash_root = root st @ [TRASH_DIR]; md = mode options in
     bindE (rewrite_phase E options (pack_dir st) plan) (\<lambda>(rewritten, reclaimed1).
     bindE (loose_phase md trash_root st plan reclaimed1) (\<lambda>(loose, reclaimed2).
     bindE (orphan_phase md trash_root plan reclaimed2) (\<lambda>reclaimed3.
     bindE (pack_phase md trash_root options plan reclaimed3) (\<lambda>(packs, reclaimed4).
     bindE invalidate_pack_cache (\<lambda>_.
     returnE
       \<lparr>report_plan = plan, report_mode = md, executed = True, loose_removed = loose,
        packs_removed = packs, packs_rewritten = rewritten, bytes_reclaimed = reclaimed4,
        trash = (if md = Trash then Some trash_root else None)\<rparr>))))))"

definition sweep :: "env \<Rightarrow> hash set \<Rightarrow> sweep_options \<Rightarrow> sweep_report store_prog" where
  "sweep E live options =
     bindE (plan_sweep live) (\<lambda>plan.
       if mode options = DryRun then
         returnE
           \<lparr>report_plan = plan, report_mode = DryRun, executed = False, loose_removed = 0,
            packs_removed = 0, packs_rewritten = 0, bytes_reclaimed = 0, trash = None\<rparr>
       else execute_plan E options plan)"

section \<open>On the thread pool\<close>

text \<open>
  \<open>spawn_blocking(job).await\<close>: the thread pool (the third-party crate tokio) runs the job to its
  end, or gives a \<open>JoinError\<close>. \<open>failure\<close> is \<open>None\<close> in the first case; in the second it holds the
  text of the \<open>JoinError\<close> and what the part of the job that did run has done to the world.
\<close>

definition spawn_blocking ::
  "(string \<times> (world \<Rightarrow> world)) option \<Rightarrow> 'a store_prog \<Rightarrow> 'a store_prog" where
  "spawn_blocking failure job s =
     (case failure of
        None \<Rightarrow> job s
      | Some (e, effect) \<Rightarrow> (Inl (TaskJoin e), effect s))"

definition mark_async ::
  "(string \<times> (world \<Rightarrow> world)) option \<Rightarrow> env \<Rightarrow> hash set \<Rightarrow> live_set store_prog" where
  "mark_async failure E roots = spawn_blocking failure (mark E roots)"

definition sweep_async ::
  "(string \<times> (world \<Rightarrow> world)) option \<Rightarrow> env \<Rightarrow> hash set \<Rightarrow> sweep_options \<Rightarrow> sweep_report store_prog" where
  "sweep_async failure E live options = spawn_blocking failure (sweep E live options)"

end
