(* ===== verification/StoreFacts.thy ===== *)
theory StoreFacts
  imports Store
begin

text \<open>
  What the operations of the blob store do to the disk and to the store's own fields,
  whatever faults the disk has, and what the successful runs return.
\<close>

section \<open>Steps of the store\<close>

text \<open>The settings of a store, and the poison flags of its locks, which no operation changes.\<close>

definition same_config :: "blob_store \<Rightarrow> blob_store \<Rightarrow> bool" where
  "same_config a b \<longleftrightarrow>
     root b = root a \<and> compress b = compress a \<and> compression_level b = compression_level a \<and>
     verify_on_read b = verify_on_read a \<and> poisoned (store_packs b) = poisoned (store_packs a) \<and>
     poisoned (blob_cache b) = poisoned (blob_cache a) \<and>
     poisoned (known_dirs b) = poisoned (known_dirs a)"

text \<open>Files change only inside \<open>S\<close>, no directory outside \<open>S\<close> goes away, settings stay.\<close>

definition store_step :: "path set \<Rightarrow> world \<Rightarrow> world \<Rightarrow> bool" where
  "store_step S s t \<longleftrightarrow>
     (\<forall>q. q \<notin> S \<longrightarrow> (\<forall>b. node_at t q = Some (File b) \<longleftrightarrow> node_at s q = Some (File b)) \<and>
        (node_at s q = Some Dir \<longrightarrow> node_at t q = Some Dir)) \<and>
     dir_len t = dir_len s \<and> same_config (self s) (self t)"

abbreviation changes_only :: "path set \<Rightarrow> (world, 'e, 'a) prog \<Rightarrow> bool" where
  "changes_only S m \<equiv> upholds (store_step S) m"

interpretation storing: state_preorder "store_step S" for S
  by unfold_locales (simp_all add: store_step_def same_config_def)

lemma store_step_refl [simp]: "store_step S s s"
  by (rule storing.related_refl)

lemma store_step_mono: "store_step S s t \<Longrightarrow> S \<subseteq> T \<Longrightarrow> store_step T s t"
  by (auto simp: store_step_def)

lemma store_step_at:
  "store_step S s t \<Longrightarrow> q \<notin> S \<Longrightarrow> node_at t q = Some (File b) \<longleftrightarrow> node_at s q = Some (File b)"
  by (simp add: store_step_def)

lemma store_step_config: "store_step S s t \<Longrightarrow> same_config (self s) (self t)"
  by (simp add: store_step_def)

lemma more_self: "disk.more (t :: world) = disk.more s \<Longrightarrow> self t = self s"
  by (cases s; cases t) simp

lemma same_files_store_step: "same_files S s t \<Longrightarrow> store_step S s t"
  by (auto simp: same_files_def store_step_def same_config_def dest: more_self)

lemma changes_only_disk: "confined S m \<Longrightarrow> changes_only S m"
  by (erule upholds_mono) (rule same_files_store_step)

lemma preserves_self_disk: "confined S m \<Longrightarrow> preserves self (m :: (world, 'e, 'a) prog)"
  by (erule upholds_mono) (auto simp: same_files_def dest: more_self)

lemma confined_read: "reads m \<Longrightarrow> confined {} m"
  by (rule confining.resp_reads)

lemma preserves_mono: "preserves f m \<Longrightarrow> preserves (\<lambda>s. g (f s)) m"
  by (erule upholds_mono) simp

lemma changes_only_set [hoare]:
  "changes_only S (set_store_packs c)" "changes_only S (set_blob_cache b)"
  "changes_only S (set_known_dirs k)"
  by (auto intro!: upholdsI simp: set_store_packs_def set_blob_cache_def set_known_dirs_def
      run_atoms store_step_def same_config_def node_at_def)

lemma reads_lock [hoare]: "reads (lock field)"
  unfolding lock_def by (intro hoare)

lemma lock_eq [run_simps]:
  "lock field s =
     (if poisoned (field (self s)) then (Inl (LockPoisoned poison_text), s)
      else (Inr (guarded (field (self s))), s))"
  by (simp add: lock_def run_simps)

lemma bind_lock [run_simps]:
  "bindE (lock field) f s =
     (if poisoned (field (self s)) then (Inl (LockPoisoned poison_text), s)
      else f (guarded (field (self s))) s)"
  by (simp add: bindE_def lock_eq)

lemmas disk_reads = reads_queries reads_load_all reads_PackIndex_load reads_PackFile_read_blob
  reads_list_packs reads_lock

lemma changes_only_reads [hoare]:
  "changes_only S (fs_read p)" "changes_only S (metadata_len p)" "changes_only S (read_dir p)"
  "changes_only S (load_all p)" "changes_only S (PackIndex_load p)"
  "changes_only S (PackFile_read_blob E p index h)" "changes_only S (lock field)"
  by (rule storing.resp_reads, rule disk_reads)+

lemma changes_only_writes [hoare]:
  "changes_only S (create_dir_all p)" "p \<in> S \<Longrightarrow> changes_only S (fs_write p b)"
  "p \<in> S \<Longrightarrow> changes_only S (fs_remove_file p)"
  "set (new_pack_paths E dir objects) \<subseteq> S \<Longrightarrow> changes_only S (PackFile_create E dir objects)"
  by (rule changes_only_disk, intro hoare, assumption?)+

section \<open>What each operation may change\<close>

lemma changes_only_ensure_parent_dir [hoare]: "changes_only S (ensure_parent_dir p)"
  unfolding ensure_parent_dir_def by (intro hoare)

lemma changes_only_write_blob [hoare]: "p \<in> S \<Longrightarrow> changes_only S (write_blob E p data)"
  unfolding write_blob_def by (intro hoare)

lemma changes_only_with_pack_cache [hoare]: "changes_only S (with_pack_cache f)"
  unfolding with_pack_cache_def by (intro hoare)

lemma changes_only_invalidate [hoare]: "changes_only S invalidate_pack_cache"
  unfolding invalidate_pack_cache_def by (intro hoare)

lemma changes_only_get_blob_packed [hoare]: "changes_only S (get_blob_packed E h)"
  unfolding get_blob_packed_def by (intro hoare)

lemma changes_only_has_blob_packed [hoare]: "changes_only S (has_blob_packed E h)"
  unfolding has_blob_packed_def by (intro hoare)

lemma changes_only_list_blobs_packed [hoare]: "changes_only S (list_blobs_packed E)"
  unfolding list_blobs_packed_def by (intro hoare)

lemma changes_only_cache_blob [hoare]: "changes_only S (cache_blob h data)"
  unfolding cache_blob_def by (intro hoare)

lemma changes_only_get_blob_loose [hoare]: "changes_only S (get_blob_loose E h)"
  unfolding get_blob_loose_def by (intro hoare)

lemma changes_only_get_blob_miss [hoare]: "changes_only S (get_blob_miss E h)"
  unfolding get_blob_miss_def by (intro hoare)

lemma changes_only_get_blob [hoare]: "changes_only S (get_blob E h)"
  unfolding get_blob_def by (intro hoare)

lemma changes_only_has_blob [hoare]: "changes_only S (has_blob E h)"
  unfolding has_blob_def by (intro hoare)

lemma reads_each_loose_file:
  assumes "\<And>d n a. reads (f d n a)"
  shows "reads (each_loose_file f a)"
  unfolding each_loose_file_def by (intro hoare assms)

lemma reads_list_blobs [hoare]: "reads list_blobs"
  unfolding list_blobs_def by (intro hoare reads_each_loose_file)

lemma reads_blob_count [hoare]: "reads blob_count"
  unfolding blob_count_def by (intro hoare reads_each_loose_file)

lemma reads_total_size [hoare]: "reads total_size"
  unfolding total_size_def by (intro hoare reads_each_loose_file)

text \<open>The path an operation writes is computed from the state it starts in.\<close>

lemma gets_upholds: "upholds R (f (g s)) \<Longrightarrow> bindE (getsE g) f s = (r, t) \<Longrightarrow> R s t"
  by (simp add: bind_pure upholds_def)

lemma put_blob_step:
  "put_blob E data s = (r, t) \<Longrightarrow> store_step {blob_path (self s) (hash_bytes E data)} s t"
  unfolding put_blob_def Let_def by (erule gets_upholds [rotated]) (intro hoare, simp)

lemma put_blob_new_step:
  "put_blob_new E data s = (r, t) \<Longrightarrow> store_step {blob_path (self s) (hash_bytes E data)} s t"
  unfolding put_blob_new_def Let_def by (erule gets_upholds [rotated]) (intro hoare, simp)

lemma put_blob_with_hash_step:
  "put_blob_with_hash E data h s = (r, t) \<Longrightarrow> store_step {blob_path (self s) h} s t"
  unfolding put_blob_with_hash_def by (erule gets_upholds [rotated]) (intro hoare, simp)

lemma delete_blob_step: "delete_blob h s = (r, t) \<Longrightarrow> store_step {blob_path (self s) h} s t"
  unfolding delete_blob_def by (erule gets_upholds [rotated]) (intro hoare, simp)

section \<open>Stored images\<close>

text \<open>The bytes that \<open>put\<close> writes for a blob, and the blobs that this store can give back.\<close>

definition blob_image :: "env \<Rightarrow> blob_store \<Rightarrow> bytes \<Rightarrow> cas_error + bytes" where
  "blob_image E st data =
     (if feature_zstd E \<and> compress st then zstd_compress E data (compression_level st)
      else Inr data)"

definition storable :: "env \<Rightarrow> blob_store \<Rightarrow> bytes \<Rightarrow> bool" where
  "storable E st data \<longleftrightarrow>
     (if feature_zstd E \<and> compress st then length data \<le> MAX_DECOMPRESSED_SIZE
      else \<not> is_zstd_compressed E data)"

text \<open>What the crate relies on of zstd, in a build that has it.\<close>

definition codec_ok :: "env \<Rightarrow> bool" where
  "codec_ok E \<longleftrightarrow> (feature_zstd E \<longrightarrow> zstd_lossless E \<and> zstd_frames E)"

lemma unpack_image:
  assumes "codec_ok E" and "blob_image E st data = Inr raw" and "storable E st data"
  shows "unpack_loose E raw = Inr data"
proof (cases "feature_zstd E \<and> compress st")
  case True
  with assms have c: "zstd_compress E data (compression_level st) = Inr raw"
    and ok: "zstd_lossless E" "zstd_frames E"
    by (simp_all add: blob_image_def codec_ok_def)
  with True assms(3) show ?thesis
    using compress_is_zstd [OF ok(2) _ c] decompress_compress [OF ok(1) c]
    by (simp add: unpack_loose_def storable_def)
next
  case False
  with assms have "raw = data" and "\<not> is_zstd_compressed E data"
    unfolding blob_image_def storable_def by auto
  then show ?thesis by (simp add: unpack_loose_def)
qed

lemma write_blob_eq:
  "write_blob E p data s =
     (case blob_image E (self s) data of
        Inl e \<Rightarrow> (Inl e, s)
      | Inr raw \<Rightarrow> map_err Io (fs_write p raw) s)"
  by (simp add: write_blob_def blob_image_def run_simps split: sum.split)

section \<open>Writing\<close>

lemma preserves_ensure_parent_dir:
  "preserves (\<lambda>s. (blob_cache (self s), store_packs (self s))) (ensure_parent_dir p)"
proof -
  have "preserves (\<lambda>s. (blob_cache (self s), store_packs (self s))) (create_dir_all p :: (world, io_error, unit) prog)"
    by (rule preserves_mono [OF preserves_self_disk [of "{}"]]) (rule hoare)
  moreover have "preserves (\<lambda>s. (blob_cache (self s), store_packs (self s))) (set_known_dirs k)" for k
    by (auto intro!: upholdsI simp: set_known_dirs_def run_atoms)
  moreover have "preserves (\<lambda>s. (blob_cache (self s), store_packs (self s))) (lock known_dirs)"
    by (rule preserving.resp_reads) (rule hoare)
  ultimately show ?thesis
    unfolding ensure_parent_dir_def by (intro hoare)
qed

lemma write_blob_ok:
  assumes "write_blob E p data s = (Inr u, t)"
  obtains raw where "blob_image E (self s) data = Inr raw" and "node_at t p = Some (File raw)"
    and "self t = self s"
proof -
  obtain raw where raw: "blob_image E (self s) data = Inr raw"
    and wr: "fs_write p raw s = (Inr (), t)"
    using assms by (auto simp: write_blob_eq map_err_eq split: sum.splits)
  have "self t = self s"
    using upholdsD [OF preserves_self_disk [OF confined_fs_write [of p "{p}"]] wr] by simp
  with raw fs_write_ok [OF wr] that show thesis
    by blast
qed

text \<open>The state after a write that succeeded.\<close>

definition stored :: "env \<Rightarrow> bytes \<Rightarrow> path \<Rightarrow> world \<Rightarrow> world \<Rightarrow> bool" where
  "stored E data p s t \<longleftrightarrow>
     (\<exists>raw. blob_image E (self s) data = Inr raw \<and> node_at t p = Some (File raw)) \<and>
     blob_cache (self t) = blob_cache (self s) \<and> store_packs (self t) = store_packs (self s)"

lemma write_tail_ok:
  assumes "bindE (ensure_parent_dir q) (\<lambda>_. write_blob E p data) s = (Inr u, t)"
  shows "stored E data p s t"
proof -
  obtain v w where dir: "ensure_parent_dir q s = (Inr v, w)" and wr: "write_blob E p data w = (Inr u, t)"
    using assms by (auto simp: bindE_eq)
  have keep: "blob_cache (self w) = blob_cache (self s)" "store_packs (self w) = store_packs (self s)"
    using upholdsD [OF preserves_ensure_parent_dir dir] by simp_all
  have "same_config (self s) (self w)"
    using upholdsD [OF changes_only_ensure_parent_dir [of "{}"] dir] by (rule store_step_config)
  then have "blob_image E (self w) data = blob_image E (self s) data"
    by (simp add: blob_image_def same_config_def)
  with wr keep show ?thesis
    unfolding stored_def by (elim write_blob_ok) simp
qed

lemma put_blob_there:
  "path_exists s (blob_path (self s) (hash_bytes E data)) \<Longrightarrow> put_blob E data s = (Inr (hash_bytes E data), s)"
  by (simp add: put_blob_def Let_def run_simps)

lemma put_blob_fresh:
  assumes "put_blob E data s = (Inr h, t)"
    and "\<not> path_exists s (blob_path (self s) (hash_bytes E data))"
  shows "h = hash_bytes E data" and "stored E data (blob_path (self s) h) s t"
proof -
  let ?p = "blob_path (self s) (hash_bytes E data)"
  obtain u v where dir: "ensure_parent_dir (butlast ?p) s = (Inr u, v)"
    and wr: "write_blob E ?p data v = (Inr (), t)" and h: "h = hash_bytes E data"
    using assms by (auto simp: put_blob_def Let_def bind_pure bindE_eq run_atoms)
  show "h = hash_bytes E data" by (rule h)
  show "stored E data (blob_path (self s) h) s t"
    unfolding h by (rule write_tail_ok [of "butlast ?p"]) (simp add: bindE_def dir wr)
qed

lemma put_blob_new_there:
  "path_exists s (blob_path (self s) (hash_bytes E data)) \<Longrightarrow>
     put_blob_new E data s = (Inl (AlreadyExists (to_hex (hash_bytes E data))), s)"
  by (simp add: put_blob_new_def Let_def run_simps)

lemma put_blob_new_absent:
  "\<not> path_exists s (blob_path (self s) (hash_bytes E data)) \<Longrightarrow> put_blob_new E data s = put_blob E data s"
  by (simp add: put_blob_new_def put_blob_def Let_def run_simps)

lemma put_blob_with_hash_there:
  "path_exists s (blob_path (self s) h) \<Longrightarrow> put_blob_with_hash E data h s = (Inr (), s)"
  by (simp add: put_blob_with_hash_def run_simps)

lemma put_blob_with_hash_wrong:
  "\<not> path_exists s (blob_path (self s) h) \<Longrightarrow> hash_bytes E data \<noteq> h \<Longrightarrow>
     put_blob_with_hash E data h s = (Inl (HashMismatch (to_hex h) (to_hex (hash_bytes E data))), s)"
  by (simp add: put_blob_with_hash_def run_simps verify_hash_def Let_def)

lemma put_blob_with_hash_absent:
  assumes "\<not> path_exists s (blob_path (self s) (hash_bytes E data))"
  shows "put_blob_with_hash E data (hash_bytes E data) s =
    (case put_blob E data s of (Inl e, t) \<Rightarrow> (Inl e, t) | (Inr h, t) \<Rightarrow> (Inr (), t))"
  using assms
  by (simp add: put_blob_with_hash_def put_blob_def Let_def run_simps verify_hash_def bindE_def
      split: sum.split prod.split)

section \<open>The blob cache\<close>

text \<open>The cache holds at most 1024 blobs, each once.\<close>

definition cache_bounded :: "world \<Rightarrow> bool" where
  "cache_bounded s \<longleftrightarrow>
     length (guarded (blob_cache (self s))) \<le> BLOB_CACHE_CAPACITY \<and>
     distinct (map fst (guarded (blob_cache (self s))))"

text \<open>Every cached blob hashes to its key, and no unverified blob can enter the cache.\<close>

definition cache_true :: "env \<Rightarrow> world \<Rightarrow> bool" where
  "cache_true E s \<longleftrightarrow>
     verify_on_read (self s) \<and>
     (\<forall>(h, data) \<in> set (guarded (blob_cache (self s))). hash_bytes E data = h)"

definition cached :: "world \<Rightarrow> hash \<Rightarrow> bytes option" where
  "cached s h = map_of (guarded (blob_cache (self s))) h"

lemma position_None: "position P xs = None \<longleftrightarrow> (\<forall>x \<in> set xs. \<not> P x)"
  by (induction xs) auto

lemma position_Some:
  "position P xs = Some i \<Longrightarrow> i < length xs \<and> P (xs ! i) \<and> (\<forall>x \<in> set (take i xs). \<not> P x)"
  by (induction xs arbitrary: i) (auto split: if_splits)

lemma position_map_of:
  "position (\<lambda>(g, _). g = h) xs = Some i \<Longrightarrow> map_of xs h = Some (snd (xs ! i))"
  by (induction xs arbitrary: i) (auto split: if_splits)

lemma position_map_of_None: "position (\<lambda>(g, _). g = h) xs = None \<longleftrightarrow> map_of xs h = None"
  by (force simp: position_None map_of_eq_None_iff)

lemma vec_remove_perm:
  assumes "i < length xs"
  shows "mset (fst (vec_remove i xs) # snd (vec_remove i xs)) = mset xs"
proof -
  have "mset xs = mset (take i xs @ xs ! i # drop (Suc i) xs)"
    using id_take_nth_drop [OF assms] by simp
  then show ?thesis by (simp add: vec_remove_def)
qed

text \<open>A hit moves the entry to the front.\<close>

lemma promote_perm:
  assumes "position (\<lambda>(g, _). g = h) cache = Some i" and "vec_remove i cache = ((g, data), rest)"
  shows "mset ((h, data) # rest) = mset cache" and "map_of cache h = Some data"
proof -
  have "i < length cache" and "g = h"
    using position_Some [OF assms(1)] assms(2) by (auto simp: vec_remove_def)
  then show "mset ((h, data) # rest) = mset cache"
    using vec_remove_perm [of i cache] assms(2) by simp
  show "map_of cache h = Some data"
    using position_map_of [OF assms(1)] assms(2) by (simp add: vec_remove_def)
qed

lemma get_blob_hit:
  assumes "\<not> poisoned (blob_cache (self s))" and "cached s h = Some data"
  obtains rest where "get_blob E h s =
      (Inr data, s\<lparr>self := (self s)\<lparr>blob_cache := Mutex False ((h, data) # rest)\<rparr>\<rparr>)"
    and "mset ((h, data) # rest) = mset (guarded (blob_cache (self s)))"
proof -
  let ?cache = "guarded (blob_cache (self s))"
  have "position (\<lambda>(g, _). g = h) ?cache \<noteq> None"
    using assms(2) by (simp add: position_map_of_None cached_def)
  then obtain i where i: "position (\<lambda>(g, _). g = h) ?cache = Some i"
    by blast
  obtain g d rest where v: "vec_remove i ?cache = ((g, d), rest)"
    by (metis surj_pair)
  have "d = data" and "mset ((h, data) # rest) = mset ?cache"
    using promote_perm [OF i v] assms(2) by (simp_all add: cached_def)
  with i v assms(1) that show thesis
    by (simp add: get_blob_def set_blob_cache_def run_simps)
qed

lemma get_blob_unhit:
  assumes "\<not> poisoned (blob_cache (self s))" and "cached s h = None"
  shows "get_blob E h s =
    bindE (get_blob_miss E h) (\<lambda>data. bindE (cache_blob h data) (\<lambda>_. returnE data)) s"
  using assms position_map_of_None [of h "guarded (blob_cache (self s))"]
  by (simp add: get_blob_def run_simps cached_def)

lemma get_blob_poisoned:
  "poisoned (blob_cache (self s)) \<Longrightarrow> get_blob E h s = (Inl (LockPoisoned poison_text), s)"
  by (simp add: get_blob_def run_simps)

text \<open>The entries after an insertion: the oldest one makes room.\<close>

definition cache_insert :: "hash \<Rightarrow> bytes \<Rightarrow> (hash \<times> bytes) list \<Rightarrow> (hash \<times> bytes) list" where
  "cache_insert h data cache =
     (h, data) # (if length cache \<ge> BLOB_CACHE_CAPACITY then butlast cache else cache)"

lemma cache_blob_eq:
  "cache_blob h data s =
     (Inr (), if poisoned (blob_cache (self s)) then s
       else s\<lparr>self := (self s)\<lparr>blob_cache :=
           Mutex False (cache_insert h data (guarded (blob_cache (self s))))\<rparr>\<rparr>)"
  by (simp add: cache_blob_def attemptE_def bindE_def set_blob_cache_def run_simps
      cache_insert_def Let_def)

section \<open>Reading\<close>

lemma reads_get_blob_loose [hoare]: "reads (get_blob_loose E h)"
  unfolding get_blob_loose_def by (intro hoare)

lemma preserves_with_pack_cache:
  "preserves (\<lambda>s. (blob_cache (self s), nodes s, pending s)) (with_pack_cache f)"
proof -
  have "preserves (\<lambda>s. (blob_cache (self s), nodes s, pending s)) (set_store_packs c)" for c
    by (auto intro!: upholdsI simp: set_store_packs_def run_atoms)
  moreover have "preserves (\<lambda>s. (blob_cache (self s), nodes s, pending s)) (lock store_packs)"
    "preserves (\<lambda>s. (blob_cache (self s), nodes s, pending s)) (load_all dir :: (world, pack_error, pack_cache) prog)" for dir
    by (rule preserving.resp_reads, rule hoare)+
  ultimately show ?thesis
    unfolding with_pack_cache_def by (intro hoare)
qed

lemma preserves_get_blob_miss:
  "preserves (\<lambda>s. (blob_cache (self s), nodes s, pending s)) (get_blob_miss E h)"
proof -
  have "preserves (\<lambda>s. (blob_cache (self s), nodes s, pending s)) (get_blob_packed E h)"
    unfolding get_blob_packed_def
    by (intro hoare preserves_with_pack_cache; rule preserving.resp_reads; rule hoare)
  moreover have "preserves (\<lambda>s. (blob_cache (self s), nodes s, pending s)) (get_blob_loose E h)"
    by (rule preserving.resp_reads) (rule hoare)
  ultimately show ?thesis
    unfolding get_blob_miss_def by (intro hoare)
qed

lemma get_blob_packed_hash: "get_blob_packed E h s = (Inr data, t) \<Longrightarrow> hash_bytes E data = h"
  by (auto simp: get_blob_packed_def bindE_eq map_err_eq run_atoms PackFile_read_blob_eq
      split: option.splits dest: blob_in_pack_hash)

lemma get_blob_loose_eq:
  assumes "node_at s (blob_path (self s) h) = Some (File raw)"
  shows "get_blob_loose E h s =
    ((case unpack_loose E raw of
        Inl e \<Rightarrow> Inl e
      | Inr data \<Rightarrow>
          if verify_on_read (self s) \<and> hash_bytes E data \<noteq> h
          then Inl (HashMismatch (to_hex h) (to_hex (hash_bytes E data))) else Inr data), s)"
  using assms
  by (auto simp: get_blob_loose_def run_simps bindE_def map_err_def fs_read_def verify_hash_def
      Let_def split: sum.split)

lemma get_blob_loose_hash:
  "get_blob_loose E h s = (Inr data, t) \<Longrightarrow> verify_on_read (self s) \<Longrightarrow> hash_bytes E data = h"
proof -
  assume run: "get_blob_loose E h s = (Inr data, t)" and verify: "verify_on_read (self s)"
  obtain raw where raw: "node_at s (blob_path (self s) h) = Some (File raw)"
    using run by (auto simp: get_blob_loose_def bind_pure bindE_eq map_err_eq fs_read_def
        split: option.splits node.splits)
  with run verify show ?thesis
    by (auto simp: get_blob_loose_eq split: sum.splits if_splits)
qed

lemma get_blob_miss_hash:
  "get_blob_miss E h s = (Inr data, t) \<Longrightarrow> verify_on_read (self s) \<Longrightarrow> hash_bytes E data = h"
  by (cases "get_blob_packed E h s"; cases "fst (get_blob_packed E h s)")
    (auto simp: get_blob_miss_def run_simps bindE_def attemptE_def split: if_splits
      dest: get_blob_loose_hash get_blob_packed_hash)

lemma get_blob_miss_there:
  "path_exists s (blob_path (self s) h) \<Longrightarrow> get_blob_miss E h s = get_blob_loose E h s"
  by (simp add: get_blob_miss_def run_simps)

text \<open>A blob is readable as a loose file.\<close>

definition loose_serves :: "env \<Rightarrow> 'z disk_scheme \<Rightarrow> path \<Rightarrow> hash \<Rightarrow> bytes \<Rightarrow> bool" where
  "loose_serves E d p h data \<longleftrightarrow>
     (\<exists>raw. node_at d p = Some (File raw) \<and> unpack_loose E raw = Inr data) \<and> hash_bytes E data = h"

lemma loose_serves_cong:
  "(\<And>b. node_at t p = Some (File b) \<longleftrightarrow> node_at d p = Some (File b)) \<Longrightarrow>
     loose_serves E t p h data \<longleftrightarrow> loose_serves E d p h data"
  by (simp add: loose_serves_def)

lemma get_blob_serves_loose:
  assumes "loose_serves E s (blob_path (self s) h) h data"
    and "\<not> poisoned (blob_cache (self s))" and "cached s h = None"
  shows "get_blob E h s = (Inr data, s\<lparr>self := (self s)\<lparr>blob_cache :=
    Mutex False (cache_insert h data (guarded (blob_cache (self s))))\<rparr>\<rparr>)"
proof -
  obtain raw where raw: "node_at s (blob_path (self s) h) = Some (File raw)"
    and unpack: "unpack_loose E raw = Inr data" and hash: "hash_bytes E data = h"
    using assms(1) by (auto simp: loose_serves_def)
  have "get_blob_miss E h s = (Inr data, s)"
    using raw unpack hash by (simp add: get_blob_miss_there path_exists_def get_blob_loose_eq)
  with assms(2,3) show ?thesis
    by (simp add: get_blob_unhit bindE_def cache_blob_eq run_simps)
qed

lemma get_blob_cases:
  assumes "get_blob E h s = (r, t)"
  obtains (poisoned) "poisoned (blob_cache (self s))" "r = Inl (LockPoisoned poison_text)" "t = s"
  | (hit) data rest where "cached s h = Some data" "r = Inr data"
      "mset ((h, data) # rest) = mset (guarded (blob_cache (self s)))"
      "t = s\<lparr>self := (self s)\<lparr>blob_cache := Mutex False ((h, data) # rest)\<rparr>\<rparr>"
  | (miss) u where "cached s h = None" "get_blob_miss E h s = (r, u)"
      "blob_cache (self u) = blob_cache (self s)" "\<not> poisoned (blob_cache (self s))"
      "t = (case r of Inl e \<Rightarrow> u | Inr data \<Rightarrow> u\<lparr>self := (self u)\<lparr>blob_cache :=
         Mutex False (cache_insert h data (guarded (blob_cache (self s))))\<rparr>\<rparr>)"
proof (cases "poisoned (blob_cache (self s))")
  case True
  with assms show thesis by (intro poisoned) (simp_all add: get_blob_poisoned)
next
  case False
  show thesis
  proof (cases "cached s h")
    case None
    obtain q u where miss': "get_blob_miss E h s = (q, u)"
      by (cases "get_blob_miss E h s")
    have same: "blob_cache (self u) = blob_cache (self s)"
      using upholdsD [OF preserves_get_blob_miss miss'] by simp
    have "(r, t) = (q, case q of Inl e \<Rightarrow> u | Inr data \<Rightarrow> u\<lparr>self := (self u)\<lparr>blob_cache :=
         Mutex False (cache_insert h data (guarded (blob_cache (self s))))\<rparr>\<rparr>)"
      using assms False None miss' same
      by (auto simp: get_blob_unhit bindE_def cache_blob_eq run_simps split: sum.splits)
    with None miss' same False show thesis by (intro miss [of u]) simp_all
  next
    case (Some data)
    obtain rest where "get_blob E h s =
      (Inr data, s\<lparr>self := (self s)\<lparr>blob_cache := Mutex False ((h, data) # rest)\<rparr>\<rparr>)"
      and "mset ((h, data) # rest) = mset (guarded (blob_cache (self s)))"
      by (rule get_blob_hit [OF False Some])
    with assms Some show thesis by (intro hit [of data rest]) simp_all
  qed
qed

lemma cache_insert_props:
  assumes "length cache \<le> BLOB_CACHE_CAPACITY" and "distinct (map fst cache)"
    and "h \<notin> fst ` set cache"
  shows "length (cache_insert h data cache) \<le> BLOB_CACHE_CAPACITY"
    and "distinct (map fst (cache_insert h data cache))"
    and "set (cache_insert h data cache) \<subseteq> insert (h, data) (set cache)"
  using assms
  by (auto simp: cache_insert_def BLOB_CACHE_CAPACITY_def map_butlast distinct_butlast
      dest: in_set_butlastD)

lemma cache_perm:
  "mset xs = mset ys \<Longrightarrow> length xs = length ys \<and> (distinct (map fst xs) \<longleftrightarrow> distinct (map fst ys))"
  by (metis mset_eq_imp_distinct_iff mset_eq_length mset_map)

lemma keeps_cache_bounded_get_blob: "keeps cache_bounded (get_blob E h)"
proof (rule upholdsI, rule impI)
  fix s r t
  assume run: "get_blob E h s = (r, t)" and inv: "cache_bounded s"
  from run show "cache_bounded t"
  proof (cases rule: get_blob_cases)
    case (hit data rest)
    with inv cache_perm [OF hit(3)] show ?thesis
      by (simp add: cache_bounded_def)
  next
    case (miss u)
    have "h \<notin> fst ` set (guarded (blob_cache (self s)))"
      using miss(1) by (simp add: cached_def map_of_eq_None_iff)
    with inv miss(3,5) show ?thesis
      by (cases r) (simp_all add: cache_bounded_def cache_insert_props)
  qed (use inv in simp)
qed

lemma keeps_cache_true_get_blob: "keeps (cache_true E) (get_blob E h)"
proof (rule upholdsI, rule impI)
  fix s r t
  assume run: "get_blob E h s = (r, t)" and inv: "cache_true E s"
  have verify: "verify_on_read (self t) = verify_on_read (self s)"
    using upholdsD [OF changes_only_get_blob [of "{}"] run] store_step_config
    by (fastforce simp: same_config_def)
  from run show "cache_true E t"
  proof (cases rule: get_blob_cases)
    case (hit data rest)
    then have "set ((h, data) # rest) = set (guarded (blob_cache (self s)))"
      by (metis set_mset_mset)
    with inv hit(4) show ?thesis
      by (simp add: cache_true_def del: set_simps)
  next
    case (miss u)
    have sub: "set (cache_insert h data (guarded (blob_cache (self s)))) \<subseteq>
        insert (h, data) (set (guarded (blob_cache (self s))))" for data
      by (auto simp: cache_insert_def dest: in_set_butlastD)
    have "r = Inr data \<Longrightarrow> hash_bytes E data = h" for data
      using miss(2) inv by (auto simp: cache_true_def dest: get_blob_miss_hash)
    with inv verify miss(3,5) sub show ?thesis
      unfolding cache_true_def by (cases r) (simp_all, fast)
  qed (use inv in simp)
qed

lemma get_blob_hash:
  assumes "get_blob E h s = (Inr data, t)" and "cache_true E s"
  shows "hash_bytes E data = h"
  using assms(1)
proof (cases rule: get_blob_cases)
  case (hit d rest)
  with assms(2) show ?thesis
    by (auto simp: cache_true_def cached_def dest!: map_of_SomeD)
next
  case (miss u)
  with assms(2) show ?thesis
    by (auto simp: cache_true_def dest: get_blob_miss_hash)
qed simp

section \<open>Enumerating the loose files\<close>

lemma foldE_append: "foldE f (xs @ ys) a s = bindE (foldE f xs a) (foldE f ys) s"
  by (induction xs arbitrary: a s) (auto simp: run_simps bindE_def split: prod.splits sum.splits)

text \<open>The directory and file names of the regular files in the buckets, in enumeration order.\<close>

definition bucket_files :: "'z disk_scheme \<Rightarrow> path \<Rightarrow> string \<times> node \<Rightarrow> (string \<times> string) list" where
  "bucket_files d dir = (\<lambda>(dir_name, n).
     if n = Dir \<and> dir_name \<noteq> ''pack''
     then map (\<lambda>(sub_name, m). (dir_name, sub_name))
       (filter (\<lambda>(sub_name, m). m \<noteq> Dir) (children d (dir @ [dir_name])))
     else [])"

definition loose_files :: "'z disk_scheme \<Rightarrow> path \<Rightarrow> (string \<times> string) list" where
  "loose_files d dir = concat (map (bucket_files d dir) (children d dir))"

lemma foldE_filter_pairs:
  "foldE (\<lambda>(x, m) a. if m \<noteq> Dir then f y x a else returnE a) xs a s =
   foldE (\<lambda>(y, x) a. f y x a) (map (\<lambda>(x, m). (y, x)) (filter (\<lambda>(x, m). m \<noteq> Dir) xs)) a s"
  by (induction xs arbitrary: a s) (auto simp: run_simps bindE_def split: prod.splits sum.splits)

lemma foldE_concat:
  "(\<And>x a. x \<in> set xs \<Longrightarrow> f x a s = foldE g (h x) a s \<and> reads (foldE g (h x) a)) \<Longrightarrow>
     foldE f xs a s = foldE g (concat (map h xs)) a s"
proof (induction xs arbitrary: a)
  case (Cons x xs)
  obtain r t where run: "foldE g (h x) a s = (r, t)"
    by (cases "foldE g (h x) a s")
  moreover have "t = s"
    using Cons.prems [of x a] run by (auto dest: readsD)
  ultimately have "foldE f (x # xs) a s = bindE (foldE g (h x) a) (foldE g (concat (map h xs))) s"
    using Cons by (simp add: bindE_def split: sum.split)
  then show ?case
    by (simp add: foldE_append)
qed simp

lemma each_loose_file_eq:
  assumes wf: "wf_disk s"
    and dir: "node_at s (objects_dir (self s)) = Some Dir"
    and f: "\<And>d n a. reads (f d n a)"
  shows "each_loose_file f a s =
    foldE (\<lambda>(d, n) a. f d n a) (loose_files s (objects_dir (self s))) a s"
proof -
  let ?dir = "objects_dir (self s)"
  let ?body = "\<lambda>(dir_name, n) a1.
      if n = Dir then
        if dir_name = ''pack'' then returnE a1
        else bindE (map_err Io (read_dir (?dir @ [dir_name]))) (\<lambda>subs.
          foldE (\<lambda>(sub_name, m) a2. if m \<noteq> Dir then f dir_name sub_name a2 else returnE a2) subs a1)
      else returnE a1"
  have body: "?body x a s = foldE (\<lambda>(d, n) a. f d n a) (bucket_files s ?dir x) a s"
    if "x \<in> set (children s ?dir)" for x a
  proof (cases "snd x = Dir \<and> fst x \<noteq> ''pack''")
    case True
    with that wf have "node_at s (?dir @ [fst x]) = Some Dir"
      by (metis mem_children prod.collapse)
    with True show ?thesis
      by (simp add: bucket_files_def case_prod_unfold bindE_def map_err_def read_dir_def
          foldE_filter_pairs [unfolded case_prod_unfold])
  qed (auto simp: bucket_files_def case_prod_unfold)
  have "foldE ?body (children s ?dir) a s =
      foldE (\<lambda>(d, n) a. f d n a) (concat (map (bucket_files s ?dir) (children s ?dir))) a s"
    using body f by (intro foldE_concat conjI hoare) auto
  then show ?thesis
    using dir by (simp add: each_loose_file_def run_simps bindE_def map_err_def read_dir_def
        path_exists_def loose_files_def)
qed

text \<open>The digests that the loose files of the store stand for, in enumeration order.\<close>

definition named_hash :: "string \<times> string \<Rightarrow> hash option" where
  "named_hash = (\<lambda>(d, n).
     case from_hex (to_string_lossy d @ to_string_lossy n) of Inl e \<Rightarrow> None | Inr h \<Rightarrow> Some h)"

definition loose_hashes :: "'z disk_scheme \<Rightarrow> path \<Rightarrow> hash list" where
  "loose_hashes d dir =
     (if node_at d dir = Some Dir then sort (List.map_filter named_hash (loose_files d dir)) else [])"

lemma foldE_map_filter:
  "foldE (\<lambda>x hs. case g x of None \<Rightarrow> returnE hs | Some h \<Rightarrow> returnE (hs @ [h])) xs acc s =
   (Inr (acc @ List.map_filter g xs), s)"
  by (induction xs arbitrary: acc)
    (auto simp: run_simps bindE_def List.map_filter_simps split: option.split)

lemma list_blobs_eq:
  assumes wf: "wf_disk s" and dir: "\<forall>b. node_at s (objects_dir (self s)) \<noteq> Some (File b)"
  shows "list_blobs s = (Inr (loose_hashes s (objects_dir (self s))), s)"
proof (cases "node_at s (objects_dir (self s))")
  case None
  then show ?thesis
    by (simp add: list_blobs_def each_loose_file_def bindE_def run_simps path_exists_def
        loose_hashes_def)
next
  case (Some n)
  with dir have n: "node_at s (objects_dir (self s)) = Some Dir"
    by (cases n) simp_all
  have body: "(\<lambda>dir_name sub_name hashes.
         let hex = to_string_lossy dir_name @ to_string_lossy sub_name in
         case from_hex hex of
           Inl e \<Rightarrow> returnE hashes
         | Inr h \<Rightarrow> returnE (hashes @ [h])) =
      (\<lambda>dir_name sub_name hashes. case named_hash (dir_name, sub_name) of
         None \<Rightarrow> returnE hashes | Some h \<Rightarrow> returnE (hashes @ [h]))"
    by (intro ext) (simp add: named_hash_def Let_def split: sum.split)
  show ?thesis
    unfolding list_blobs_def body
    by (simp add: bindE_def run_simps each_loose_file_eq [OF wf n] hoare case_prod_unfold
        foldE_map_filter loose_hashes_def n)
qed

lemma mem_loose_files:
  assumes "wf_disk d"
  shows "(x, y) \<in> set (loose_files d dir) \<longleftrightarrow>
    x \<noteq> ''pack'' \<and> node_at d (dir @ [x]) = Some Dir \<and> is_file_node (node_at d (dir @ [x, y]))"
proof -
  have "(x, y) \<in> set (loose_files d dir) \<longleftrightarrow>
      x \<noteq> ''pack'' \<and> (x, Dir) \<in> set (children d dir) \<and>
      (\<exists>m. (y, m) \<in> set (children d (dir @ [x])) \<and> m \<noteq> Dir)"
    by (force simp: loose_files_def bucket_files_def split: if_splits)
  moreover have "is_file_node n \<longleftrightarrow> (\<exists>m. n = Some m \<and> m \<noteq> Dir)" for n
    by (auto simp: is_file_node_def split: option.split node.split)
  ultimately show ?thesis
    using assms by (simp add: mem_children)
qed

lemma mem_loose_hashes:
  assumes "wf_disk d" and "node_at d dir = Some Dir"
  shows "h \<in> set (loose_hashes d dir) \<longleftrightarrow>
    (\<exists>x y. x \<noteq> ''pack'' \<and> node_at d (dir @ [x]) = Some Dir \<and>
       is_file_node (node_at d (dir @ [x, y])) \<and> named_hash (x, y) = Some h)"
  using assms(2)
  by (simp add: loose_hashes_def set_List_map_filter Bex_def mem_loose_files [OF assms(1)])

lemma sorted_loose_hashes: "sorted (loose_hashes d dir)"
  by (simp add: loose_hashes_def)

text \<open>The canonical name of a digest is listed as that digest.\<close>

lemma utf8_lossy_ascii: "\<forall>b \<in> set bs. b < 128 \<Longrightarrow> utf8_lossy_bytes bs = bs"
  by (induction bs) (simp_all add: utf8_front_ascii)

lemma to_string_lossy_hex: "set s \<subseteq> set HEX_CHARS \<Longrightarrow> to_string_lossy s = s"
  using of_char_HEX_CHARS by (simp add: to_string_lossy_def utf8_lossy_ascii comp_def subset_iff)

lemma named_hash_canonical: "named_hash (take 2 (to_hex h), drop 2 (to_hex h)) = Some h"
proof -
  have "set (take 2 (to_hex h)) \<subseteq> set HEX_CHARS" "set (drop 2 (to_hex h)) \<subseteq> set HEX_CHARS"
    using set_to_hex set_take_subset set_drop_subset by (fast intro: order_trans)+
  then show ?thesis
    by (simp add: named_hash_def to_string_lossy_hex)
qed

section \<open>Data on the disk\<close>

text \<open>
  A blob is held by a store directory when its loose file serves it or some pack of the pack
  directory does: what garbage collection and repacking must not lose. (A read of a packed
  blob needs the other indices of the directory to load as well.)
\<close>

definition loose_at :: "path \<Rightarrow> hash \<Rightarrow> path" where
  "loose_at r h = r @ [''objects'', take 2 (to_hex h), drop 2 (to_hex h)]"

definition held :: "env \<Rightarrow> 'z disk_scheme \<Rightarrow> path \<Rightarrow> hash \<Rightarrow> bytes \<Rightarrow> bool" where
  "held E d r h data \<longleftrightarrow>
     loose_serves E d (loose_at r h) h data \<or>
     (\<exists>name. is_pack_name name \<and> pack_serves E d (r @ [''objects'', ''pack'', name]) h data)"

lemma blob_path_loose_at: "blob_path st h = loose_at (root st) h"
  by (simp add: blob_path_def loose_at_def Let_def)

lemma held_hash: "held E d r h data \<Longrightarrow> hash_bytes E data = h"
  unfolding held_def loose_serves_def by (auto dest: pack_serves_hash)

lemma loose_at_inject [simp]: "loose_at r g = loose_at r h \<longleftrightarrow> g = h"
proof
  assume "loose_at r g = loose_at r h"
  then have "take 2 (to_hex g) @ drop 2 (to_hex g) = take 2 (to_hex h) @ drop 2 (to_hex h)"
    by (simp add: loose_at_def)
  then show "g = h" by simp
qed simp

text \<open>Buckets have two hex characters, so no loose file lies in the pack directory.\<close>

lemma bucket_not_pack: "take 2 (to_hex h) \<noteq> ''pack''"
proof
  assume "take 2 (to_hex h) = ''pack''"
  then have "length (take 2 (to_hex h)) = length ''pack''" by simp
  then show False by simp
qed

lemma loose_at_not_pack [simp]: "loose_at r h \<noteq> r @ [''objects'', ''pack'', name]"
  using bucket_not_pack [of h] by (simp add: loose_at_def)

end
