(* ===== verification/GcPlan.thy ===== *)
theory GcPlan
  imports Gc StoreFacts
begin

text \<open>
  What a sweep plan says about the disk it was made from: the inventory of the pack
  directory, the orphans, the garbage, and the coverage rule of the decision loop.
\<close>

section \<open>Planning only reads\<close>

lemma reads_file_len [hoare]: "reads (file_len p)"
  unfolding file_len_def by (intro hoare)

lemma reads_scan_pack [hoare]: "reads (scan_pack live p acc)"
  unfolding scan_pack_def by (intro hoare reads_PackIndex_load)

lemma reads_scan_idx [hoare]: "reads (scan_idx names dir x acc)"
  unfolding scan_idx_def by (intro hoare)

lemma reads_inventory [hoare]: "reads (inventory dir live)"
  unfolding inventory_def by (intro hoare)

lemma reads_plan_sweep [hoare]: "reads (plan_sweep live)"
  unfolding plan_sweep_def by (intro hoare)

section \<open>The inventory\<close>

text \<open>A pack whose index loads; its state as the inventory records it.\<close>

definition indexed :: "'z disk_scheme \<Rightarrow> path \<Rightarrow> bool" where
  "indexed d p \<longleftrightarrow> has_idx d p \<and> (\<exists>index. idx_of d p = Inr index)"

definition pack_hashes :: "'z disk_scheme \<Rightarrow> path \<Rightarrow> hash set" where
  "pack_hashes d p = (case idx_of d p of Inl e \<Rightarrow> {} | Inr index \<Rightarrow> set (PackIndex_hashes index))"

definition node_len :: "'z disk_scheme \<Rightarrow> path \<Rightarrow> nat" where
  "node_len d p = (case node_at d p of Some (File b) \<Rightarrow> length b | _ \<Rightarrow> dir_len d)"

definition state_of :: "'z disk_scheme \<Rightarrow> hash set \<Rightarrow> path \<Rightarrow> pack_state" where
  "state_of d live p =
     \<lparr>state_path = p, state_hashes = pack_hashes d p, state_garbage = pack_hashes d p - live,
      state_bytes = node_len d p + node_len d (with_extension p ''idx'')\<rparr>"

lemma file_len_eq:
  "file_len p d =
     (if path_exists d p then Inr (node_len d p) else Inl (Io (absent_error d p)), d)"
  by (auto simp: file_len_def map_err_def metadata_len_def node_len_def path_exists_def
      split: option.split node.split)

lemma scan_pack_eq:
  "scan_pack live p (packs, orphans, unreadable) d =
     (if \<not> has_idx d p then Inr (packs, orphans @ [p], unreadable)
      else if \<not> indexed d p then Inr (packs, orphans, unreadable @ [p])
      else if path_exists d p then Inr (packs @ [state_of d live p], orphans, unreadable)
      else Inl (Io (absent_error d p)), d)"
  by (auto simp: scan_pack_def Let_def run_simps bindE_def attemptE_def PackIndex_load_eq
      file_len_eq has_idx_def indexed_def idx_of_def state_of_def pack_hashes_def set_eq_iff
      split: sum.split)

text \<open>Every path that \<open>list_packs\<close> returned exists, so the inventory of the packs succeeds.\<close>

lemma scan_packs_eq:
  assumes "\<forall>p \<in> set ps. path_exists d p"
  shows "foldE (scan_pack live) ps (packs, orphans, unreadable) d =
    (Inr (packs @ map (state_of d live) (filter (indexed d) ps),
          orphans @ filter (\<lambda>p. \<not> has_idx d p) ps,
          unreadable @ filter (\<lambda>p. has_idx d p \<and> \<not> indexed d p) ps), d)"
  using assms
proof (induction ps arbitrary: packs orphans unreadable)
  case (Cons p ps)
  then show ?case
    by (simp add: bindE_def scan_pack_eq) (simp add: indexed_def)
qed (simp add: run_simps)

lemma scan_idxs_eq:
  "foldE (scan_idx names dir) xs orphans d =
     (Inr (orphans @ map (\<lambda>(name, n). dir @ [name]) (filter (\<lambda>(name, n).
        ends_with (to_string_lossy name) ''.idx'' \<and>
        with_extension (dir @ [name]) ''pack'' \<notin> set names \<and>
        \<not> path_exists d (with_extension (dir @ [name]) ''pack'')) xs)), d)"
  by (induction xs arbitrary: orphans)
    (auto simp: run_simps bindE_def scan_idx_def Let_def split: prod.splits)

text \<open>The indices that no pack of the directory can be read through.\<close>

definition orphan_indices :: "'z disk_scheme \<Rightarrow> path list \<Rightarrow> path \<Rightarrow> path list" where
  "orphan_indices d names dir =
     (if node_at d dir = Some Dir then
        map (\<lambda>(name, n). dir @ [name]) (filter (\<lambda>(name, n).
          ends_with (to_string_lossy name) ''.idx'' \<and>
          with_extension (dir @ [name]) ''pack'' \<notin> set names \<and>
          \<not> path_exists d (with_extension (dir @ [name]) ''pack'')) (children d dir))
      else [])"

lemma inventory_eq:
  assumes "wf_disk d" and ps: "packs_at d dir = Inr ps"
  shows "inventory dir live d =
    (Inr (map (state_of d live) (filter (indexed d) ps),
          sort (filter (\<lambda>p. \<not> has_idx d p) ps @ orphan_indices d (filter (indexed d) ps) dir),
          filter (\<lambda>p. has_idx d p \<and> \<not> indexed d p) ps), d)"
proof -
  have there: "\<forall>p \<in> set ps. path_exists d p"
    using mem_packs_at [OF assms] by blast
  have "state_path \<circ> state_of d live = id"
    by (auto simp: state_of_def)
  then have names: "map state_path (map (state_of d live) xs) = xs" for xs
    by simp
  consider "node_at d dir = Some Dir" | "node_at d dir = None"
    using ps by (auto simp: packs_at_cases split: option.splits node.splits)
  then show ?thesis
  proof cases
    case 1
    then show ?thesis
      by (simp add: inventory_def bindE_def map_err_def list_packs_eq ps scan_packs_eq [OF there]
          run_atoms path_exists_def read_dir_def names scan_idxs_eq orphan_indices_def
          del: map_map)
  next
    case 2
    then show ?thesis
      by (simp add: inventory_def bindE_def map_err_def list_packs_eq ps scan_packs_eq [OF there]
          run_atoms path_exists_def orphan_indices_def)
  qed
qed

lemma mem_orphans:
  assumes "wf_disk d" and "packs_at d dir = Inr ps"
    and "p \<in> set (filter (\<lambda>p. \<not> has_idx d p) ps @ orphan_indices d names dir)"
  obtains (pack) "p \<in> set ps" "\<not> has_idx d p"
  | (idx) name where "p = dir @ [name]" "ends_with (to_string_lossy name) ''.idx''"
      "\<not> path_exists d (with_extension p ''pack'')" "path_exists d p"
  using assms(3)
proof (simp, elim disjE conjE)
  assume "p \<in> set (orphan_indices d names dir)"
  then obtain name n where "p = dir @ [name]" "(name, n) \<in> set (children d dir)"
    "ends_with (to_string_lossy name) ''.idx''" "\<not> path_exists d (with_extension p ''pack'')"
    by (auto simp: orphan_indices_def split: if_splits)
  moreover from this have "path_exists d p"
    using mem_children [OF assms(1)] by (metis option.distinct(1) path_exists_def)
  ultimately show thesis by (intro idx)
qed (rule pack)

section \<open>The coverage rule\<close>

text \<open>
  The decision loop after the packs \<open>xs\<close>, from the covered set \<open>start\<close>: the packs with garbage
  are split into removals and rewrites, all that is not garbage in them is covered, and each
  rewrite keeps objects of its pack that nothing else covers, no two of them the same one.
\<close>

definition decided :: "hash set \<Rightarrow> hash set \<Rightarrow> pack_state list \<Rightarrow> decisions \<Rightarrow> bool" where
  "decided garbage start xs ds \<longleftrightarrow>
     mset (to_remove ds @ map rewrite_pack (to_rewrite ds)) =
       mset (map state_path (filter (\<lambda>p. state_garbage p \<noteq> {}) xs)) \<and>
     covered ds = start \<union> (\<Union>rw \<in> set (to_rewrite ds). set (keep rw)) \<and>
     (\<forall>p \<in> set xs. state_garbage p \<noteq> {} \<longrightarrow> state_hashes p - garbage \<subseteq> covered ds) \<and>
     (\<forall>rw \<in> set (to_rewrite ds). keep rw \<noteq> [] \<and> sorted (keep rw) \<and> set (keep rw) \<inter> start = {} \<and>
        (\<exists>p \<in> set xs. state_path p = rewrite_pack rw \<and> set (keep rw) \<subseteq> state_hashes p - garbage)) \<and>
     distinct (concat (map keep (to_rewrite ds)))"

lemma decided_step:
  assumes "decided garbage start xs ds" and "finite (state_hashes p)"
  shows "decided garbage start (xs @ [p]) (decide_pack garbage p ds)"
proof (cases "state_garbage p = {}")
  case True
  then have "decide_pack garbage p ds = ds"
    by (simp add: decide_pack_def)
  with assms(1) True show ?thesis
    unfolding decided_def by simp blast
next
  case False
  define needed where "needed = sorted_list_of_set {h \<in> state_hashes p. h \<notin> garbage \<and> h \<notin> covered ds}"
  have needed: "set needed = {h \<in> state_hashes p. h \<notin> garbage \<and> h \<notin> covered ds}"
    "sorted needed" "distinct needed"
    unfolding needed_def using assms(2) by simp_all
  have dec: "decide_pack garbage p ds =
    (if needed = [] then ds\<lparr>to_remove := to_remove ds @ [state_path p],
             remove_bytes := remove_bytes ds + state_bytes p, with_garbage := with_garbage ds + 1\<rparr>
     else ds\<lparr>covered := covered ds \<union> set needed,
             to_rewrite := to_rewrite ds @ [\<lparr>rewrite_pack = state_path p, keep = needed\<rparr>],
             with_garbage := with_garbage ds + 1\<rparr>)"
    using False by (simp add: decide_pack_def needed_def Let_def)
  show ?thesis
  proof (cases "needed = []")
    case True
    with needed(1) have "state_hashes p - garbage \<subseteq> covered ds" by auto
    with True False assms(1) show ?thesis
      unfolding decided_def dec by simp blast
  next
    case nonempty: False
    have disjoint: "set needed \<inter> covered ds = {}" and sub: "set needed \<subseteq> state_hashes p - garbage"
      and all: "state_hashes p - garbage \<subseteq> covered ds \<union> set needed"
      using needed(1) by auto
    from disjoint assms(1) have "set needed \<inter> start = {}"
      and "set needed \<inter> (\<Union>rw \<in> set (to_rewrite ds). set (keep rw)) = {}"
      unfolding decided_def by auto
    note old = assms(1) [unfolded decided_def]
    have cov: "\<forall>q \<in> set (xs @ [p]). state_garbage q \<noteq> {} \<longrightarrow>
        state_hashes q - garbage \<subseteq> covered ds \<union> set needed"
      using old all by (metis Un_iff in_set_conv_decomp_first le_supI1 rotate1.simps(2) set_ConsD set_rotate1)
    have uniq: "distinct (concat (map keep (to_rewrite ds)) @ needed)"
      using old needed(3) \<open>set needed \<inter> (\<Union>rw \<in> set (to_rewrite ds). set (keep rw)) = {}\<close>
      by auto
    show ?thesis
      unfolding decided_def dec
      using nonempty False old cov uniq needed(2) sub \<open>set needed \<inter> start = {}\<close>
      by (simp add: Un_ac)
  qed
qed

lemma decided_fold:
  assumes "\<forall>p \<in> set packs. finite (state_hashes p)"
  shows "decided garbage start packs (fold (decide_pack garbage) packs
    \<lparr>covered = start, to_remove = [], to_rewrite = [], remove_bytes = 0, with_garbage = 0\<rparr>)"
  using assms
proof (induction packs rule: rev_induct)
  case (snoc p packs)
  then show ?case by (simp add: decided_step)
qed (simp add: decided_def)

section \<open>The plan\<close>

lemma list_blobs_ok:
  assumes "wf_disk s" and "list_blobs s = (Inr hs, t)"
  shows "hs = loose_hashes s (objects_dir (self s))" and "t = s"
proof -
  have dir: "\<forall>b. node_at s (objects_dir (self s)) \<noteq> Some (File b)"
    using assms(2)
    by (auto simp: list_blobs_def each_loose_file_def bindE_eq map_err_eq run_atoms path_exists_def
        read_dir_def split: if_splits)
  show "hs = loose_hashes s (objects_dir (self s))" and "t = s"
    using list_blobs_eq [OF assms(1) dir] assms(2) by simp_all
qed

text \<open>The digests of the plan's inventory, loose and packed.\<close>

definition loose_set :: "world \<Rightarrow> hash set" where
  "loose_set s = set (loose_hashes s (objects_dir (self s)))"

definition packed_set :: "'z disk_scheme \<Rightarrow> path list \<Rightarrow> hash set" where
  "packed_set d ps = (\<Union>p \<in> {p \<in> set ps. indexed d p}. pack_hashes d p)"

definition healthy :: "'z disk_scheme \<Rightarrow> hash set \<Rightarrow> path \<Rightarrow> bool" where
  "healthy d live p \<longleftrightarrow> indexed d p \<and> pack_hashes d p \<subseteq> live"

definition planned :: "world \<Rightarrow> hash set \<Rightarrow> path list \<Rightarrow> sweep_plan \<Rightarrow> bool" where
  "planned s live ps plan \<longleftrightarrow>
     loose_garbage plan = sorted_list_of_set (loose_set s - live) \<and>
     mset (packs_to_remove plan @ map rewrite_pack (packs_to_rewrite plan)) =
       mset (filter (\<lambda>p. indexed s p \<and> \<not> healthy s live p) ps) \<and>
     orphan_files plan = sort (filter (\<lambda>p. \<not> has_idx s p) ps @
       orphan_indices s (filter (indexed s) ps) (pack_dir (self s))) \<and>
     unreadable_packs plan = filter (\<lambda>p. has_idx s p \<and> \<not> indexed s p) ps \<and>
     live \<inter> (loose_set s \<union> packed_set s ps) \<subseteq>
       loose_set s \<union> packed_set s (filter (healthy s live) ps) \<union>
       (\<Union>rw \<in> set (packs_to_rewrite plan). set (keep rw)) \<and>
     (\<forall>rw \<in> set (packs_to_rewrite plan). keep rw \<noteq> [] \<and> sorted (keep rw) \<and>
        set (keep rw) \<subseteq> pack_hashes s (rewrite_pack rw) \<inter> live - loose_set s) \<and>
     distinct (concat (map keep (packs_to_rewrite plan))) \<and>
     (\<forall>h \<in> loose_set s - live. path_exists s (loose_path (self s) h))"

text \<open>The plan of a disk whose pack directory lists \<open>ps\<close> and whose loose garbage has \<open>n\<close> bytes.\<close>

definition pack_decisions :: "world \<Rightarrow> hash set \<Rightarrow> path list \<Rightarrow> decisions" where
  "pack_decisions s live ps =
     decide_packs (loose_set s) ((loose_set s \<union> packed_set s ps) - live)
       (map (state_of s live) (filter (indexed s) ps))"

definition plan_of :: "world \<Rightarrow> hash set \<Rightarrow> path list \<Rightarrow> nat \<Rightarrow> sweep_plan" where
  "plan_of s live ps n =
     (let ds = pack_decisions s live ps; present = loose_set s \<union> packed_set s ps in
      \<lparr>scanned = card present, loose_present = card (loose_set s), packed_present = card (packed_set s ps),
       live_present = card (present \<inter> live), garbage_count = card (present - live),
       loose_garbage = sorted_list_of_set (loose_set s - live), loose_garbage_bytes = n,
       packs_with_garbage = with_garbage ds,
       packed_garbage_objects = (\<Sum>p \<leftarrow> filter (indexed s) ps. card (pack_hashes s p - live)),
       packs_to_remove = to_remove ds, packs_to_rewrite = to_rewrite ds,
       orphan_files = sort (filter (\<lambda>p. \<not> has_idx s p) ps @
         orphan_indices s (filter (indexed s) ps) (pack_dir (self s))),
       unreadable_packs = filter (\<lambda>p. has_idx s p \<and> \<not> indexed s p) ps,
       bytes_reclaimable = n + remove_bytes ds\<rparr>)"

lemma garbage_bytes_eq:
  "foldE (\<lambda>h n. bindE (file_len (f h)) (\<lambda>m. returnE (n + m))) hs n d =
     (case find (\<lambda>h. \<not> path_exists d (f h)) hs of
        None \<Rightarrow> Inr (n + (\<Sum>h \<leftarrow> hs. node_len d (f h)))
      | Some h \<Rightarrow> Inl (Io (absent_error d (f h))), d)"
  by (induction hs arbitrary: n) (auto simp: run_simps bindE_def file_len_eq split: option.split)

lemma plan_sweep_eq:
  assumes wf: "wf_disk s" and list: "list_blobs s = (Inr (loose_hashes s (objects_dir (self s))), s)"
    and ps: "packs_at s (pack_dir (self s)) = Inr ps"
  shows "plan_sweep live s =
    (case find (\<lambda>h. \<not> path_exists s (loose_path (self s) h)) (sorted_list_of_set (loose_set s - live)) of
       None \<Rightarrow> Inr (plan_of s live ps
         (\<Sum>h \<leftarrow> sorted_list_of_set (loose_set s - live). node_len s (loose_path (self s) h)))
     | Some h \<Rightarrow> Inl (Io (absent_error s (loose_path (self s) h))), s)"
proof -
  let ?xs = "map (state_of s live) (filter (indexed s) ps)"
  let ?garbage = "(loose_set s \<union> packed_set s ps) - live"
  have packed: "\<Union> (state_hashes ` set ?xs) = packed_set s ps"
    by (auto simp: packed_set_def state_of_def)
  have filt: "{h \<in> loose_set s \<union> packed_set s ps. h \<notin> live} = ?garbage"
    "{h \<in> loose_set s. h \<in> ?garbage} = loose_set s - live"
    "{h \<in> loose_set s \<union> packed_set s ps. h \<in> live} = (loose_set s \<union> packed_set s ps) \<inter> live"
    by auto
  have cards: "map (\<lambda>p. card (state_garbage p)) ?xs = map (\<lambda>p. card (pack_hashes s p - live)) (filter (indexed s) ps)"
    by (simp add: state_of_def)
  show ?thesis
    unfolding plan_sweep_def
    by (simp only: bindE_def list run_gets inventory_eq [OF wf ps] Let_def prod.case sum.case
        packed Set.filter_eq loose_set_def [symmetric] filt cards garbage_bytes_eq returnE_def
        plan_of_def pack_decisions_def add_0 split: option.split) simp
qed

lemma plan_sweep_run:
  assumes run: "plan_sweep live s = (Inr plan, t)" and wf: "wf_disk s"
  obtains ps where "packs_at s (pack_dir (self s)) = Inr ps" and "t = s"
    and "\<forall>h \<in> loose_set s - live. path_exists s (loose_path (self s) h)"
    and "plan = plan_of s live ps (\<Sum>h \<leftarrow> sorted_list_of_set (loose_set s - live). node_len s (loose_path (self s) h))"
proof -
  have t: "t = s"
    using reads_plan_sweep run by (rule readsD)
  obtain hs u where "list_blobs s = (Inr hs, u)"
    using run by (auto simp: plan_sweep_def bindE_eq)
  with list_blobs_ok [OF wf this] have list: "list_blobs s = (Inr (loose_hashes s (objects_dir (self s))), s)"
    by simp
  obtain ps where ps: "packs_at s (pack_dir (self s)) = Inr ps"
  proof (cases "packs_at s (pack_dir (self s))")
    case (Inl e)
    with run list have False
      by (simp add: plan_sweep_def bindE_def run_atoms inventory_def map_err_def list_packs_eq)
    then show ?thesis ..
  qed
  let ?hs = "sorted_list_of_set (loose_set s - live)"
  have "find (\<lambda>h. \<not> path_exists s (loose_path (self s) h)) ?hs = None"
    and plan: "plan = plan_of s live ps (\<Sum>h \<leftarrow> ?hs. node_len s (loose_path (self s) h))"
    using run plan_sweep_eq [OF wf list ps, of live] by (auto split: option.splits)
  moreover have "finite (loose_set s - live)"
    by (simp add: loose_set_def)
  ultimately have "\<forall>h \<in> loose_set s - live. path_exists s (loose_path (self s) h)"
    by (auto simp: find_None_iff)
  with that [OF ps t] plan show thesis by blast
qed

section \<open>What the decisions cover\<close>

lemma pack_decisions_decided:
  "decided ((loose_set s \<union> packed_set s ps) - live) (loose_set s \<inter> live \<union> packed_set s (filter (healthy s live) ps))
     (map (state_of s live) (filter (indexed s) ps)) (pack_decisions s live ps)"
proof -
  let ?garbage = "(loose_set s \<union> packed_set s ps) - live" and ?xs = "map (state_of s live) (filter (indexed s) ps)"
  have "Set.filter (\<lambda>h. h \<notin> ?garbage) (loose_set s) \<union> healthy_hashes ?xs =
      loose_set s \<inter> live \<union> packed_set s (filter (healthy s live) ps)"
    by (auto simp: healthy_hashes_def packed_set_def healthy_def state_of_def)
  then show ?thesis
    using decided_fold [of ?xs ?garbage]
    by (auto simp: pack_decisions_def decide_packs_def state_of_def pack_hashes_def split: sum.splits)
qed

lemma covered_in_dirty_pack:
  assumes dec: "decided garbage start (map (state_of s live) (filter (indexed s) ps)) ds"
    and p: "p \<in> set ps" "indexed s p" "\<not> pack_hashes s p \<subseteq> live"
    and h: "h \<in> pack_hashes s p" "h \<notin> garbage"
  shows "h \<in> start \<union> (\<Union>rw \<in> set (to_rewrite ds). set (keep rw))"
proof -
  have "state_garbage (state_of s live p) \<noteq> {}" "state_of s live p \<in> set (map (state_of s live) (filter (indexed s) ps))"
    using p by (simp_all add: state_of_def)
  moreover have "\<forall>q \<in> set (map (state_of s live) (filter (indexed s) ps)).
      state_garbage q \<noteq> {} \<longrightarrow> state_hashes q - garbage \<subseteq> covered ds"
    using dec unfolding decided_def by (elim conjE)
  ultimately have "state_hashes (state_of s live p) - garbage \<subseteq> covered ds"
    by blast
  with h have "h \<in> covered ds"
    by (auto simp: state_of_def)
  with dec show ?thesis
    by (simp add: decided_def)
qed

lemma decisions_cover:
  "live \<inter> (loose_set s \<union> packed_set s ps) \<subseteq>
     loose_set s \<union> packed_set s (filter (healthy s live) ps) \<union>
     (\<Union>rw \<in> set (to_rewrite (pack_decisions s live ps)). set (keep rw))"
proof
  fix h
  assume h: "h \<in> live \<inter> (loose_set s \<union> packed_set s ps)"
  show "h \<in> loose_set s \<union> packed_set s (filter (healthy s live) ps) \<union>
     (\<Union>rw \<in> set (to_rewrite (pack_decisions s live ps)). set (keep rw))"
  proof (cases "h \<in> loose_set s")
    case False
    with h obtain p where p: "p \<in> set ps" "indexed s p" "h \<in> pack_hashes s p"
      by (auto simp: packed_set_def)
    show ?thesis
    proof (cases "pack_hashes s p \<subseteq> live")
      case True
      with p show ?thesis by (auto simp: packed_set_def healthy_def)
    next
      case False
      with covered_in_dirty_pack [OF pack_decisions_decided p(1,2) False p(3)] h show ?thesis
        by blast
    qed
  qed simp
qed

lemma decisions_keep:
  assumes "rw \<in> set (to_rewrite (pack_decisions s live ps))"
  shows "keep rw \<noteq> []" and "sorted (keep rw)"
    and "set (keep rw) \<subseteq> pack_hashes s (rewrite_pack rw) \<inter> live - loose_set s"
proof -
  let ?garbage = "(loose_set s \<union> packed_set s ps) - live"
  note dec = pack_decisions_decided [of s ps live]
  show "keep rw \<noteq> []" "sorted (keep rw)"
    using dec assms by (simp_all add: decided_def)
  have apart: "set (keep rw) \<inter> (loose_set s \<inter> live) = {}"
    using dec assms unfolding decided_def by blast
  obtain p where p: "p \<in> set ps" "indexed s p" "p = rewrite_pack rw" "set (keep rw) \<subseteq> pack_hashes s p - ?garbage"
  proof -
    have "\<exists>p \<in> set (map (state_of s live) (filter (indexed s) ps)).
        state_path p = rewrite_pack rw \<and> set (keep rw) \<subseteq> state_hashes p - ?garbage"
      using dec assms unfolding decided_def by simp
    with that show thesis by (auto simp: state_of_def)
  qed
  then have "pack_hashes s p \<subseteq> packed_set s ps"
    by (auto simp: packed_set_def)
  with p apart show "set (keep rw) \<subseteq> pack_hashes s (rewrite_pack rw) \<inter> live - loose_set s"
    by blast
qed

lemma decisions_split:
  "mset (to_remove (pack_decisions s live ps) @ map rewrite_pack (to_rewrite (pack_decisions s live ps))) =
     mset (filter (\<lambda>p. indexed s p \<and> \<not> healthy s live p) ps)"
proof -
  have "map state_path (filter (\<lambda>p. state_garbage p \<noteq> {}) (map (state_of s live) (filter (indexed s) ps))) =
      filter (\<lambda>p. indexed s p \<and> \<not> healthy s live p) ps"
    by (auto simp: filter_map comp_def state_of_def healthy_def intro!: filter_cong)
  with pack_decisions_decided [of s ps live] show ?thesis
    by (simp add: decided_def)
qed

lemma plan_sweep_ok:
  assumes run: "plan_sweep live s = (Inr plan, t)" and wf: "wf_disk s"
  obtains ps where "packs_at s (pack_dir (self s)) = Inr ps" and "planned s live ps plan" and "t = s"
proof (rule plan_sweep_run [OF run wf])
  fix ps
  let ?n = "\<Sum>h \<leftarrow> sorted_list_of_set (loose_set s - live). node_len s (loose_path (self s) h)"
  assume ps: "packs_at s (pack_dir (self s)) = Inr ps" and t: "t = s"
    and there: "\<forall>h \<in> loose_set s - live. path_exists s (loose_path (self s) h)" and plan: "plan = plan_of s live ps ?n"
  have fields: "loose_garbage plan = sorted_list_of_set (loose_set s - live)"
    "packs_to_remove plan = to_remove (pack_decisions s live ps)"
    "packs_to_rewrite plan = to_rewrite (pack_decisions s live ps)"
    "orphan_files plan = sort (filter (\<lambda>p. \<not> has_idx s p) ps @
       orphan_indices s (filter (indexed s) ps) (pack_dir (self s)))"
    "unreadable_packs plan = filter (\<lambda>p. has_idx s p \<and> \<not> indexed s p) ps"
    by (simp_all add: plan plan_of_def Let_def)
  have uniq: "distinct (concat (map keep (to_rewrite (pack_decisions s live ps))))"
    using pack_decisions_decided [of s ps live] by (simp add: decided_def)
  have "planned s live ps plan"
    unfolding planned_def fields
    by (intro conjI ballI refl decisions_split decisions_cover uniq there [rule_format] decisions_keep)
  with that ps t show thesis by blast
qed

end
