(* ===== verification/GcSweep.thy ===== *)
theory GcSweep
  imports GcPlan
begin

text \<open>
  The execution of a sweep, on a disk that may fail at any step: what each phase can touch,
  what the replacement packs hold, and that no phase loses the last copy of a live blob.
\<close>

section \<open>Removing or trashing touches one path and the trash\<close>

lemma is_under_iff: "is_under b q \<longleftrightarrow> (\<exists>x. q = b @ x)"
  by (metis append_eq_conv_conj append_take_drop_id is_under_def)

lemma is_under_refl [simp]: "is_under p p"
  by (simp add: is_under_def)

lemma is_under_same [simp]: "is_under (b @ c) (b @ x) \<longleftrightarrow> is_under c x"
  by (auto simp: is_under_iff)

lemma is_under_Cons [simp]: "is_under (a # c) (b # x) \<longleftrightarrow> a = b \<and> is_under c x" "is_under [] x"
  by (auto simp: is_under_iff)

lemma is_under_trans: "is_under a b \<Longrightarrow> is_under b c \<Longrightarrow> is_under a c"
  by (auto simp: is_under_iff)

lemma prefixes_of: "insert p (set (ancestors p)) = {q. is_under q p}"
proof (intro set_eqI iffI)
  fix q
  assume "q \<in> {q. is_under q p}"
  then have "q = take (length q) p" and "length q \<le> length p"
    by (auto simp: is_under_iff)
  then show "q \<in> insert p (set (ancestors p))"
    by (cases "length q = length p") (auto simp: ancestors_def image_iff)
qed (auto simp: ancestors_def is_under_iff intro: append_take_drop_id [symmetric])

lemma map_of_moved:
  "\<not> is_under src q \<Longrightarrow> \<not> is_under dst q \<Longrightarrow>
     map_of (map (\<lambda>(p, n). (if is_under src p then dst @ drop (length src) p else p, n)) xs) q =
     map_of xs q"
proof (induction xs)
  case (Cons x xs)
  obtain p n where x: "x = (p, n)" by (cases x)
  have "is_under dst (dst @ drop (length src) p)"
    by (simp add: is_under_def)
  with Cons x show ?case by auto
qed simp

lemma node_at_move:
  "\<not> is_under src q \<Longrightarrow> \<not> is_under dst q \<Longrightarrow> node_at (move_node src dst d) q = node_at d q"
proof -
  assume q: "\<not> is_under src q" "\<not> is_under dst q"
  then have neq: "q \<noteq> src" "q \<noteq> dst"
    by (auto simp: is_under_def)
  show ?thesis
  proof (cases "\<exists>b. node_at d src = Some (File b)")
    case True
    with neq show ?thesis by (auto simp: move_node_def disk_nodes.look_move)
  next
    case False
    then have "move_node src dst d = d\<lparr>nodes :=
        map (\<lambda>(p, n). (if is_under src p then dst @ drop (length src) p else p, n))
          (AList.delete dst (nodes d))\<rparr>"
      by (auto simp: move_node_def split: option.split node.split)
    with q neq show ?thesis
      by (simp add: node_at_def map_of_moved delete_conv')
  qed
qed

lemma move_node_fields [simp]:
  "pending (move_node src dst d) = pending d" "dir_len (move_node src dst d) = dir_len d"
  "disk.more (move_node src dst d) = disk.more d"
  by (simp_all add: move_node_def split: option.split node.split)

lemma frames_fs_rename: "frames {q. is_under src q \<or> is_under dst q} (fs_rename src dst)"
  unfolding fs_rename_def
  by (rule touching.resp_bind; rule upholdsI)
    (auto simp: touches_def node_at_move split: if_splits option.splits
      dest: next_fault_touches node_at_next_fault)

text \<open>What one removal may touch: the path itself and whatever is not under \<open>objects/\<close>.\<close>

definition sweep_area :: "path \<Rightarrow> path set \<Rightarrow> path set" where
  "sweep_area r D = {q. (\<exists>p \<in> D. is_under p q) \<or> \<not> is_under (r @ [''objects'']) q}"

lemma sweep_area_mono: "C \<subseteq> D \<Longrightarrow> sweep_area r C \<subseteq> sweep_area r D"
  by (auto simp: sweep_area_def)

lemma under_trash: "is_under (r @ [TRASH_DIR]) q \<Longrightarrow> \<not> is_under (r @ [''objects'']) q"
  by (auto simp: is_under_def TRASH_DIR_def take_Suc_conv_app_nth)

lemma under_ancestor:
  assumes "q \<in> set (ancestors p)" and "\<not> is_under b p"
  shows "\<not> is_under b q"
proof
  assume "is_under b q"
  with assms(1) have "take (length b) p = b"
    by (auto simp: ancestors_def is_under_def min_def split: if_splits)
  with assms(2) show False by (simp add: is_under_def)
qed

lemma frames_mono: "frames S m \<Longrightarrow> S \<subseteq> T \<Longrightarrow> frames T m"
  by (erule upholds_mono) (erule touches_mono)

lemma frames_create_dir_all: "insert p (set (ancestors p)) \<subseteq> S \<Longrightarrow> frames S (create_dir_all p)"
  by (rule upholdsI) (blast intro: touches_mono create_dir_all_touches)

lemma sweep_ops:
  assumes "is_under (r @ [TRASH_DIR]) dst"
  shows "frames (sweep_area r D) (fs_remove_file dst)"
    and "frames (sweep_area r D) (create_dir_all (butlast dst))"
    and "p \<in> D \<Longrightarrow> frames (sweep_area r D) (fs_rename p dst)"
proof -
  have out: "\<not> is_under (r @ [''objects'']) q" if "is_under dst q" for q
    by (rule under_trash [OF is_under_trans [OF assms that]])
  have "is_under (butlast dst) dst"
    by (cases dst rule: rev_cases) (simp_all add: is_under_iff)
  then have anc: "insert (butlast dst) (set (ancestors (butlast dst))) \<subseteq> insert dst (set (ancestors dst))"
    unfolding prefixes_of by (auto intro: is_under_trans)
  show "frames (sweep_area r D) (fs_remove_file dst)"
    by (rule frames_fs_remove_file) (use out in \<open>auto simp: sweep_area_def\<close>)
  show "frames (sweep_area r D) (create_dir_all (butlast dst))"
    by (rule frames_mono [OF frames_create_dir_all [OF anc]])
      (use out under_ancestor in \<open>auto simp: sweep_area_def\<close>)
  show "p \<in> D \<Longrightarrow> frames (sweep_area r D) (fs_rename p dst)"
    by (rule frames_mono [OF frames_fs_rename]) (use out in \<open>auto simp: sweep_area_def\<close>)
qed

lemma sweep_remove: "p \<in> D \<Longrightarrow> frames (sweep_area r D) (fs_remove_file p)"
  by (rule frames_fs_remove_file) (use is_under_refl in \<open>fastforce simp: sweep_area_def\<close>)

lemma frames_reads [hoare]:
  "frames S (file_len p)" "frames S (fs_read p)" "frames S (PackIndex_load p)"
  by (rule touching.resp_reads, rule hoare)+

lemma frames_remove_or_trash [hoare]:
  "p \<in> D \<Longrightarrow> frames (sweep_area r D) (remove_or_trash md (r @ [TRASH_DIR]) p)"
  unfolding remove_or_trash_def
  by (cases md) (auto intro!: hoare sweep_ops sweep_remove [of p])

section \<open>The paths a sweep gives up\<close>

text \<open>Everything phases 2 to 4 remove: loose garbage, orphans, and the pairs of removed packs.\<close>

definition doomed :: "blob_store \<Rightarrow> sweep_options \<Rightarrow> sweep_plan \<Rightarrow> path set" where
  "doomed st options plan =
     loose_path st ` set (loose_garbage plan) \<union> set (orphan_files plan) \<union>
     set (removals options plan) \<union> (\<lambda>p. with_extension p ''idx'') ` set (removals options plan)"

lemma frames_loose_phase:
  "doomed st options plan \<subseteq> D \<Longrightarrow> frames (sweep_area r D) (loose_phase md (r @ [TRASH_DIR]) st plan n)"
  unfolding loose_phase_def by (intro hoare) (auto simp: doomed_def)

lemma frames_orphan_phase:
  "doomed st options plan \<subseteq> D \<Longrightarrow> frames (sweep_area r D) (orphan_phase md (r @ [TRASH_DIR]) plan n)"
  unfolding orphan_phase_def by (intro hoare) (auto simp: doomed_def)

lemma frames_pack_phase:
  "doomed st options plan \<subseteq> D \<Longrightarrow> frames (sweep_area r D) (pack_phase md (r @ [TRASH_DIR]) options plan n)"
  unfolding pack_phase_def remove_pack_def remove_if_there_def
  by (intro hoare) (auto simp: doomed_def)

section \<open>Replacement packs\<close>

text \<open>What phase 1 reads for one rewrite.\<close>

definition replacement :: "env \<Rightarrow> 'z disk_scheme \<Rightarrow> pack_rewrite \<Rightarrow> pack_error + (hash \<times> bytes) list" where
  "replacement E d rw =
     (case idx_of d (rewrite_pack rw) of
        Inl e \<Rightarrow> Inl e
      | Inr index \<Rightarrow>
          collect (\<lambda>h. case blob_in_pack E d (rewrite_pack rw) index h of
              Inl e \<Rightarrow> Inl e | Inr data \<Rightarrow> Inr (h, data)) (keep rw))"

lemma read_kept_eq: "read_kept E rw d = (replacement E d rw, d)"
proof -
  have "mapE (\<lambda>h. bindE (PackFile_read_blob E p index h) (\<lambda>data. returnE (h, data))) hs d =
      (collect (\<lambda>h. case blob_in_pack E d p index h of
          Inl e \<Rightarrow> Inl e | Inr data \<Rightarrow> Inr (h, data)) hs, d)" for p index hs
    by (rule mapE_pure) (simp add: bindE_def PackFile_read_blob_eq run_atoms split: sum.split)
  then show ?thesis
    by (simp add: read_kept_def replacement_def bindE_def PackIndex_load_eq idx_of_def split: sum.split)
qed

lemma index_at_cong: "node_at t p = node_at d p \<Longrightarrow> node_at d p \<noteq> None \<Longrightarrow> index_at t p = index_at d p"
  by (auto simp: index_at_def PackIndex_load_def bindE_def map_err_def fs_read_def run_atoms
      split: option.split node.split)

lemma blob_in_pack_cong:
  "node_at t p = node_at d p \<Longrightarrow> node_at d p \<noteq> None \<Longrightarrow>
     blob_in_pack E t p index h = blob_in_pack E d p index h"
  by (auto simp: blob_in_pack_def PackFile_read_blob_def bindE_def map_err_def fs_read_def run_atoms
      split: option.split node.split)

lemma replacement_cong:
  assumes "node_at t p = node_at d p" "node_at d p \<noteq> None"
    and "node_at t (with_extension p ''idx'') = node_at d (with_extension p ''idx'')"
    and "has_idx d p" and "p = rewrite_pack rw"
  shows "replacement E t rw = replacement E d rw"
  using assms index_at_cong [of t "with_extension p ''idx''" d] blob_in_pack_cong [of t p d]
  by (simp add: replacement_def idx_of_def has_idx_def path_exists_def cong: collect_cong sum.case_cong)

lemma replacement_serves:
  assumes "replacement E d rw = Inr objects"
  shows "map fst objects = keep rw"
    and "(h, data) \<in> set objects \<Longrightarrow> pack_serves E d (rewrite_pack rw) h data"
proof -
  obtain index where index: "idx_of d (rewrite_pack rw) = Inr index"
    and all: "list_all2 (\<lambda>h obj. (case blob_in_pack E d (rewrite_pack rw) index h of
              Inl e \<Rightarrow> Inl e | Inr data \<Rightarrow> Inr (h, data)) = Inr obj) (keep rw) objects"
    using assms by (auto simp: replacement_def collect_ok split: sum.splits)
  have "list_all2 (\<lambda>h obj. fst obj = h \<and> blob_in_pack E d (rewrite_pack rw) index h = Inr (snd obj))
      (keep rw) objects"
    using all by (rule list_all2_mono) (auto split: sum.splits)
  note all = this
  then show "map fst objects = keep rw"
    by (auto simp: list_all2_conv_all_nth intro: nth_equalityI)
  assume "(h, data) \<in> set objects"
  with all have "blob_in_pack E d (rewrite_pack rw) index h = Inr data"
    by (auto simp: list_all2_conv_all_nth in_set_conv_nth)
  with index show "pack_serves E d (rewrite_pack rw) h data"
    by (auto simp: pack_serves_def idx_of_def)
qed

end
