(* ===== verification/GcSafety.thy ===== *)
theory GcSafety
  imports GcSweep
begin

text \<open>
  A sweep loses no live blob, whatever the disk does: phase 1 only adds packs, the paths the
  later phases remove are none of the copies that the coverage rule counts on, and so at
  every moment each live blob that the store held is still held.
\<close>

section \<open>Copies that a step leaves alone\<close>

lemma pack_serves_step:
  assumes "store_step S s t" and "p \<notin> S" and "with_extension p ''idx'' \<notin> S"
  shows "pack_serves E t p h data \<longleftrightarrow> pack_serves E s p h data"
  using store_step_at [OF assms(1,2)] store_step_at [OF assms(1,3)]
  by (simp add: pack_serves_def index_at_ok blob_in_pack_ok)

lemma loose_serves_step:
  "store_step S s t \<Longrightarrow> p \<notin> S \<Longrightarrow> loose_serves E t p h data \<longleftrightarrow> loose_serves E s p h data"
  by (rule loose_serves_cong) (rule store_step_at)

lemma store_step_node: "store_step S s t \<Longrightarrow> q \<notin> S \<Longrightarrow> node_at s q = Some n \<Longrightarrow> node_at t q = Some n"
  by (cases n) (simp_all add: store_step_def)

lemma pack_serves_exists:
  "pack_serves E d p h data \<Longrightarrow> path_exists d p \<and> has_idx d p \<and> indexed d p"
  by (auto simp: pack_serves_def index_at_ok blob_in_pack_ok path_exists_def has_idx_def indexed_def
      idx_of_def)

lemma pack_serves_mem: "pack_serves E d p h data \<Longrightarrow> h \<in> pack_hashes d p"
proof -
  assume "pack_serves E d p h data"
  then obtain index off where "idx_of d p = Inr index" and "PackIndex_find index h = Some off"
    by (auto simp: pack_serves_def blob_in_pack_ok idx_of_def)
  moreover from this PackIndex_find_absent have "h \<in> set (PackIndex_hashes index)"
    by fastforce
  ultimately show ?thesis by (simp add: pack_hashes_def)
qed

section \<open>Phase 1\<close>

definition replacement_paths :: "env \<Rightarrow> 'z disk_scheme \<Rightarrow> path \<Rightarrow> pack_rewrite \<Rightarrow> path list" where
  "replacement_paths E d dir rw =
     (case replacement E d rw of Inl e \<Rightarrow> [] | Inr objects \<Rightarrow> new_pack_paths E dir objects)"

text \<open>
  The replacement packs have names of their own, which nothing on the disk has, and their
  objects fit the pack format.
\<close>

definition fresh_replacements :: "env \<Rightarrow> world \<Rightarrow> sweep_plan \<Rightarrow> bool" where
  "fresh_replacements E s plan \<longleftrightarrow>
     distinct (concat (map (replacement_paths E s (pack_dir (self s))) (packs_to_rewrite plan))) \<and>
     (\<forall>rw \<in> set (packs_to_rewrite plan).
        (\<forall>p \<in> set (replacement_paths E s (pack_dir (self s)) rw). \<not> path_exists s p) \<and>
        (\<forall>objects. replacement E s rw = Inr objects \<longrightarrow> packable E objects))"

text \<open>A path that \<open>list_packs\<close> takes for a pack, with a name before its extension.\<close>

definition is_pack_path :: "path \<Rightarrow> path \<Rightarrow> bool" where
  "is_pack_path dir p \<longleftrightarrow> (\<exists>stem. stem \<noteq> [] \<and> is_pack_name (stem @ ''.pack'') \<and> p = dir @ [stem @ ''.pack''])"

text \<open>The replacement pack of a rewrite is there, indexes the objects kept and serves each of them.\<close>

definition replaced :: "env \<Rightarrow> world \<Rightarrow> world \<Rightarrow> pack_rewrite \<Rightarrow> bool" where
  "replaced E s u rw \<longleftrightarrow>
     (\<exists>p pd index. is_pack_path (pack_dir (self s)) p \<and>
        set (replacement_paths E s (pack_dir (self s)) rw) = {p, with_extension p ''idx''} \<and>
        node_at u p = Some (File pd) \<and> idx_of u p = Inr index \<and>
        set (PackIndex_hashes index) = set (keep rw) \<and>
        (\<forall>h \<in> set (keep rw). \<exists>data. pack_serves E u p h data))"

lemma idx_of_step:
  assumes "store_step S u v" and "with_extension p ''idx'' \<notin> S"
  shows "idx_of v p = Inr index \<longleftrightarrow> idx_of u p = Inr index"
  using store_step_at [OF assms] by (simp add: idx_of_def index_at_ok)

lemma replaced_step:
  assumes "replaced E s u rw" and "store_step S u v"
    and "S \<inter> set (replacement_paths E s (pack_dir (self s)) rw) = {}"
  shows "replaced E s v rw"
proof -
  obtain p pd index where p: "is_pack_path (pack_dir (self s)) p"
    and paths: "set (replacement_paths E s (pack_dir (self s)) rw) = {p, with_extension p ''idx''}"
    and nodes: "node_at u p = Some (File pd)" "idx_of u p = Inr index" "set (PackIndex_hashes index) = set (keep rw)"
    and serves: "\<forall>h \<in> set (keep rw). \<exists>data. pack_serves E u p h data"
    using assms(1) unfolding replaced_def by blast
  have out: "p \<notin> S" "with_extension p ''idx'' \<notin> S"
    using assms(3) paths by auto
  have "node_at v p = Some (File pd)" "idx_of v p = Inr index"
    using nodes(1,2) store_step_at [OF assms(2) out(1)] idx_of_step [OF assms(2) out(2)] by simp_all
  moreover have "\<forall>h \<in> set (keep rw). \<exists>data. pack_serves E v p h data"
    using serves pack_serves_step [OF assms(2) out] by simp
  ultimately show ?thesis
    using p paths nodes(3) unfolding replaced_def by (intro exI [of _ p] exI [of _ pd] exI [of _ index] conjI)
qed

text \<open>An index written from a list of entries loads as those entries.\<close>

lemma written_index:
  assumes "packable E objects" and "pack_objects E objects (pack_header objects) [] = Inr (pd, ies)"
    and "node_at d (with_extension p ''idx'') = Some (File (serialize_index ies))"
  obtains index where "idx_of d p = Inr index" and "set (PackIndex_hashes index) = fst ` set objects"
proof -
  have keys: "map entry_hash ies = map fst objects"
    using pack_objects_prefix [OF assms(2)] by auto
  then have "length ies < 2 ^ 32"
    using assms(1) by (metis length_map packable_def indexable_def)
  then have "fst (PackIndex_parse (serialize_index ies)) = Inr \<lparr>entries = sort_key entry_hash ies\<rparr>"
    using PackIndex_parse_serialize [of ies "[]"] by simp
  then have "idx_of d p = Inr \<lparr>entries = sort_key entry_hash ies\<rparr>"
    using assms(3) by (simp add: idx_of_def index_at_ok)
  moreover have "entry_hash ` set ies = fst ` set objects"
    using arg_cong [OF keys, of set] by simp
  ultimately show thesis
    using that by (metis PackIndex_hashes_def list.set_map pack_index.select_convs(1) set_sort)
qed

text \<open>One turn of the loop, from a state in which the old pack is still as it was.\<close>

lemma create_replaces:
  assumes codec: "codec_ok E"
    and objects: "replacement E s rw = Inr objects" and fits: "packable E objects"
    and create: "PackFile_create E (pack_dir (self s)) objects u = (Inr (p, i), v)"
  shows "replaced E s v rw"
proof -
  let ?dir = "pack_dir (self s)"
  from create obtain pd ies where image: "pack_objects E objects (pack_header objects) [] = Inr (pd, ies)"
    and p: "p = ?dir @ [pack_name E (serialize_index ies) @ ''.pack'']" and i: "i = with_extension p ''idx''"
    and nodes: "node_at v p = Some (File pd)" "node_at v i = Some (File (serialize_index ies))"
    by (rule PackFile_create_ok)
  have paths: "set (replacement_paths E s ?dir rw) = {p, i}"
    by (simp add: replacement_paths_def objects new_pack_paths_def image pair_paths_def p i pack_to_idx)
  have path: "is_pack_path ?dir p"
    unfolding is_pack_path_def p is_pack_name_def
    by (intro exI [of _ "pack_name E (serialize_index ies)"]) (simp add: utf8_valid_pack_name)
  have "\<exists>data. pack_serves E v p h data" if h: "h \<in> set (keep rw)" for h
  proof -
    obtain data where obj: "(h, data) \<in> set objects"
      using h unfolding replacement_serves(1) [OF objects, symmetric] by auto
    have "pack_serves E v p h data"
      by (rule pack_files_serve [OF _ fits image obj nodes(1) nodes(2) [unfolded i]]) (use codec in \<open>simp add: codec_ok_def\<close>)
    then show ?thesis ..
  qed
  then have serves: "\<forall>h \<in> set (keep rw). \<exists>data. pack_serves E v p h data"
    by simp
  obtain index where index: "idx_of v p = Inr index" "set (PackIndex_hashes index) = fst ` set objects"
    using written_index [OF fits image] nodes(2) i by blast
  moreover have "fst ` set objects = set (keep rw)"
    using arg_cong [OF replacement_serves(1) [OF objects], of set] by simp
  ultimately show ?thesis
    using path paths [unfolded i] nodes(1) serves
    unfolding replaced_def by (intro exI [of _ p] exI [of _ pd] exI [of _ index] conjI) simp_all
qed

lemma reads_pair_saving [hoare]: "reads (pair_saving rw pair)"
  unfolding pair_saving_def by (intro hoare)

lemma rewrite_one_cases:
  assumes "rewrite_one E dir rw acc u = (res, v)"
  obtains (unread) e where "replacement E u rw = Inl e" "res = Inl (Pack e)" "v = u"
  | (failed) objects e where "replacement E u rw = Inr objects" "res = Inl (Pack e)"
      "PackFile_create E dir objects u = (Inl e, v)"
  | (created) objects pair where "replacement E u rw = Inr objects"
      "PackFile_create E dir objects u = (Inr pair, v)"
proof (cases "replacement E u rw")
  case (Inl e)
  with assms show thesis
    by (intro unread) (cases acc; simp add: rewrite_one_def bindE_def map_err_def read_kept_eq)+
next
  case (Inr objects)
  obtain q w where create: "PackFile_create E dir objects u = (q, w)"
    by (cases "PackFile_create E dir objects u")
  show thesis
  proof (cases q)
    case (Inl e)
    with assms Inr create show thesis
      by (intro failed [of objects e])
        (cases acc; simp add: rewrite_one_def bindE_def map_err_def read_kept_eq)+
  next
    case (Inr pair)
    obtain n x where "pair_saving rw pair w = (n, x)" and "x = w"
      using reads_pair_saving readsD by (metis surj_pair)
    with assms \<open>replacement E u rw = Inr objects\<close> create Inr have "v = w"
      by (cases acc) (auto simp: rewrite_one_def bindE_def map_err_def read_kept_eq run_atoms split: sum.splits)
    with \<open>replacement E u rw = Inr objects\<close> create Inr show thesis
      by (intro created [of objects pair]) simp_all
  qed
qed

lemma rewrite_one_step:
  assumes codec: "codec_ok E"
    and fits: "\<forall>objects. replacement E s rw = Inr objects \<longrightarrow> packable E objects"
    and same: "replacement E u rw = replacement E s rw"
    and run: "rewrite_one E (pack_dir (self s)) rw acc u = (res, v)"
  shows "store_step (set (replacement_paths E s (pack_dir (self s)) rw)) u v \<and>
    (\<forall>acc'. res = Inr acc' \<longrightarrow> replaced E s v rw)"
proof -
  have step: "changes_only (set (replacement_paths E s (pack_dir (self s)) rw))
      (PackFile_create E (pack_dir (self s)) objects)" if "replacement E s rw = Inr objects" for objects
    by (rule hoare) (simp add: replacement_paths_def that)
  from run show ?thesis
  proof (cases rule: rewrite_one_cases)
    case (failed objects e)
    then show ?thesis
      using upholdsD [OF step] same by simp
  next
    case (created objects pair)
    then have objects: "replacement E s rw = Inr objects"
      using same by simp
    obtain p i where "pair = (p, i)" by (cases pair)
    with created(2) have "replaced E s v rw"
      using create_replaces [OF codec objects] fits objects by blast
    with upholdsD [OF step [OF objects] created(2)] show ?thesis
      by blast
  qed simp
qed

text \<open>The paths of all replacement packs.\<close>

definition all_replacements :: "env \<Rightarrow> world \<Rightarrow> sweep_plan \<Rightarrow> path set" where
  "all_replacements E s plan =
     (\<Union>rw \<in> set (packs_to_rewrite plan). set (replacement_paths E s (pack_dir (self s)) rw))"

lemma fresh_not_there:
  "fresh_replacements E s plan \<Longrightarrow> path_exists s p \<Longrightarrow> p \<notin> all_replacements E s plan"
  by (auto simp: fresh_replacements_def all_replacements_def)

text \<open>Each rewrite of the plan is of a pack whose files are on the disk.\<close>

definition rewrites_exist :: "world \<Rightarrow> sweep_plan \<Rightarrow> bool" where
  "rewrites_exist s plan \<longleftrightarrow>
     (\<forall>rw \<in> set (packs_to_rewrite plan). path_exists s (rewrite_pack rw) \<and> has_idx s (rewrite_pack rw))"

lemma replacement_unchanged:
  assumes "rewrites_exist s plan" and "fresh_replacements E s plan"
    and "rw \<in> set (packs_to_rewrite plan)" and step: "store_step (all_replacements E s plan) s u"
  shows "replacement E u rw = replacement E s rw"
proof -
  have same: "path_exists s q \<Longrightarrow> node_at u q = node_at s q" for q
    using store_step_node [OF step] fresh_not_there [OF assms(2)]
    by (auto simp: path_exists_def)
  from assms(1,3) have "path_exists s (rewrite_pack rw)" "has_idx s (rewrite_pack rw)"
    by (simp_all add: rewrites_exist_def)
  then show ?thesis
    by (intro replacement_cong [of _ "rewrite_pack rw"] same) (simp_all add: has_idx_def path_exists_def)
qed

lemma rewrite_loop:
  assumes codec: "codec_ok E"
    and there: "rewrites_exist s plan" and fresh: "fresh_replacements E s plan"
  shows "triple (\<lambda>u. u = s)
    (foldE (rewrite_one E (pack_dir (self s))) (packs_to_rewrite plan) acc)
    (\<lambda>_ u. store_step (all_replacements E s plan) s u \<and> (\<forall>rw \<in> set (packs_to_rewrite plan). replaced E s u rw))
    (\<lambda>_ u. store_step (all_replacements E s plan) s u)"
proof -
  let ?all = "all_replacements E s plan" and ?paths = "replacement_paths E s (pack_dir (self s))"
  let ?I = "\<lambda>pre (acc :: nat \<times> nat) u. store_step ?all s u \<and> (\<forall>rw \<in> set pre. replaced E s u rw)"
  have "triple (?I [] acc) (foldE (rewrite_one E (pack_dir (self s))) (packs_to_rewrite plan) acc)
      (?I (packs_to_rewrite plan)) (\<lambda>_. store_step ?all s)"
  proof (rule triple_foldE)
    fix pre rw post and acc :: "nat \<times> nat"
    assume split: "packs_to_rewrite plan = pre @ rw # post"
    then have rw: "rw \<in> set (packs_to_rewrite plan)" by simp
    have sub: "set (?paths rw) \<subseteq> ?all"
      using rw by (auto simp: all_replacements_def)
    have fits: "\<forall>objects. replacement E s rw = Inr objects \<longrightarrow> packable E objects"
      using fresh rw by (simp add: fresh_replacements_def)
    have apart: "set (?paths rw) \<inter> set (?paths rw') = {}" if "rw' \<in> set pre" for rw'
      using fresh that by (auto simp: fresh_replacements_def split)
    have turn: "store_step ?all s v \<and> (\<forall>acc'. res = Inr acc' \<longrightarrow> (\<forall>rw' \<in> set (pre @ [rw]). replaced E s v rw'))"
      if inv: "?I pre acc u" and run: "rewrite_one E (pack_dir (self s)) rw acc u = (res, v)" for u v res
    proof -
      have same: "replacement E u rw = replacement E s rw"
        using inv by (intro replacement_unchanged [OF there fresh rw]) simp
      note one = rewrite_one_step [OF codec fits same run]
      have "store_step ?all u v"
        using one sub by (blast intro: store_step_mono)
      then have "store_step ?all s v"
        using inv by (blast intro: storing.related_trans)
      moreover have "replaced E s v rw'" if "rw' \<in> set pre" for rw'
        using inv that one apart by (blast intro: replaced_step)
      ultimately show ?thesis
        using one by auto
    qed
    show "triple (?I pre acc) (rewrite_one E (pack_dir (self s)) rw acc) (?I (pre @ [rw]))
        (\<lambda>_. store_step ?all s)"
      by (rule tripleI) (use turn in blast)+
  qed
  then show ?thesis
    by (rule triple_weaken) simp_all
qed

section \<open>What survives phases 2 to 4\<close>

lemma pack_not_idx: "a @ ''.pack'' \<noteq> b @ ''.idx''"
  by (auto dest: arg_cong [of _ _ last])

lemma loose_path_eq: "loose_path st h = loose_at (root st) h"
  by (simp add: loose_path_def loose_at_def objects_dir_def Let_def)

text \<open>A plan made on a well-formed disk whose packs have proper names.\<close>

definition planned_disk :: "world \<Rightarrow> hash set \<Rightarrow> path list \<Rightarrow> sweep_plan \<Rightarrow> bool" where
  "planned_disk s live ps plan \<longleftrightarrow>
     wf_disk s \<and> packs_at s (pack_dir (self s)) = Inr ps \<and> planned s live ps plan \<and>
     \<not> path_exists s (pack_dir (self s) @ [''.pack''])"

lemma planned_diskD:
  assumes "planned_disk s live ps plan"
  shows "wf_disk s" "packs_at s (pack_dir (self s)) = Inr ps" "planned s live ps plan"
    "\<not> path_exists s (pack_dir (self s) @ [''.pack''])"
  using assms by (simp_all add: planned_disk_def)

lemma packs_proper:
  assumes pd: "planned_disk s live ps plan" and "p \<in> set ps"
  shows "is_pack_path (pack_dir (self s)) p" and "path_exists s p"
proof -
  obtain name where p: "p = pack_dir (self s) @ [name]" and name: "is_pack_name name" and there: "path_exists s p"
    using mem_packs_at [OF planned_diskD(1,2) [OF pd]] assms(2) by blast
  obtain stem where stem: "name = stem @ ''.pack''"
    using name by (auto simp: is_pack_name_def elim: ends_withE)
  have "stem \<noteq> []"
    using planned_diskD(4) [OF pd] there p stem by auto
  with p name stem show "is_pack_path (pack_dir (self s)) p"
    unfolding is_pack_path_def by (intro exI [of _ stem]) simp
  show "path_exists s p" by (rule there)
qed

lemma removals_dirty:
  assumes pd: "planned_disk s live ps plan" and p: "p \<in> set (removals options plan)"
  shows "p \<in> set ps \<and> indexed s p \<and> \<not> healthy s live p"
proof -
  have "set (packs_to_remove plan @ map rewrite_pack (packs_to_rewrite plan)) =
      set (filter (\<lambda>p. indexed s p \<and> \<not> healthy s live p) ps)"
    using planned_diskD(3) [OF pd] unfolding planned_def by (intro mset_eq_setD) (elim conjE)
  moreover have "p \<in> set (packs_to_remove plan @ map rewrite_pack (packs_to_rewrite plan))"
    using p by (auto simp: removals_def split: if_splits)
  ultimately show ?thesis by auto
qed

lemma doomed_cases:
  assumes pd: "planned_disk s live ps plan" and q: "q \<in> doomed (self s) options plan"
  obtains (loose) h where "q = loose_at (root (self s)) h" "h \<in> loose_set s" "h \<notin> live" "path_exists s q"
  | (bare) "q \<in> set ps" "\<not> has_idx s q"
  | (stray) name where "q = pack_dir (self s) @ [name]" "ends_with (to_string_lossy name) ''.idx''"
      "\<not> path_exists s (with_extension q ''pack'')" "path_exists s q"
  | (pack) "q \<in> set (removals options plan)" "q \<in> set ps" "indexed s q"
  | (idx) p where "q = with_extension p ''idx''" "p \<in> set (removals options plan)" "p \<in> set ps" "indexed s p"
proof -
  consider "q \<in> loose_path (self s) ` set (loose_garbage plan)" | "q \<in> set (orphan_files plan)"
    | "q \<in> set (removals options plan)" | p where "q = with_extension p ''idx''" "p \<in> set (removals options plan)"
    using q unfolding doomed_def by blast
  then show thesis
  proof cases
    case 1
    then obtain h where h: "h \<in> set (loose_garbage plan)" "q = loose_path (self s) h" by blast
    have "set (loose_garbage plan) = loose_set s - live"
      using planned_diskD(3) [OF pd] by (simp add: planned_def loose_set_def)
    moreover have "\<forall>h \<in> loose_set s - live. path_exists s (loose_path (self s) h)"
      using planned_diskD(3) [OF pd] by (simp add: planned_def)
    ultimately show thesis
      using h loose [of h] by (auto simp: loose_path_eq)
  next
    case 2
    have "set (orphan_files plan) = set (filter (\<lambda>p. \<not> has_idx s p) ps @
        orphan_indices s (filter (indexed s) ps) (pack_dir (self s)))"
      using planned_diskD(3) [OF pd] by (simp add: planned_def)
    with 2 have "q \<in> set (filter (\<lambda>p. \<not> has_idx s p) ps @
        orphan_indices s (filter (indexed s) ps) (pack_dir (self s)))"
      by blast
    then show thesis
      by (rule mem_orphans [OF planned_diskD(1,2) [OF pd]]) (rule bare stray; assumption)+
  next
    case 3
    then show thesis using removals_dirty [OF pd] pack by blast
  next
    case 4
    then show thesis using removals_dirty [OF pd] idx by blast
  qed
qed

lemma doomed_exists:
  assumes pd: "planned_disk s live ps plan" and q: "q \<in> doomed (self s) options plan"
  shows "path_exists s q"
  by (rule doomed_cases [OF pd q]) (auto simp: packs_proper [OF pd] indexed_def has_idx_def)

lemma length_pack_path: "is_pack_path dir p \<Longrightarrow> length p = Suc (length dir) \<and> length (with_extension p ''idx'') = Suc (length dir)"
  by (auto simp: is_pack_path_def with_extension_def)

lemma doomed_length:
  assumes pd: "planned_disk s live ps plan" and q: "q \<in> doomed (self s) options plan"
  shows "length q = length (root (self s)) + 3"
  by (rule doomed_cases [OF pd q])
    (auto simp: loose_at_def pack_dir_def dest!: packs_proper(1) [OF pd] length_pack_path)

text \<open>A path of a store file that is not itself given up is outside the area of the sweep.\<close>

lemma outside_area:
  assumes pd: "planned_disk s live ps plan" and "q \<notin> doomed (self s) options plan" and "is_under (root (self s) @ [''objects'']) q"
    and "length q = length (root (self s)) + 3"
  shows "q \<notin> sweep_area (root (self s)) (doomed (self s) options plan)"
proof -
  have "p = q" if "p \<in> doomed (self s) options plan" "is_under p q" for p
    using doomed_length [OF pd that(1)] that(2) assms(4) by (simp add: is_under_def)
  with assms(2,3) show ?thesis
    unfolding sweep_area_def by blast
qed

text \<open>A pack of the directory that is not removed keeps both its files.\<close>

lemma is_pack_pathE:
  assumes "is_pack_path dir p"
  obtains stem where "stem \<noteq> []" "utf8_valid (stem @ ''.pack'')" "p = dir @ [stem @ ''.pack'']"
    "with_extension p ''idx'' = dir @ [stem @ ''.idx'']"
  using assms by (auto simp: is_pack_path_def is_pack_name_def pack_to_idx)

lemma pack_path_inj:
  assumes "is_pack_path dir p" and "is_pack_path dir q" and "with_extension p ''idx'' = with_extension q ''idx''"
  shows "p = q"
  using assms by (elim is_pack_pathE) simp

lemma lossy_pack_name: "utf8_valid (stem @ ''.pack'') \<Longrightarrow> \<not> ends_with (to_string_lossy (stem @ ''.pack'')) ''.idx''"
proof
  assume "utf8_valid (stem @ ''.pack'')" and idx: "ends_with (to_string_lossy (stem @ ''.pack'')) ''.idx''"
  then have "to_string_lossy (stem @ ''.pack'') = stem @ ''.pack''"
    by (simp add: to_string_lossy_def utf8_valid_def utf8_lossy_valid comp_def del: map_append)
  with idx obtain t where "stem @ ''.pack'' = t @ ''.idx''"
    by (auto elim: ends_withE)
  then show False by (simp add: pack_not_idx)
qed

lemma survivor_not_doomed:
  assumes pd: "planned_disk s live ps plan" and p: "is_pack_path (pack_dir (self s)) p"
    and there: "path_exists s p" "has_idx s p" and keep: "p \<notin> set (removals options plan)"
  shows "p \<notin> doomed (self s) options plan"
    and "with_extension p ''idx'' \<notin> doomed (self s) options plan"
proof -
  from p obtain stem where stem: "stem \<noteq> []" "utf8_valid (stem @ ''.pack'')"
    "p = pack_dir (self s) @ [stem @ ''.pack'']" "with_extension p ''idx'' = pack_dir (self s) @ [stem @ ''.idx'']"
    by (rule is_pack_pathE)
  have not_loose: "pack_dir (self s) @ [name] \<noteq> loose_at (root (self s)) h" for name h
    using loose_at_not_pack [of "root (self s)" h name, symmetric] by (simp add: pack_dir_def)
  show "p \<notin> doomed (self s) options plan"
  proof
    assume "p \<in> doomed (self s) options plan"
    with pd show False
    proof (cases rule: doomed_cases)
      case (stray name)
      with stem show False by (simp add: lossy_pack_name)
    next
      case (idx q)
      with packs_proper(1) [OF pd] stem show False
        by (metis append_eq_append_conv is_pack_pathE last_snoc pack_not_idx)
    qed (use there keep stem not_loose in auto)
  qed
  show "with_extension p ''idx'' \<notin> doomed (self s) options plan"
  proof
    assume "with_extension p ''idx'' \<in> doomed (self s) options plan"
    with pd show False
    proof (cases rule: doomed_cases)
      case (loose h)
      with not_loose stem(4) show False by metis
    next
      case bare
      then show False
        using packs_proper(1) [OF pd] stem(4) by (metis is_pack_pathE last_snoc pack_not_idx)
    next
      case (stray name)
      then show False
        using there(1) stem(1,3,4) by (simp add: idx_to_pack)
    next
      case pack
      then show False
        using packs_proper(1) [OF pd] stem(4) by (metis is_pack_pathE last_snoc pack_not_idx)
    next
      case (idx q)
      then show False
        using packs_proper(1) [OF pd] pack_path_inj [OF p] keep by metis
    qed
  qed
qed

section \<open>The whole execution\<close>

text \<open>
  Whatever happens, a run is phase 1, which changes only replacement paths, followed, when
  phase 1 came to its end, by removals inside the area of the doomed paths.
\<close>

lemma execute_plan_rest:
  "\<exists>k. execute_plan E options plan s = bindE (rewrite_phase E options (pack_dir (self s)) plan) k s \<and>
     (\<forall>x. changes_only (sweep_area (root (self s)) (doomed (self s) options plan)) (k x))"
proof -
  note phases = frames_loose_phase [OF order_refl] frames_orphan_phase [OF order_refl]
    frames_pack_phase [OF order_refl]
  note rest = phases [THEN confined_frames, THEN changes_only_disk]
  show ?thesis
    unfolding execute_plan_def bind_pure Let_def
    by (rule exI, rule conjI, rule refl, rule allI) (intro hoare rest)
qed

lemma execute_plan_steps:
  assumes codec: "codec_ok E"
    and there: "rewrites_exist s plan" and fresh: "fresh_replacements E s plan"
    and run: "execute_plan E options plan s = (res, t)"
  obtains (stopped) "store_step (all_replacements E s plan) s t"
  | (went) u where "store_step (all_replacements E s plan) s u"
      "rewrite_partial_packs options \<Longrightarrow> \<forall>rw \<in> set (packs_to_rewrite plan). replaced E s u rw"
      "store_step (sweep_area (root (self s)) (doomed (self s) options plan)) u t"
proof -
  let ?A = "sweep_area (root (self s)) (doomed (self s) options plan)"
  let ?phase1 = "rewrite_phase E options (pack_dir (self s)) plan"
  obtain q u where first: "?phase1 s = (q, u)"
    by (cases "?phase1 s")
  have ok: "q = Inr acc \<Longrightarrow> store_step (all_replacements E s plan) s u \<and>
      (rewrite_partial_packs options \<longrightarrow> (\<forall>rw \<in> set (packs_to_rewrite plan). replaced E s u rw))" for acc
    using first triple_ok [OF rewrite_loop [OF codec there fresh] refl]
    by (auto simp: rewrite_phase_def run_atoms split: if_splits)
  have err: "q = Inl e \<Longrightarrow> store_step (all_replacements E s plan) s u" for e
    using first triple_err [OF rewrite_loop [OF codec there fresh] refl]
    by (auto simp: rewrite_phase_def run_atoms split: if_splits)
  show thesis
  proof (cases q)
    case (Inl e)
    with run first have "t = u"
      by (simp add: execute_plan_def run_gets Let_def bindE_def)
    with err [OF Inl] show thesis by (intro stopped) simp
  next
    case (Inr acc)
    obtain k where k: "execute_plan E options plan s = bindE ?phase1 k s" and area: "changes_only ?A (k acc)"
      using execute_plan_rest by blast
    from k first Inr run have "k acc u = (res, t)"
      by (simp add: bindE_def)
    with area have "store_step ?A u t"
      by (rule upholdsD)
    with ok [OF Inr] show thesis
      by (intro went [of u]) simp_all
  qed
qed

section \<open>Live blobs\<close>

text \<open>
  The counted copies of live blobs are good: a listed loose digest has a readable file at its
  canonical path, a pack with an index serves the live objects it lists.
\<close>

definition sound_store :: "env \<Rightarrow> hash set \<Rightarrow> world \<Rightarrow> bool" where
  "sound_store E live s \<longleftrightarrow>
     wf_disk s \<and> \<not> path_exists s (pack_dir (self s) @ [''.pack'']) \<and>
     (\<forall>h \<in> live \<inter> loose_set s. \<exists>data. loose_serves E s (loose_at (root (self s)) h) h data) \<and>
     (\<forall>name. is_pack_name name \<longrightarrow> indexed s (pack_dir (self s) @ [name]) \<longrightarrow>
        (\<forall>h \<in> live \<inter> pack_hashes s (pack_dir (self s) @ [name]).
           \<exists>data. pack_serves E s (pack_dir (self s) @ [name]) h data))"

lemma sound_pack:
  assumes "sound_store E live s" and "is_pack_path (pack_dir (self s)) p" and "indexed s p"
    and "h \<in> live" and "h \<in> pack_hashes s p"
  shows "\<exists>data. pack_serves E s p h data"
  using assms unfolding sound_store_def is_pack_path_def by blast

lemma under_objects:
  "is_under (r @ [''objects'']) (loose_at r h)" "length (loose_at r h) = length r + 3"
  by (simp_all add: loose_at_def)

lemma pack_path_under:
  assumes "is_pack_path (pack_dir st) p"
  shows "is_under (root st @ [''objects'']) p" "length p = length (root st) + 3"
    "is_under (root st @ [''objects'']) (with_extension p ''idx'')"
    "length (with_extension p ''idx'') = length (root st) + 3"
  using assms by (auto elim!: is_pack_pathE simp: pack_dir_def)

lemma held_pack: "is_pack_path (pack_dir st) p \<Longrightarrow> pack_serves E d p h data \<Longrightarrow> held E d (root st) h data"
  by (auto simp: is_pack_path_def pack_dir_def held_def)

text \<open>Nothing that phase 1 writes is a loose file.\<close>

lemma loose_not_replacement: "loose_at (root (self s)) h \<notin> all_replacements E s plan"
  by (auto simp: all_replacements_def replacement_paths_def new_pack_paths_def pair_paths_def
      pack_dir_def split: sum.splits)

lemma loose_survives:
  assumes pd: "planned_disk s live ps plan" and live: "h \<in> live"
    and serves: "loose_serves E s (loose_at (root (self s)) h) h data"
    and u: "store_step (all_replacements E s plan) s u"
    and t: "store_step (sweep_area (root (self s)) (doomed (self s) options plan)) u t"
  shows "held E t (root (self s)) h data"
proof -
  let ?p = "loose_at (root (self s)) h"
  have shape: "?p \<noteq> pack_dir (self s) @ [name]" for name
    using loose_at_not_pack [of "root (self s)" h name] by (simp add: pack_dir_def)
  have "?p \<notin> doomed (self s) options plan"
  proof
    assume "?p \<in> doomed (self s) options plan"
    with pd show False
    proof (cases rule: doomed_cases)
      case (idx p)
      with packs_proper(1) [OF pd] shape show False by (metis is_pack_pathE)
    next
      case bare
      with packs_proper(1) [OF pd] shape show False by (metis is_pack_pathE)
    next
      case pack
      with packs_proper(1) [OF pd] shape show False by (metis is_pack_pathE)
    qed (use live shape in auto)
  qed
  then have "?p \<notin> sweep_area (root (self s)) (doomed (self s) options plan)"
    by (rule outside_area [OF pd _ under_objects])
  then have "loose_serves E t ?p h data"
    using serves loose_serves_step [OF u loose_not_replacement] loose_serves_step [OF t] by simp
  then show ?thesis by (simp add: held_def)
qed

lemma pack_survives:
  assumes pd: "planned_disk s live ps plan" and fresh: "fresh_replacements E s plan"
    and p: "is_pack_path (pack_dir (self s)) p" and keep: "p \<notin> set (removals options plan)"
    and serves: "pack_serves E s p h data"
    and u: "store_step (all_replacements E s plan) s u"
    and t: "store_step (sweep_area (root (self s)) (doomed (self s) options plan)) u t"
  shows "held E t (root (self s)) h data"
proof -
  have there: "path_exists s p" "has_idx s p"
    using pack_serves_exists [OF serves] by simp_all
  note safe = survivor_not_doomed [OF pd p there keep]
  have "pack_serves E u p h data"
    using serves fresh_not_there [OF fresh] there
    by (simp add: pack_serves_step [OF u] has_idx_def)
  moreover have "p \<notin> sweep_area (root (self s)) (doomed (self s) options plan)"
    "with_extension p ''idx'' \<notin> sweep_area (root (self s)) (doomed (self s) options plan)"
    using safe pack_path_under [OF p] by (simp_all add: outside_area [OF pd])
  ultimately have "pack_serves E t p h data"
    by (simp add: pack_serves_step [OF t])
  with p show ?thesis by (rule held_pack)
qed

lemma replaced_survives:
  assumes pd: "planned_disk s live ps plan" and fresh: "fresh_replacements E s plan"
    and rw: "rw \<in> set (packs_to_rewrite plan)" and h: "h \<in> set (keep rw)"
    and new: "replaced E s u rw"
    and t: "store_step (sweep_area (root (self s)) (doomed (self s) options plan)) u t"
  shows "\<exists>data. held E t (root (self s)) h data"
proof -
  obtain p data where p: "is_pack_path (pack_dir (self s)) p"
    and sub: "set (replacement_paths E s (pack_dir (self s)) rw) = {p, with_extension p ''idx''}"
    and serves: "pack_serves E u p h data"
    using new h unfolding replaced_def by blast
  have "\<not> path_exists s p" "\<not> path_exists s (with_extension p ''idx'')"
    using fresh rw sub by (auto simp: fresh_replacements_def)
  then have "p \<notin> doomed (self s) options plan" "with_extension p ''idx'' \<notin> doomed (self s) options plan"
    using doomed_exists [OF pd] by blast+
  then have "p \<notin> sweep_area (root (self s)) (doomed (self s) options plan)"
    "with_extension p ''idx'' \<notin> sweep_area (root (self s)) (doomed (self s) options plan)"
    using pack_path_under [OF p] by (simp_all add: outside_area [OF pd])
  with serves have "pack_serves E t p h data"
    by (simp add: pack_serves_step [OF t])
  with p show ?thesis by (blast intro: held_pack)
qed

lemma held_is_pack_path:
  assumes "sound_store E live s" and "is_pack_name name" and "path_exists s (pack_dir (self s) @ [name])"
  shows "is_pack_path (pack_dir (self s)) (pack_dir (self s) @ [name])"
proof -
  obtain stem where stem: "name = stem @ ''.pack''"
    using assms(2) by (auto simp: is_pack_name_def elim: ends_withE)
  have "stem \<noteq> []"
    using assms(1,3) stem by (auto simp: sound_store_def)
  with assms(2) stem show ?thesis
    unfolding is_pack_path_def by (intro exI [of _ stem]) simp
qed

lemma planned_rewrites:
  assumes pd: "planned_disk s live ps plan" and rw: "rw \<in> set (packs_to_rewrite plan)"
  shows "rewrite_pack rw \<in> set ps" and "indexed s (rewrite_pack rw)"
    and "rewrite_pack rw \<notin> set (packs_to_remove plan)"
    and "set (keep rw) \<subseteq> pack_hashes s (rewrite_pack rw) \<inter> live"
proof -
  let ?dirty = "filter (\<lambda>p. indexed s p \<and> \<not> healthy s live p) ps"
  have perm: "mset (packs_to_remove plan @ map rewrite_pack (packs_to_rewrite plan)) = mset ?dirty"
    using planned_diskD(3) [OF pd] unfolding planned_def by (elim conjE)
  have "distinct ?dirty"
    using distinct_packs_at [OF planned_diskD(1,2) [OF pd]] by simp
  then have "distinct (packs_to_remove plan @ map rewrite_pack (packs_to_rewrite plan))"
    using perm by (metis mset_eq_imp_distinct_iff)
  then show "rewrite_pack rw \<notin> set (packs_to_remove plan)"
    using rw by auto
  have "rewrite_pack rw \<in> set ?dirty"
    using mset_eq_setD [OF perm] rw by auto
  then show "rewrite_pack rw \<in> set ps" and "indexed s (rewrite_pack rw)"
    by simp_all
  show "set (keep rw) \<subseteq> pack_hashes s (rewrite_pack rw) \<inter> live"
    using planned_diskD(3) [OF pd] rw unfolding planned_def by blast
qed

lemma planned_rewrites_exist: "planned_disk s live ps plan \<Longrightarrow> rewrites_exist s plan"
  by (auto simp: rewrites_exist_def indexed_def dest: planned_rewrites packs_proper(2))

text \<open>A live blob whose pack is given up has a copy that the coverage rule counted.\<close>

lemma covered_survives:
  assumes pd: "planned_disk s live ps plan" and sound: "sound_store E live s"
    and fresh: "fresh_replacements E s plan" and live: "h \<in> live"
    and p: "p \<in> set ps" "indexed s p" "h \<in> pack_hashes s p"
    and u: "store_step (all_replacements E s plan) s u"
    and new: "rewrite_partial_packs options \<Longrightarrow> \<forall>rw \<in> set (packs_to_rewrite plan). replaced E s u rw"
    and t: "store_step (sweep_area (root (self s)) (doomed (self s) options plan)) u t"
  shows "\<exists>data. held E t (root (self s)) h data"
proof -
  have keep: "\<exists>data. held E t (root (self s)) h data"
    if "q \<in> set ps" "indexed s q" "h \<in> pack_hashes s q" "q \<notin> set (removals options plan)" for q
    using sound_pack [OF sound packs_proper(1) [OF pd that(1)] that(2) live that(3)]
      pack_survives [OF pd fresh packs_proper(1) [OF pd that(1)] that(4) _ u t] by blast
  have "h \<in> loose_set s \<union> packed_set s ps"
    using p by (auto simp: packed_set_def)
  then consider "h \<in> loose_set s" | "h \<in> packed_set s (filter (healthy s live) ps)"
    | rw where "rw \<in> set (packs_to_rewrite plan)" "h \<in> set (keep rw)"
    using live planned_diskD(3) [OF pd] unfolding planned_def by blast
  then show ?thesis
  proof cases
    case 1
    then obtain data where "loose_serves E s (loose_at (root (self s)) h) h data"
      using sound live unfolding sound_store_def by blast
    from loose_survives [OF pd live this u t] show ?thesis ..
  next
    case 2
    then obtain q where "q \<in> set ps" "healthy s live q" "indexed s q" "h \<in> pack_hashes s q"
      by (auto simp: packed_set_def)
    moreover from this have "q \<notin> set (removals options plan)"
      using removals_dirty [OF pd] by blast
    ultimately show ?thesis by (intro keep)
  next
    case (3 rw)
    show ?thesis
    proof (cases "rewrite_partial_packs options")
      case True
      with 3 new show ?thesis
        by (intro replaced_survives [OF pd fresh _ _ _ t]) blast+
    next
      case False
      then have "rewrite_pack rw \<notin> set (removals options plan)"
        using planned_rewrites(3) [OF pd 3(1)] by (simp add: removals_def)
      with planned_rewrites [OF pd 3(1)] 3(2) show ?thesis
        by (intro keep [of "rewrite_pack rw"]) blast+
    qed
  qed
qed

lemma execute_plan_keeps_live:
  assumes codec: "codec_ok E"
    and pd: "planned_disk s live ps plan" and sound: "sound_store E live s"
    and fresh: "fresh_replacements E s plan" and live: "h \<in> live"
    and held: "held E s (root (self s)) h data"
    and run: "execute_plan E options plan s = (res, t)"
  shows "\<exists>data'. held E t (root (self s)) h data'"
proof -
  have copies: "loose_serves E s (loose_at (root (self s)) h) h data \<or>
      (\<exists>p. is_pack_path (pack_dir (self s)) p \<and> pack_serves E s p h data)"
    using held held_is_pack_path [OF sound] pack_serves_exists
    unfolding held_def by (fastforce simp: pack_dir_def)
  from codec planned_rewrites_exist [OF pd] fresh run show ?thesis
  proof (cases rule: execute_plan_steps)
    case stopped
    have "loose_serves E t (loose_at (root (self s)) h) h data = loose_serves E s (loose_at (root (self s)) h) h data"
      by (rule loose_serves_step [OF stopped loose_not_replacement])
    moreover have "pack_serves E t p h data" if "pack_serves E s p h data" for p
      using that pack_serves_exists [OF that] fresh_not_there [OF fresh]
      by (simp add: pack_serves_step [OF stopped] has_idx_def)
    moreover have "loose_serves E t (loose_at (root (self s)) h) h data \<Longrightarrow> held E t (root (self s)) h data"
      by (simp add: held_def)
    ultimately show ?thesis
      using copies held_pack by blast
  next
    case (went u)
    from copies show ?thesis
    proof (elim disjE exE conjE)
      assume "loose_serves E s (loose_at (root (self s)) h) h data"
      from loose_survives [OF pd live this went(1,3)] show ?thesis ..
    next
      fix p
      assume p: "is_pack_path (pack_dir (self s)) p" and serves: "pack_serves E s p h data"
      show ?thesis
      proof (cases "p \<in> set (removals options plan)")
        case True
        with removals_dirty [OF pd] pack_serves_mem [OF serves] show ?thesis
          by (intro covered_survives [OF pd sound fresh live _ _ _ went]) blast+
      next
        case False
        from pack_survives [OF pd fresh p this serves went(1,3)] show ?thesis ..
      qed
    qed
  qed
qed

lemma sweep_cases:
  assumes "sweep E live options s = (res, t)"
  obtains (unplanned) e where "plan_sweep live s = (Inl e, s)" "res = Inl e" "t = s"
  | (dry) plan where "plan_sweep live s = (Inr plan, s)" "mode options = DryRun" "t = s"
      "res = Inr \<lparr>report_plan = plan, report_mode = DryRun, executed = False, loose_removed = 0,
            packs_removed = 0, packs_rewritten = 0, bytes_reclaimed = 0, trash = None\<rparr>"
  | (live) plan where "plan_sweep live s = (Inr plan, s)" "mode options \<noteq> DryRun"
      "execute_plan E options plan s = (res, t)"
proof -
  obtain q where plan: "plan_sweep live s = (q, s)"
    by (metis reads_plan_sweep readsD surj_pair)
  show thesis
  proof (cases q)
    case (Inl e)
    with assms plan show thesis
      by (intro unplanned [of e]) (auto simp: sweep_def bindE_def)
  next
    case (Inr p)
    show thesis
    proof (cases "mode options = DryRun")
      case True
      with assms plan Inr show thesis
        by (intro dry [of p]) (auto simp: sweep_def bindE_def run_atoms)
    next
      case False
      with assms plan Inr show thesis
        by (intro live [of p]) (auto simp: sweep_def bindE_def)
    qed
  qed
qed

lemma sweep_keeps_held:
  assumes "codec_ok E" and "sound_store E live s"
    and "\<forall>plan. plan_sweep live s = (Inr plan, s) \<longrightarrow> fresh_replacements E s plan"
    and "h \<in> live" and "held E s (root (self s)) h data"
    and "sweep E live options s = (res, t)"
  shows "\<exists>data'. held E t (root (self s)) h data' \<and> hash_bytes E data' = h"
proof -
  from assms(6) have "\<exists>data'. held E t (root (self s)) h data'"
  proof (cases rule: sweep_cases)
    case (live plan)
    obtain ps where "packs_at s (pack_dir (self s)) = Inr ps" "planned s live ps plan"
      using plan_sweep_ok [OF live(1)] assms(2) by (auto simp: sound_store_def)
    with assms(2) have "planned_disk s live ps plan"
      by (simp add: planned_disk_def sound_store_def)
    with assms live show ?thesis
      by (blast intro: execute_plan_keeps_live)
  qed (use assms(5) in auto)
  then show ?thesis
    using held_hash by blast
qed

end
