(* ===== verification/Toy.thy ===== *)
theory Toy
  imports GcSafety
begin

text \<open>
  Small concrete environments and disks, on which the theorems are applied. The hash function
  pads or cuts the data to 32 bytes, the compressor puts the zstd magic before the data; both
  satisfy the documented behaviour that the theorems ask of BLAKE3 and zstd.
\<close>

definition toy_env :: "bool \<Rightarrow> env" where
  "toy_env z =
     \<lparr>feature_zstd = z, blake3_hash = hash_of, blake3_stream = (\<lambda>cs. hash_of (concat cs)),
      blake3_derive_key = (\<lambda>c d. d), blake3_keyed = (\<lambda>k d. hash_of (k @ d)),
      zstd_encode = (\<lambda>l d. Inr (ZSTD_MAGIC @ d)), zstd_open = (\<lambda>f. None),
      zstd_read = (\<lambda>f i. Inr (if i = 0 then drop 4 f else [])), read_limit = (\<lambda>i. 65536),
      io_text = (\<lambda>e. ''io''), map_order = (\<lambda>ps. ps)\<rparr>"

lemma toy_hash [simp]: "hash_bytes (toy_env z) data = hash_of data"
  by (simp add: hash_bytes_def from_data_def toy_env_def)

lemma toy_feature [simp]: "feature_zstd (toy_env z) = z"
  by (simp add: toy_env_def)

lemma toy_streaming: "streaming_hash (toy_env z)"
  by (simp add: streaming_hash_def toy_env_def)

lemma toy_map_order: "map_order_ok (toy_env z)"
  by (simp add: map_order_ok_def toy_env_def)

lemma toy_lossless: "zstd_lossless (toy_env z)"
  unfolding zstd_lossless_def
proof (intro allI impI)
  fix level data frame
  assume "zstd_encode (toy_env z) level data = Inr frame"
  then have frame: "frame = ZSTD_MAGIC @ data"
    by (simp add: toy_env_def)
  then have "zstd_yields (toy_env z) frame (if data = [] then [] else [data])"
    by (simp add: zstd_yields_def toy_env_def ZSTD_MAGIC_def)
  then show "\<exists>chunks. zstd_yields (toy_env z) frame chunks \<and> concat chunks = data"
    by (cases "data = []") auto
qed

lemma toy_frames: "zstd_frames (toy_env z)"
  by (auto simp: zstd_frames_def toy_env_def ZSTD_MAGIC_def)

lemma toy_codec: "codec_ok (toy_env z)"
  by (simp add: codec_ok_def toy_lossless toy_frames)

definition toy_store :: "bool \<Rightarrow> blob_store" where
  "toy_store c = \<lparr>root = [''r''], compress = c, compression_level = 3, verify_on_read = True,
    store_packs = Mutex False None, blob_cache = Mutex False [], known_dirs = Mutex False {}\<rparr>"

definition toy_dirs :: "(path \<times> node) list" where
  "toy_dirs = [([''r''], Dir), ([''r'', ''objects''], Dir), ([''r'', ''objects'', ''pack''], Dir)]"

definition toy_world :: "bool \<Rightarrow> (path \<times> node) list \<Rightarrow> world" where
  "toy_world c ns = \<lparr>nodes = toy_dirs @ ns, pending = [], dir_len = 0, self = toy_store c\<rparr>"

lemma toy_fields [simp]:
  "self (toy_world c ns) = toy_store c" "nodes (toy_world c ns) = toy_dirs @ ns"
  "pending (toy_world c ns) = []" "verify_on_read (toy_store c)" "compress (toy_store c) = c"
  "blob_cache (toy_store c) = Mutex False []" "known_dirs (toy_store c) = Mutex False {}"
  "store_packs (toy_store c) = Mutex False None" "compression_level (toy_store c) = 3"
  by (simp_all add: toy_world_def toy_store_def)

definition toy_torn :: "io_fault list \<Rightarrow> world" where
  "toy_torn fs = (toy_world False [])\<lparr>pending := fs\<rparr>"

section \<open>A pack of two objects\<close>

definition toy_objects :: "(hash \<times> bytes) list" where
  "toy_objects = [(hash_of [1], [1]), (hash_of [2], [2])]"

definition toy_pd :: bytes where
  "toy_pd = pack_header toy_objects @ object_bytes (hash_of [1]) [1] [1] @ object_bytes (hash_of [2]) [2] [2]"

definition toy_ies :: "pack_index_entry list" where
  "toy_ies = [\<lparr>entry_hash = hash_of [1], entry_offset = 12\<rparr>, \<lparr>entry_hash = hash_of [2], entry_offset = 54\<rparr>]"

lemma toy_hashes [simp]:
  "hash_of [a] = hash_of [b] \<longleftrightarrow> a = b"
  by (simp add: digest_inject [symmetric] digest_hash_of)

lemma length_pack_parts [simp]:
  "length (pack_header objects) = 12" "length (object_bytes h data c) = 41 + length c"
  by (simp_all add: pack_header_def object_bytes_def PACK_MAGIC_def)

lemma toy_payload [simp]: "encode_payload (toy_env False) data = Inr data"
  by (simp add: encode_payload_def)

lemma toy_image: "pack_objects (toy_env False) toy_objects (pack_header toy_objects) [] = Inr (toy_pd, toy_ies)"
  by (simp add: toy_objects_def toy_pd_def toy_ies_def)

lemma toy_packable: "packable (toy_env False) toy_objects"
  unfolding packable_simps toy_image by (auto simp: toy_objects_def toy_pd_def)

section \<open>A store with a partial pack\<close>

text \<open>
  The pack \<open>p\<close> holds the blobs 1 and 2, and 3 and 4 are loose; 1 and 3 are live.
\<close>

definition toy_live :: "hash set" where
  "toy_live = {hash_of [1], hash_of [3]}"

definition toy_pack_path :: path where
  "toy_pack_path = [''r'', ''objects'', ''pack'', ''p.pack'']"

definition toy_idx_path :: path where
  "toy_idx_path = [''r'', ''objects'', ''pack'', ''p.idx'']"

definition toy_gc :: world where
  "toy_gc = toy_world False
     [(toy_pack_path, File toy_pd), (toy_idx_path, File (serialize_index toy_ies)),
      ([''r'', ''objects'', ''03''], Dir), (loose_at [''r''] (hash_of [3]), File [3]),
      ([''r'', ''objects'', ''04''], Dir), (loose_at [''r''] (hash_of [4]), File [4])]"

lemma toy_buckets: "take 2 (to_hex (hash_of [3])) = ''03''" "take 2 (to_hex (hash_of [4])) = ''04''"
  by code_simp+

lemma toy_loose_at:
  "loose_at [''r''] (hash_of [3]) = [''r'', ''objects'', ''03'', drop 2 (to_hex (hash_of [3]))]"
  "loose_at [''r''] (hash_of [4]) = [''r'', ''objects'', ''04'', drop 2 (to_hex (hash_of [4]))]"
  by (simp_all add: loose_at_def toy_buckets)

lemma toy_gc_self [simp]: "self toy_gc = toy_store False" "root (toy_store c) = [''r'']"
  "pending toy_gc = []"
  by (simp_all add: toy_gc_def toy_world_def toy_store_def)

lemma toy_dir [simp]: "pack_dir (toy_store c) = [''r'', ''objects'', ''pack'']"
  "objects_dir (toy_store c) = [''r'', ''objects'']"
  by (simp_all add: pack_dir_def objects_dir_def)

lemma toy_gc_nodes: "nodes toy_gc = toy_dirs @
     [(toy_pack_path, File toy_pd), (toy_idx_path, File (serialize_index toy_ies)),
      ([''r'', ''objects'', ''03''], Dir),
      ([''r'', ''objects'', ''03'', drop 2 (to_hex (hash_of [3]))], File [3]),
      ([''r'', ''objects'', ''04''], Dir),
      ([''r'', ''objects'', ''04'', drop 2 (to_hex (hash_of [4]))], File [4])]"
  by (simp add: toy_gc_def toy_world_def toy_loose_at)

lemmas toy_paths = toy_gc_nodes toy_dirs_def toy_pack_path_def toy_idx_path_def

lemma toy_gc_wf: "wf_disk toy_gc"
  by (simp add: wf_disk_def toy_paths)

lemma toy_pack_with_idx: "with_extension toy_pack_path ''idx'' = toy_idx_path"
  using pack_to_idx [of "''p''" "[''r'', ''objects'', ''pack'']"]
  by (simp add: toy_pack_path_def toy_idx_path_def)

lemma toy_node_at:
  "node_at toy_gc toy_pack_path = Some (File toy_pd)"
  "node_at toy_gc toy_idx_path = Some (File (serialize_index toy_ies))"
  "node_at toy_gc [''r'', ''objects'', ''pack''] = Some Dir" "node_at toy_gc [''r'', ''objects''] = Some Dir"
  by (simp_all add: node_at_def toy_paths)

lemma toy_pack_serves: "(h, data) \<in> set toy_objects \<Longrightarrow> pack_serves (toy_env False) toy_gc toy_pack_path h data"
  by (rule pack_files_serve [OF _ toy_packable toy_image])
    (simp_all add: toy_node_at toy_pack_with_idx)

lemma toy_idx: "idx_of toy_gc toy_pack_path = Inr \<lparr>entries = toy_ies\<rparr>"
proof -
  have "sort_key entry_hash toy_ies = toy_ies"
    by (simp add: toy_ies_def less_eq_hash_def digest_hash_of)
  moreover have "length toy_ies < 2 ^ 32"
    by (simp add: toy_ies_def)
  ultimately have "PackIndex_parse (serialize_index toy_ies @ []) = (Inr \<lparr>entries = toy_ies\<rparr>, [])"
    by (simp only: PackIndex_parse_serialize)
  then show ?thesis
    by (simp add: idx_of_def index_at_ok toy_pack_with_idx toy_node_at)
qed

lemma toy_pack_hashes: "pack_hashes toy_gc toy_pack_path = {hash_of [1], hash_of [2]}"
  by (simp add: pack_hashes_def toy_idx PackIndex_hashes_def toy_ies_def)

lemma toy_packs: "packs_at toy_gc [''r'', ''objects'', ''pack''] = Inr [toy_pack_path]"
proof -
  have "utf8_valid ''p.pack''" "ends_with ''p.pack'' ''.pack''" "\<not> ends_with ''p.idx'' ''.pack''"
    by code_simp+
  then show ?thesis
    by (simp add: packs_at_cases toy_node_at children_def toy_paths)
qed

lemma toy_loose_files: "loose_files toy_gc [''r'', ''objects''] =
    [(''03'', drop 2 (to_hex (hash_of [3]))), (''04'', drop 2 (to_hex (hash_of [4])))]"
  by (simp add: loose_files_def bucket_files_def children_def toy_paths)

lemma toy_named: "named_hash (''03'', drop 2 (to_hex (hash_of [3]))) = Some (hash_of [3])"
  "named_hash (''04'', drop 2 (to_hex (hash_of [4]))) = Some (hash_of [4])"
  using named_hash_canonical [of "hash_of [3]"] named_hash_canonical [of "hash_of [4]"]
  by (simp_all add: toy_buckets)

lemma toy_loose_set: "loose_set toy_gc = {hash_of [3], hash_of [4]}"
  by (auto simp: loose_set_def loose_hashes_def toy_node_at toy_loose_files List.map_filter_simps toy_named)

lemma toy_loose_serves: "loose_serves (toy_env False) toy_gc (loose_at [''r''] (hash_of [3])) (hash_of [3]) [3]"
  by (simp add: loose_serves_def toy_loose_at node_at_def toy_paths unpack_loose_def is_zstd_compressed_def)

lemma toy_indexed_only:
  assumes "is_pack_name name" and "indexed toy_gc [''r'', ''objects'', ''pack'', name]"
  shows "[''r'', ''objects'', ''pack'', name] = toy_pack_path"
proof -
  obtain stem where stem: "name = stem @ ''.pack''"
    using assms(1) by (auto simp: is_pack_name_def elim: ends_withE)
  have "path_exists toy_gc (with_extension [''r'', ''objects'', ''pack'', name] ''idx'')"
    using assms(2) by (simp add: indexed_def has_idx_def)
  moreover have "with_extension [''r'', ''objects'', ''pack'', name] ''idx'' =
      [''r'', ''objects'', ''pack'', file_stem name @ ''.idx'']"
    by (simp add: with_extension_def)
  ultimately have "file_stem name @ ''.idx'' \<in> {''p.pack'', ''p.idx''}"
    by (auto simp: path_exists_def node_at_def toy_paths split: if_splits)
  then have "file_stem name @ ''.idx'' = ''p'' @ ''.idx''"
    using pack_not_idx [of "''p''" "file_stem name"] by auto
  then have "file_stem name = ''p''"
    by (rule append_same_eq [THEN iffD1])
  moreover have "file_stem (stem @ ''.pack'') = stem" if "stem \<noteq> []"
    using that file_stem_dot [of stem "''pack''"] by simp
  moreover have "file_stem ''.pack'' = ''.pack''"
    by code_simp
  ultimately have "stem = ''p''"
    using stem by (cases "stem = []") simp_all
  with stem show ?thesis by (simp add: toy_pack_path_def)
qed

lemma toy_sound: "sound_store (toy_env False) toy_live toy_gc"
  unfolding sound_store_def
proof (intro conjI)
  show "\<not> path_exists toy_gc (pack_dir (self toy_gc) @ [''.pack''])"
    by (simp add: path_exists_def node_at_def toy_paths)
  show "\<forall>h \<in> toy_live \<inter> loose_set toy_gc.
      \<exists>data. loose_serves (toy_env False) toy_gc (loose_at (root (self toy_gc)) h) h data"
    using toy_loose_serves by (auto simp: toy_loose_set toy_live_def)
  have "\<exists>data. pack_serves (toy_env False) toy_gc toy_pack_path h data" if "h \<in> {hash_of [1], hash_of [2]}" for h
    using that toy_pack_serves by (auto simp: toy_objects_def)
  with toy_pack_hashes have serves: "\<forall>h \<in> toy_live \<inter> pack_hashes toy_gc toy_pack_path.
      \<exists>data. pack_serves (toy_env False) toy_gc toy_pack_path h data"
    by blast
  show "\<forall>name. is_pack_name name \<longrightarrow> indexed toy_gc (pack_dir (self toy_gc) @ [name]) \<longrightarrow>
      (\<forall>h \<in> toy_live \<inter> pack_hashes toy_gc (pack_dir (self toy_gc) @ [name]).
        \<exists>data. pack_serves (toy_env False) toy_gc (pack_dir (self toy_gc) @ [name]) h data)"
  proof (intro allI impI)
    fix name
    assume "is_pack_name name" "indexed toy_gc (pack_dir (self toy_gc) @ [name])"
    then have "pack_dir (self toy_gc) @ [name] = toy_pack_path"
      using toy_indexed_only by simp
    with serves show "\<forall>h \<in> toy_live \<inter> pack_hashes toy_gc (pack_dir (self toy_gc) @ [name]).
        \<exists>data. pack_serves (toy_env False) toy_gc (pack_dir (self toy_gc) @ [name]) h data"
      by (simp only:)
  qed
qed (rule toy_gc_wf)

text \<open>The plan of a sweep of this store: the pack is rewritten with the blob 1.\<close>

lemma toy_planned:
  assumes "plan_sweep toy_live toy_gc = (Inr plan, toy_gc)"
  shows "planned_disk toy_gc toy_live [toy_pack_path] plan"
proof -
  obtain ps where "packs_at toy_gc (pack_dir (self toy_gc)) = Inr ps" "planned toy_gc toy_live ps plan"
    using plan_sweep_ok [OF assms toy_gc_wf] by blast
  then show ?thesis
    using toy_sound toy_packs by (simp add: planned_disk_def sound_store_def)
qed

lemma toy_rewrite:
  assumes plan: "plan_sweep toy_live toy_gc = (Inr plan, toy_gc)"
  shows "packs_to_rewrite plan \<in> {[], [\<lparr>rewrite_pack = toy_pack_path, keep = [hash_of [1]]\<rparr>]}"
proof -
  note pd = toy_planned [OF plan]
  have facts: "mset (packs_to_remove plan @ map rewrite_pack (packs_to_rewrite plan)) \<subseteq># mset [toy_pack_path]"
    "\<forall>rw \<in> set (packs_to_rewrite plan). keep rw \<noteq> []" "distinct (concat (map keep (packs_to_rewrite plan)))"
    using planned_diskD(3) [OF pd] unfolding planned_def by (auto simp: multiset_filter_subset)
  then have "length (packs_to_rewrite plan) \<le> 1"
    using size_mset_mono by fastforce
  moreover have "keep rw = [hash_of [1]] \<and> rewrite_pack rw = toy_pack_path" if "rw \<in> set (packs_to_rewrite plan)" for rw
  proof -
    have "set (keep rw) \<subseteq> {hash_of [1]}" "rewrite_pack rw = toy_pack_path"
      using planned_rewrites(1,4) [OF pd that] toy_pack_hashes by (auto simp: toy_live_def)
    moreover have "distinct (keep rw)" and "keep rw \<noteq> []"
      using facts(2,3) that by (auto simp: distinct_concat_iff)
    ultimately show ?thesis
      by (cases "keep rw"; cases "tl (keep rw)") auto
  qed
  ultimately show ?thesis
    by (cases "packs_to_rewrite plan") (auto intro: pack_rewrite.equality)
qed

lemma toy_replacement:
  "replacement (toy_env False) toy_gc \<lparr>rewrite_pack = toy_pack_path, keep = [hash_of [1]]\<rparr> =
     Inr [(hash_of [1], [1])]"
proof -
  have "pack_serves (toy_env False) toy_gc toy_pack_path (hash_of [1]) [1]"
    by (rule toy_pack_serves) (simp add: toy_objects_def)
  then have "blob_in_pack (toy_env False) toy_gc toy_pack_path \<lparr>entries = toy_ies\<rparr> (hash_of [1]) = Inr [1]"
    using toy_idx by (auto simp: pack_serves_def idx_of_def)
  then show ?thesis
    by (simp add: replacement_def toy_idx)
qed

lemma toy_single:
  "packable (toy_env False) [(hash_of [1], [1])]"
  "new_pack_paths (toy_env False) dir [(hash_of [1], [1])] =
     pair_paths (toy_env False) dir [\<lparr>entry_hash = hash_of [1], entry_offset = 12\<rparr>]"
  by (simp_all add: packable_simps new_pack_paths_def)

lemma toy_new_absent:
  "q \<in> set (pair_paths (toy_env False) [''r'', ''objects'', ''pack''] ies) \<Longrightarrow> \<not> path_exists toy_gc q"
  by (auto simp: pair_paths_def path_exists_def node_at_def toy_paths pack_name_def)

lemma distinct_pair_paths [simp]: "distinct (pair_paths E dir ies)"
  by (simp add: pair_paths_def)

lemma toy_fresh: "\<forall>plan. plan_sweep toy_live toy_gc = (Inr plan, toy_gc) \<longrightarrow>
    fresh_replacements (toy_env False) toy_gc plan"
proof (intro allI impI)
  fix plan
  assume "plan_sweep toy_live toy_gc = (Inr plan, toy_gc)"
  then consider "packs_to_rewrite plan = []"
    | "packs_to_rewrite plan = [\<lparr>rewrite_pack = toy_pack_path, keep = [hash_of [1]]\<rparr>]"
    using toy_rewrite by blast
  then show "fresh_replacements (toy_env False) toy_gc plan"
  proof cases
    case 2
    then show ?thesis
      by (simp add: fresh_replacements_def replacement_paths_def toy_replacement toy_single toy_new_absent)
  qed (simp add: fresh_replacements_def)
qed

end
