(* ===== verification/FormatSpec.thy ===== *)
theory FormatSpec
  imports Toy
begin

text \<open>
  The properties of the content addresses, the codec and the pack format, each with a witness
  where it has hypotheses.
\<close>

section \<open>Content addresses\<close>

lemma hex_digit_cases:
  assumes "c \<in> set HEX_CHARS"
  obtains n where "n < 16" and "c = HEX_CHARS ! n"
proof -
  have "length HEX_CHARS = 16"
    by (simp add: HEX_CHARS_def)
  with assms that show thesis
    unfolding in_set_conv_nth by metis
qed

lemma hex_of_parsed:
  assumes "a \<in> set HEX_CHARS" and "b \<in> set HEX_CHARS"
  shows "\<exists>w. u8_from_str_radix16 [a, b] = Some w \<and> hex_of_byte w = [a, b]"
proof -
  obtain m n where m: "m < 16" "a = HEX_CHARS ! m" and n: "n < 16" "b = HEX_CHARS ! n"
    using assms by (elim hex_digit_cases)
  define w where "w = (word_of_nat (m * 16 + n) :: u8)"
  have unat_w: "unat w = m * 16 + n"
    using m(1) n(1) unfolding w_def by (intro unat_u8_of_nat) simp
  have "u8_from_str_radix16 [a, b] = Some w"
    using m n
    by (simp add: w_def u8_from_str_radix16_def HEX_CHARS_not_plus hex_digit_HEX_CHARS del: One_nat_def)
  moreover have "hex_of_byte w = [a, b]"
    using m n by (simp add: hex_of_byte_def unat_high_nibble unat_low_nibble unat_w)
  ultimately show ?thesis by blast
qed

lemma parse_chunks_canonical:
  "even (length s) \<Longrightarrow> set s \<subseteq> set HEX_CHARS \<Longrightarrow>
     \<exists>bs. parse_chunks s = Some bs \<and> concat (map hex_of_byte bs) = s"
proof (induction s rule: parse_chunks.induct)
  case (1 a b cs)
  then obtain bs where bs: "parse_chunks cs = Some bs" "concat (map hex_of_byte bs) = cs"
    using hex_of_parsed [of a b] by auto
  obtain w where "u8_from_str_radix16 [a, b] = Some w" "hex_of_byte w = [a, b]"
    using hex_of_parsed [of a b] 1 by auto
  with bs show ?case by (intro exI [of _ "w # bs"]) simp
qed simp_all

text \<open>
  C30. The hex text form is a round trip: the canonical text of a digest parses to it, and a text
  of lowercase hex digits that parses to a digest is its canonical text.
\<close>

theorem from_hex_canonical: "from_hex s = Inr h \<and> set s \<subseteq> set HEX_CHARS \<longleftrightarrow> s = to_hex h"
proof
  assume s: "from_hex s = Inr h \<and> set s \<subseteq> set HEX_CHARS"
  then have len: "length s = 64"
    by (auto simp: from_hex_def split: if_splits)
  obtain bs where bs: "parse_chunks s = Some bs" "concat (map hex_of_byte bs) = s"
    using parse_chunks_canonical [of s] s len by auto
  then have "length bs = 32"
    using len length_concat_hex [of bs] by simp
  moreover have "h = hash_of bs"
    using s len bs(1) by (simp add: from_hex_def)
  ultimately show "s = to_hex h"
    using bs(2) by (simp add: to_hex_def digest_hash_of_32)
qed (simp add: set_to_hex)

lemma parse_chunks_None:
  "even (length s) \<Longrightarrow> parse_chunks s = None \<longleftrightarrow>
     (\<exists>i < length s div 2. u8_from_str_radix16 [s ! (2 * i), s ! (2 * i + 1)] = None)"
proof (induction s rule: parse_chunks.induct)
  case (1 a b cs)
  have "(\<exists>i < Suc (length cs div 2). P i) \<longleftrightarrow> P 0 \<or> (\<exists>i < length cs div 2. P (Suc i))" for P
    by (metis Suc_less_eq not0_implies_Suc zero_less_Suc)
  with 1 show ?case
    by (auto split: option.split)
qed simp_all

text \<open>
  \<open>from_hex\<close> is total and its errors say what is wrong: any other length is \<open>InvalidLength\<close>
  with that length, and 64 characters are \<open>InvalidHex\<close> exactly when one of the 32 pairs is not
  a hex byte.
\<close>

theorem from_hex_errors:
  "from_hex s = Inl e \<longleftrightarrow>
     length s \<noteq> 64 \<and> e = InvalidLength (length s) \<or>
     length s = 64 \<and> e = InvalidHex \<and>
       (\<exists>i < 32. u8_from_str_radix16 [s ! (2 * i), s ! (2 * i + 1)] = None)"
  using parse_chunks_None [of s] by (auto simp: from_hex_def split: option.splits)

text \<open>
  \<open>from_hex\<close> accepts text that \<open>to_hex\<close> never writes: a plus sign before a single digit is
  read as a byte, and so are capital letters.
\<close>

theorem from_hex_accepts_plus:
  "from_hex (concat (replicate 32 ''+f'')) = Inr (hash_of (replicate 32 15)) \<and>
   from_hex (concat (replicate 32 ''0F'')) = Inr (hash_of (replicate 32 15)) \<and>
   to_hex (hash_of (replicate 32 15)) = concat (replicate 32 ''0f'')"
  by code_simp

text \<open>
  The path of a blob is its bucket, two hex characters, and the other 62 characters: it is
  under the objects directory, never in the pack directory, and no two digests share one.
\<close>

theorem blob_path_layout:
  "blob_path st h = objects_dir st @ [hex_of_byte (bucket h), drop 2 (to_hex h)] \<and>
   hex_of_byte (bucket h) @ drop 2 (to_hex h) = to_hex h \<and>
   length (drop 2 (to_hex h)) = 62 \<and> butlast (blob_path st h) \<noteq> pack_dir st \<and>
   (blob_path st g = blob_path st h \<longleftrightarrow> g = h)"
proof -
  have "hex_of_byte (bucket h) \<noteq> ''pack''"
    using bucket_not_pack [of h] by (simp add: take2_to_hex)
  moreover have "blob_path st h = objects_dir st @ [hex_of_byte (bucket h), drop 2 (to_hex h)]"
    by (simp add: blob_path_def objects_dir_def Let_def take2_to_hex)
  moreover have "hex_of_byte (bucket h) @ drop 2 (to_hex h) = to_hex h"
    using to_hex_split [of h] by (simp add: take2_to_hex)
  moreover have "blob_path st g = blob_path st h \<longleftrightarrow> g = h"
    by (simp add: blob_path_loose_at)
  ultimately show ?thesis
    by (simp add: butlast_append pack_dir_def objects_dir_def)
qed

section \<open>Hashing and compression\<close>

text \<open>
  Hashing a file through the 64 KiB buffer, whatever the sizes of the single reads, gives the
  hash of its whole content, and reading changes nothing.
\<close>

theorem hash_file_hash_bytes:
  assumes "streaming_hash E" and "node_at d p = Some (File content)"
  shows "hash_file E p d = (Inr (hash_bytes E content), d)"
  using assms
  by (simp add: hash_file_def bindE_def fs_read_def run_atoms streaming_hash_def
      concat_hash_file_loop hash_bytes_def from_data_def)

text \<open>
  C29. Decompression stops for every decoder, even one whose stream never ends, and never returns
  more than 1 GiB.
\<close>

theorem decompress_bounded:
  "(\<exists>e. decompress E data = Inl e) \<or>
   (\<exists>out. decompress E data = Inr out \<and> length out \<le> MAX_DECOMPRESSED_SIZE)"
proof (cases "decompress E data")
  case (Inr out)
  then have "length out \<le> MAX_DECOMPRESSED_SIZE"
    using decompress_loop_bound [of "zstd_read E data" 0 "[]"]
    by (simp add: decompress_def split: option.splits)
  with Inr show ?thesis by blast
qed simp

text \<open>
  What the store compressed decompresses to the data, at every level, up to the limit of
  1 GiB, and is recognised as a zstd frame; a longer blob compresses but is refused on the way
  back.
\<close>

theorem compress_roundtrip:
  assumes "zstd_lossless E" and "zstd_frames E" and "feature_zstd E"
    and "zstd_compress E data level = Inr frame"
  shows "is_zstd_compressed E frame \<and>
    decompress E frame =
      (if length data \<le> MAX_DECOMPRESSED_SIZE then Inr data
       else Inl (DecompressionTooLarge MAX_DECOMPRESSED_SIZE))"
  using compress_is_zstd [OF assms(2,3,4)] decompress_compress [OF assms(1,4)] by simp

section \<open>The pack index\<close>

text \<open>
  C7. The index parser accepts exactly the serialized indices: it returns an index and an unread
  rest if and only if the bytes are the serialization of at most $2^{32} - 1$ entries followed by
  the rest, and the index holds these entries sorted by digest.
\<close>

theorem PackIndex_parse_iff:
  "PackIndex_parse bs = (Inr index, rest) \<longleftrightarrow>
     (\<exists>es. length es < 2 ^ 32 \<and> bs = serialize_index es @ rest \<and>
        index = \<lparr>entries = sort_key entry_hash es\<rparr>)"
  using PackIndex_parse_sound PackIndex_parse_serialize by blast

text \<open>
  The lookup in a loaded index: it finds an offset that the index has for the digest, and
  it finds one exactly when the digest is listed.
\<close>

theorem PackIndex_find_spec:
  assumes "fst (PackIndex_parse bs) = Inr index"
  shows "(\<forall>off. PackIndex_find index h = Some off \<longrightarrow>
        \<lparr>entry_hash = h, entry_offset = off\<rparr> \<in> set (entries index)) \<and>
    (PackIndex_find index h = None \<longleftrightarrow> h \<notin> set (PackIndex_hashes index))"
proof -
  have "sorted (PackIndex_hashes index)"
    using assms PackIndex_parse_sorted by (metis prod.collapse)
  then show ?thesis
    using PackIndex_find_mem PackIndex_find_None by blast
qed

end
