(* ===== verification/PackSpec.thy ===== *)
theory PackSpec
  imports Toy
begin

text \<open>
  The properties of pack files: creating, reading, listing and loading them.
\<close>

section \<open>Creating a pack\<close>

lemma quiet_write_pack_pair:
  assumes "pending d = []" and "node_at d dir = Some Dir"
    and "\<forall>p \<in> set (pair_paths E dir ies). node_at d p \<noteq> Some Dir"
  shows "\<exists>t. write_pack_pair E dir pd ies d =
    (Inr (dir @ [pack_name E (serialize_index ies) @ ''.pack''],
          dir @ [pack_name E (serialize_index ies) @ ''.idx'']), t)"
proof -
  let ?n = "pack_name E (serialize_index ies)"
  let ?p = "dir @ [?n @ ''.pack'']" and ?i = "dir @ [?n @ ''.idx'']"
  let ?u = "put_node ?p (File pd) d"
  have "fs_write ?p pd d = (Inr (), ?u)"
    using assms by (intro quiet_write) (simp_all add: write_error_def pair_paths_def)
  moreover have "fs_write ?i (serialize_index ies) ?u = (Inr (), put_node ?i (File (serialize_index ies)) ?u)"
    using assms by (intro quiet_write) (simp_all add: write_error_def pair_paths_def disk_nodes.look_put)
  ultimately show ?thesis
    by (simp add: write_pack_pair_def Let_def bindE_def map_err_def run_atoms)
qed

text \<open>
  On a disk that works, \<open>PackFile::create\<close> succeeds, and reading any of the objects back
  through the new index and pack returns its data.
\<close>

theorem PackFile_create_works:
  assumes "codec_ok E" and "packable E objects" and "objects \<noteq> []"
    and "pack_objects E objects (pack_header objects) [] = Inr img"
    and "pending d = []" and "node_at d dir = Some Dir"
    and "\<forall>p \<in> set (new_pack_paths E dir objects). node_at d p \<noteq> Some Dir"
  shows "\<exists>p t. PackFile_create E dir objects d = (Inr (p, with_extension p ''idx''), t) \<and>
    (\<forall>h data. (h, data) \<in> set objects \<longrightarrow> pack_serves E t p h data)"
proof -
  obtain pd ies where image: "pack_objects E objects (pack_header objects) [] = Inr (pd, ies)"
    using assms(4) by (cases img) simp
  let ?p = "dir @ [pack_name E (serialize_index ies) @ ''.pack'']"
  have "\<forall>p \<in> set (pair_paths E dir ies). node_at d p \<noteq> Some Dir"
    using assms(7) by (simp add: new_pack_paths_def image)
  then obtain t where wr: "write_pack_pair E dir pd ies d = (Inr (?p, with_extension ?p ''idx''), t)"
    using quiet_write_pack_pair [OF assms(5,6)] by (fastforce simp: pack_to_idx)
  then have run: "PackFile_create E dir objects d = (Inr (?p, with_extension ?p ''idx''), t)"
    using assms(3,6) image
    by (simp add: PackFile_create_def create_dir_all_def bindE_def map_err_def run_atoms)
  have "pack_serves E t ?p h data" if obj: "(h, data) \<in> set objects" for h data
    by (rule pack_files_serve [OF _ assms(2) image obj write_pack_pair_ok(3) [OF wr] write_pack_pair_ok(4) [OF wr]])
      (use assms(1) in \<open>simp add: codec_ok_def\<close>)
  with run show ?thesis by blast
qed

text \<open>
  C16. The index of a pack is written last: whatever I/O error or torn write stops
  \<open>PackFile::create\<close>, files change only at the paths of the new pair, and if the new index
  exists then the pack beside it is complete.
\<close>

theorem PackFile_create_crash_safe:
  assumes "\<forall>p \<in> set (new_pack_paths E dir objects). node_at d p = None"
    and "PackFile_create E dir objects d = (r, t)"
  shows "same_files (set (new_pack_paths E dir objects)) d t \<and>
    (\<forall>p i. new_pack_paths E dir objects = [p, i] \<and> is_file_node (node_at t i) \<longrightarrow>
       (\<exists>pd ies. pack_objects E objects (pack_header objects) [] = Inr (pd, ies) \<and>
          node_at t p = Some (File pd)))"
proof -
  let ?paths = "new_pack_paths E dir objects"
  have frame: "same_files (set ?paths) d t"
    using upholdsD [OF confined_PackFile_create [OF order_refl] assms(2)] .
  have untouched: "\<not> is_file_node (node_at v q)" if "same_files {} d v" "q \<in> set ?paths" for v q
    using that assms(1) same_files_at [OF that(1), of q]
    by (auto simp: is_file_node_def split: option.splits node.splits)
  from assms(2) have "\<exists>pd ies. pack_objects E objects (pack_header objects) [] = Inr (pd, ies) \<and>
      node_at t p = Some (File pd)" if paths: "?paths = [p, i]" and i: "is_file_node (node_at t i)" for p i
  proof (cases rule: PackFile_create_cases)
    case empty
    then show ?thesis using untouched [of d i] paths i by simp
  next
    case stopped
    then show ?thesis using untouched [of t i] paths i by simp
  next
    case (wrote pd ies u)
    have pi: "pair_paths E dir ies = [p, i]"
      using paths by (simp add: new_pack_paths_def wrote(4))
    then have neq: "p \<noteq> i" and p: "p = dir @ [pack_name E (serialize_index ies) @ ''.pack'']"
      and i': "i = dir @ [pack_name E (serialize_index ies) @ ''.idx'']"
      by (auto simp: pair_paths_def)
    obtain q v where w1: "fs_write p pd u = (q, v)"
      by (cases "fs_write p pd u")
    show ?thesis
    proof (cases q)
      case (Inl e)
      with wrote(5) w1 p have "t = v"
        by (simp add: write_pack_pair_def Let_def bindE_def map_err_def)
      then have "node_at t i = node_at u i"
        using touches_at [OF fs_write_touches [OF w1]] neq by simp
      with untouched [OF wrote(2), of i] paths i show ?thesis by simp
    next
      case (Inr x)
      then obtain q' where "fs_write i (serialize_index ies) v = (q', t)"
        using wrote(5) w1 p i'
        by (cases "fs_write i (serialize_index ies) v")
          (auto simp: write_pack_pair_def Let_def bindE_def map_err_def run_atoms split: sum.splits)
      then have "node_at t p = node_at v p"
        using fs_write_touches touches_at neq by blast
      with fs_write_ok [of p pd u x v] w1 Inr wrote(4) show ?thesis by simp
    qed
  qed
  with frame show ?thesis by blast
qed

theorem PackFile_create_crash_safe_witness:
  "same_files (set (new_pack_paths (toy_env False) [''r''] toy_objects)) (toy_torn [Proceed, Tear 3])
     (snd (PackFile_create (toy_env False) [''r''] toy_objects (toy_torn [Proceed, Tear 3])))"
proof -
  have "\<forall>p \<in> set (new_pack_paths (toy_env False) [''r''] toy_objects). node_at (toy_torn [Proceed, Tear 3]) p = None"
    by (simp add: new_pack_paths_def toy_image pair_paths_def toy_torn_def toy_world_def toy_dirs_def node_at_def)
  from PackFile_create_crash_safe [OF this prod.collapse [symmetric]] show ?thesis
    by (rule conjunct1)
qed

section \<open>Reading\<close>

text \<open>
  Whatever the pack file and the index hold, \<open>read_blob\<close> changes nothing, and data that it
  returns hashes to the digest that was asked for; a digest that the index does not list is
  reported as not found without opening the pack.
\<close>

theorem PackFile_read_blob_checked:
  "\<exists>r. PackFile_read_blob E p index h d = (r, d) \<and>
     (\<forall>data. r = Inr data \<longrightarrow> hash_bytes E data = h) \<and>
     (h \<notin> set (PackIndex_hashes index) \<longrightarrow> r = Inl (PackBlobNotFound (to_hex h)))"
proof (intro exI conjI)
  show "PackFile_read_blob E p index h d = (blob_in_pack E d p index h, d)"
    by (rule PackFile_read_blob_eq)
  show "\<forall>data. blob_in_pack E d p index h = Inr data \<longrightarrow> hash_bytes E data = h"
    using blob_in_pack_hash by blast
  show "h \<notin> set (PackIndex_hashes index) \<longrightarrow> blob_in_pack E d p index h = Inl (PackBlobNotFound (to_hex h))"
    by (simp add: blob_in_pack_def PackFile_read_blob_def PackIndex_find_absent run_atoms)
qed

section \<open>Loading the indices of a directory\<close>

text \<open>
  \<open>load_all\<close> is all or nothing. Either every index of the directory loads, and the cache has
  exactly the indices of the packs that have one, or some index does not load, and then the
  call fails and no pack of the directory can be read through the cache.
\<close>

theorem load_all_all_or_nothing:
  assumes "packs_at d dir = Inr ps"
  shows "(\<forall>p \<in> set ps. has_idx d p \<longrightarrow> (\<exists>index. idx_of d p = Inr index)) \<and>
      (\<exists>cache. load_all dir d = (Inr cache, d) \<and>
        (\<forall>p index. map_of (indices cache) p = Some index \<longleftrightarrow>
           p \<in> set ps \<and> has_idx d p \<and> idx_of d p = Inr index)) \<or>
    (\<exists>p \<in> set ps. \<exists>e. has_idx d p \<and> idx_of d p = Inl e) \<and> (\<exists>e. load_all dir d = (Inl e, d))"
proof (cases "\<forall>p \<in> set ps. has_idx d p \<longrightarrow> (\<exists>index. idx_of d p = Inr index)")
  case True
  then obtain cache where "load_all dir d = (Inr cache, d)" and "caches d ps cache"
    using load_all_succeeds [OF assms] by blast
  with True show ?thesis
    unfolding caches_def by (intro disjI1 conjI exI [of _ cache]) simp_all
next
  case False
  then obtain p e where "p \<in> set ps" "has_idx d p" "idx_of d p = Inl e"
    by (metis sum.exhaust)
  with load_all_fails [OF assms] show ?thesis by blast
qed

text \<open>
  Looking a digest up in the loaded indices: a hit names a pack of the directory whose index
  lists the digest, and a miss means that no index lists it, in whatever order the map of
  indices is iterated.
\<close>

theorem PackCache_find_spec:
  assumes "map_order_ok E" and "packs_at d dir = Inr ps" and "load_all dir d = (Inr cache, t)"
  shows "case PackCache_find E cache h of
      Some (p, off) \<Rightarrow> p \<in> set ps \<and> (\<exists>index. idx_of d p = Inr index \<and> PackIndex_find index h = Some off)
    | None \<Rightarrow> \<forall>p \<in> set ps. has_idx d p \<longrightarrow>
        (\<exists>index. idx_of d p = Inr index \<and> h \<notin> set (PackIndex_hashes index))"
proof -
  have caches: "caches d ps cache"
    and all: "\<forall>p \<in> set ps. has_idx d p \<longrightarrow> (\<exists>index. idx_of d p = Inr index)"
    using load_all_ok [OF assms(3)] assms(2) by auto
  show ?thesis
  proof (cases "PackCache_find E cache h")
    case None
    then have none: "map_of (indices cache) p = Some index \<Longrightarrow> PackIndex_find index h = None" for p index
      using PackCache_find_None [OF assms(1)] by blast
    have "h \<notin> set (PackIndex_hashes index)"
      if "p \<in> set ps" "has_idx d p" "idx_of d p = Inr index" for p index
    proof -
      have "PackIndex_find index h = None"
        using that caches none by (auto simp: caches_def)
      moreover have "sorted (PackIndex_hashes index)"
        using that(3) by (simp add: idx_of_def index_at_sorted)
      ultimately show ?thesis by (simp add: PackIndex_find_None)
    qed
    with None all show ?thesis by fastforce
  next
    case (Some hit)
    obtain p off where hit: "hit = (p, off)" by (cases hit)
    obtain index where "map_of (indices cache) p = Some index" "PackIndex_find index h = Some off"
      using PackCache_find_Some [OF assms(1)] Some hit by blast
    with caches Some hit show ?thesis
      by (auto simp: caches_def)
  qed
qed

end
