(* ===== verification/StoreSpec.thy ===== *)
theory StoreSpec
  imports Toy
begin

text \<open>
  The properties of the blob store's writing side: putting and getting back, what a write that
  fails may change, the blobs that cannot be read back, and opening a store.
\<close>

section \<open>Writing\<close>

lemma node_at_self [simp]: "node_at (w\<lparr>self := st\<rparr>) = node_at w"
  by (simp add: node_at_def fun_eq_iff)

text \<open>After a \<open>put_blob\<close> that succeeded, the loose file serves the data and the cache is as before.\<close>

lemma put_blob_leaves:
  assumes "codec_ok E" and "storable E (self s) data" and run: "put_blob E data s = (Inr h, t)"
    and old: "path_exists s (blob_path (self s) h) \<longrightarrow> loose_serves E s (blob_path (self s) h) h data"
  shows "h = hash_bytes E data" and "blob_cache (self t) = blob_cache (self s)"
    and "loose_serves E t (blob_path (self t) h) h data"
proof -
  let ?p = "blob_path (self s) (hash_bytes E data)"
  show h: "h = hash_bytes E data"
    using run put_blob_fresh(1) [OF run] by (cases "path_exists s ?p") (auto simp: put_blob_there)
  have "blob_cache (self t) = blob_cache (self s) \<and> loose_serves E t (blob_path (self t) h) h data"
  proof (cases "path_exists s ?p")
    case True
    with run old h show ?thesis by (auto simp: put_blob_there)
  next
    case False
    then have "stored E data (blob_path (self s) h) s t"
      by (rule put_blob_fresh(2) [OF run])
    moreover have "root (self t) = root (self s)"
      using store_step_config [OF put_blob_step [OF run]] by (simp add: same_config_def)
    ultimately show ?thesis
      using unpack_image [OF assms(1) _ assms(2)] h
      by (auto simp: stored_def loose_serves_def blob_path_loose_at)
  qed
  then show "blob_cache (self t) = blob_cache (self s)" "loose_serves E t (blob_path (self t) h) h data"
    by simp_all
qed

lemma get_blob_after:
  assumes "loose_serves E t (blob_path (self t) h) h data" and "\<not> poisoned (blob_cache (self t))"
  obtains u where "get_blob E h t = (Inr (case cached t h of None \<Rightarrow> data | Some old \<Rightarrow> old), u)"
proof (cases "cached t h")
  case None
  with get_blob_serves_loose [OF assms] that show thesis by simp
next
  case (Some old)
  with get_blob_hit [OF assms(2), of h old E] that show thesis by fastforce
qed

text \<open>The conditions under which a write can be made: a working disk and no file in the way.\<close>

definition can_write :: "world \<Rightarrow> path \<Rightarrow> bool" where
  "can_write s p \<longleftrightarrow>
     pending s = [] \<and> p \<noteq> [] \<and> node_at s p \<noteq> Some Dir \<and>
     (\<forall>q \<in> set (ancestors p). \<not> is_file_node (node_at s q)) \<and>
     \<not> poisoned (known_dirs (self s)) \<and> (\<forall>q \<in> guarded (known_dirs (self s)). node_at s q = Some Dir)"

lemma not_own_ancestor:
  assumes "p \<noteq> []"
  shows "p \<notin> insert (butlast p) (set (ancestors (butlast p)))"
proof -
  have "\<forall>q \<in> insert (butlast p) (set (ancestors (butlast p))). length q \<le> length (butlast p)"
    by (simp add: ancestors_def)
  moreover have "length (butlast p) < length p"
    using assms by simp
  ultimately show ?thesis using leD by blast
qed

lemma quiet_ensure_parent_dir:
  assumes "can_write s p"
  obtains t where "ensure_parent_dir (butlast p) s = (Inr (), t)" and "pending t = []"
    and "write_error t p = None"
proof (cases "butlast p \<in> guarded (known_dirs (self s))")
  case True
  with assms that show thesis
    by (auto simp: can_write_def ensure_parent_dir_def run_simps write_error_def)
next
  case False
  have p: "p \<noteq> []" and quiet: "pending s = []" and lock: "\<not> poisoned (known_dirs (self s))"
    and clear: "\<forall>q \<in> set (ancestors p). \<not> is_file_node (node_at s q)" and free: "node_at s p \<noteq> Some Dir"
    using assms by (simp_all add: can_write_def)
  have "insert (butlast p) (set (ancestors (butlast p))) \<subseteq> set (ancestors p)"
  proof -
    have "butlast p \<in> set (ancestors p)"
      using p by (auto simp: ancestors_def butlast_conv_take)
    moreover have "set (ancestors (butlast p)) \<subseteq> set (ancestors p)"
      by (auto simp: ancestors_def take_butlast)
    ultimately show ?thesis by simp
  qed
  then obtain u where u: "create_dir_all (butlast p) s = (Inr (), u)" "pending u = []"
    using quiet_create_dir_all [OF quiet, of "butlast p"] clear by blast
  have "self u = self s"
    using upholdsD [OF preserves_self_disk [OF confined_create_dir_all] u(1)] .
  then have "ensure_parent_dir (butlast p) s =
      set_known_dirs (insert (butlast p) (guarded (known_dirs (self s)))) u"
    using False lock u(1) by (simp add: ensure_parent_dir_def run_simps bindE_def map_err_def)
  moreover have "node_at u (butlast p) = Some Dir"
    using create_dir_all_ok [OF u(1)] .
  moreover have "node_at u p = node_at s p"
    using touches_at [OF create_dir_all_touches [OF u(1)]] not_own_ancestor [OF p] by auto
  ultimately show thesis
    using that u(2) free by (simp add: set_known_dirs_def run_atoms node_at_def write_error_def)
qed

lemma put_blob_works:
  assumes "blob_image E (self s) data = Inr raw"
    and "can_write s (blob_path (self s) (hash_bytes E data))"
  obtains t where "put_blob E data s = (Inr (hash_bytes E data), t)"
proof (cases "path_exists s (blob_path (self s) (hash_bytes E data))")
  case True
  with that show thesis by (simp add: put_blob_there)
next
  case False
  let ?h = "hash_bytes E data" and ?p = "blob_path (self s) (hash_bytes E data)"
  obtain v where dir: "ensure_parent_dir (butlast ?p) s = (Inr (), v)"
      and v: "pending v = []" "write_error v ?p = None"
    by (rule quiet_ensure_parent_dir [OF assms(2)])
  have step: "store_step {} s v"
    by (rule upholdsD [OF changes_only_ensure_parent_dir dir])
  have "blob_image E (self v) data = blob_image E (self s) data"
    using store_step_config [OF step] by (simp add: blob_image_def same_config_def)
  then have "write_blob E ?p data v = (Inr (), put_node ?p (File raw) v)"
    using v assms(1) by (simp add: write_blob_eq map_err_def quiet_write)
  with dir False have "put_blob E data s = (Inr ?h, put_node ?p (File raw) v)"
    by (simp add: put_blob_def Let_def run_simps bindE_def)
  then show thesis by (rule that)
qed

text \<open>A fresh store and a blob that is put into it.\<close>

lemma toy_can_write: "can_write (toy_world True []) (blob_path (toy_store True) h)"
  using bucket_not_pack [of h]
  by (auto simp: can_write_def blob_path_loose_at loose_at_def node_at_def toy_world_def toy_dirs_def
      toy_store_def ancestors_def is_file_node_def upt_rec)

lemma toy_put:
  obtains t where "put_blob (toy_env True) data (toy_world True []) = (Inr (hash_of data), t)"
proof -
  have "blob_image (toy_env True) (self (toy_world True [])) data = Inr (ZSTD_MAGIC @ data)"
    by (simp add: blob_image_def toy_world_def toy_store_def toy_env_def zstd_compress_def)
  moreover have "can_write (toy_world True []) (blob_path (self (toy_world True [])) (hash_bytes (toy_env True) data))"
    using toy_can_write by (simp add: toy_world_def)
  ultimately show thesis
    by (rule put_blob_works) (use that in simp)
qed

lemma toy_storable: "length data \<le> 1000 \<Longrightarrow> storable (toy_env True) (toy_store True) data"
  by (simp add: storable_def toy_store_def MAX_DECOMPRESSED_SIZE_def)

lemma toy_absent: "node_at (toy_world True []) (blob_path (toy_store True) h) = None"
  by (simp add: blob_path_loose_at loose_at_def node_at_def toy_world_def toy_dirs_def)

text \<open>
  Putting data and getting it back. Whatever faults the disk has, if \<open>put_blob\<close> returns a
  digest then it is the digest of the data, and \<open>get_blob\<close> of that digest returns the data (or
  what the in-memory cache held under that digest), unless an unreadable file was there before.
\<close>

theorem put_get_roundtrip:
  assumes "codec_ok E" and "storable E (self s) data"
    and "put_blob E data s = (Inr h, t)"
    and "path_exists s (blob_path (self s) h) \<longrightarrow> loose_serves E s (blob_path (self s) h) h data"
    and "\<not> poisoned (blob_cache (self s))"
  shows "h = hash_bytes E data \<and>
    (\<exists>u. get_blob E h t = (Inr (case cached s h of None \<Rightarrow> data | Some old \<Rightarrow> old), u))"
proof -
  note leaves = put_blob_leaves [OF assms(1-4)]
  have "cached t h = cached s h" and "\<not> poisoned (blob_cache (self t))"
    using leaves(2) assms(5) by (simp_all add: cached_def)
  with get_blob_after [OF leaves(3)] leaves(1) show ?thesis
    by metis
qed

text \<open>
  On a working disk \<open>put_blob\<close> of data that this store can hold succeeds, and getting it
  then succeeds too and gives the data.
\<close>

theorem put_get_works:
  assumes "codec_ok E" and "storable E (self s) data" and "blob_image E (self s) data = Inr raw"
    and "can_write s (blob_path (self s) (hash_bytes E data))"
    and "node_at s (blob_path (self s) (hash_bytes E data)) = None"
    and "\<not> poisoned (blob_cache (self s))" and "cached s (hash_bytes E data) = None"
  shows "\<exists>t u. put_blob E data s = (Inr (hash_bytes E data), t) \<and>
    get_blob E (hash_bytes E data) t = (Inr data, u)"
proof -
  obtain t where put: "put_blob E data s = (Inr (hash_bytes E data), t)"
    by (rule put_blob_works [OF assms(3,4)])
  note leaves = put_blob_leaves [OF assms(1,2) put]
  have serves: "loose_serves E t (blob_path (self t) (hash_bytes E data)) (hash_bytes E data) data"
    and "blob_cache (self t) = blob_cache (self s)"
    using leaves(2,3) assms(5) by (simp_all add: path_exists_def)
  then have "cached t (hash_bytes E data) = None" "\<not> poisoned (blob_cache (self t))"
    using assms(6,7) by (simp_all add: cached_def)
  with get_blob_after [OF serves] put show ?thesis
    by fastforce
qed

section \<open>The cases of an existing file\<close>

text \<open>
  An existing file decides all three ways of putting: \<open>put_blob\<close> and \<open>put_blob_with_hash\<close>
  return success without writing or looking at it, \<open>put_blob_new\<close> returns \<open>AlreadyExists\<close>, and
  nothing changes.
\<close>

theorem put_on_existing:
  assumes "path_exists s (blob_path (self s) (hash_bytes E data))"
  shows "put_blob E data s = (Inr (hash_bytes E data), s) \<and>
    put_blob_with_hash E other (hash_bytes E data) s = (Inr (), s) \<and>
    put_blob_new E data s = (Inl (AlreadyExists (to_hex (hash_bytes E data))), s)"
  using assms by (simp add: put_blob_there put_blob_with_hash_there put_blob_new_there)

text \<open>
  A blob received under a claimed digest is verified before anything is written: data with
  another digest is refused with both digests in the error, and nothing changes.
\<close>

theorem put_blob_with_hash_refuses:
  assumes "\<not> path_exists s (blob_path (self s) h)" and "hash_bytes E data \<noteq> h"
  shows "put_blob_with_hash E data h s = (Inl (HashMismatch (to_hex h) (to_hex (hash_bytes E data))), s)"
  using assms by (rule put_blob_with_hash_wrong)

section \<open>What a put may change\<close>

lemma length_loose_at [simp]: "length (loose_at r h) = length r + 3"
  by (simp add: loose_at_def)

lemma ensure_parent_dir_far:
  assumes "ensure_parent_dir dir s = (r, t)" and "length dir < length q"
  shows "node_at t q = node_at s q"
proof -
  have "preserves (\<lambda>s. node_at s q) (create_dir_all dir :: (world, io_error, unit) prog)"
    by (intro upholdsI) (erule create_dir_all_far [OF _ assms(2)])
  moreover have "preserves (\<lambda>s. node_at s q) (set_known_dirs k)" for k
    by (auto intro!: upholdsI simp: set_known_dirs_def run_atoms node_at_def)
  moreover have "preserves (\<lambda>s. node_at s q) (lock known_dirs)"
    by (rule preserving.resp_reads) (rule hoare)
  ultimately have "preserves (\<lambda>s. node_at s q) (ensure_parent_dir dir)"
    unfolding ensure_parent_dir_def by (intro hoare)
  from upholdsD [OF this assms(1)] show ?thesis .
qed

lemma ensure_parent_dir_keeps:
  "ensure_parent_dir (butlast p) s = (r, t) \<Longrightarrow> p \<noteq> [] \<Longrightarrow> node_at t p = node_at s p"
  by (erule ensure_parent_dir_far) simp

text \<open>The node of the blob after a write that may have been torn.\<close>

definition maybe_written :: "env \<Rightarrow> bytes \<Rightarrow> path \<Rightarrow> world \<Rightarrow> world \<Rightarrow> bool" where
  "maybe_written E data p s t \<longleftrightarrow>
     node_at t p = node_at s p \<or>
     (\<exists>raw k. blob_image E (self s) data = Inr raw \<and> node_at t p = Some (File (take k raw)))"

lemma write_tail_any:
  assumes "bindE (ensure_parent_dir (butlast p)) (\<lambda>_. write_blob E p data) s = (r, t)" and "p \<noteq> []"
  shows "maybe_written E data p s t"
proof -
  obtain q v where dir: "ensure_parent_dir (butlast p) s = (q, v)"
    by (cases "ensure_parent_dir (butlast p) s")
  have keep: "node_at v p = node_at s p"
    by (rule ensure_parent_dir_keeps [OF dir assms(2)])
  have img: "blob_image E (self v) data = blob_image E (self s) data"
    using store_step_config [OF upholdsD [OF changes_only_ensure_parent_dir [of "{}"] dir]]
    by (simp add: blob_image_def same_config_def)
  show ?thesis
  proof (cases q)
    case (Inl e)
    with assms(1) dir keep show ?thesis by (simp add: bindE_def maybe_written_def)
  next
    case (Inr x)
    with assms(1) dir have wr: "write_blob E p data v = (r, t)"
      by (simp add: bindE_def)
    show ?thesis
    proof (cases "blob_image E (self v) data")
      case (Inl e)
      with wr keep show ?thesis by (simp add: write_blob_eq maybe_written_def)
    next
      case (Inr raw)
      obtain z where z: "fs_write p raw v = (z, t)"
        using wr Inr by (cases "fs_write p raw v") (auto simp: write_blob_eq map_err_def split: sum.splits)
      have "node_at t p = node_at v p \<or> (\<exists>k. node_at t p = Some (File (take k raw)))"
      proof (cases z)
        case Inl
        with z show ?thesis using fs_write_err by blast
      next
        case (Inr u)
        with z have "node_at t p = Some (File (take (length raw) raw))"
          using fs_write_ok by simp
        then show ?thesis by blast
      qed
      moreover have "blob_image E (self s) data = Inr raw"
        using img \<open>blob_image E (self v) data = Inr raw\<close> by simp
      ultimately show ?thesis
        unfolding maybe_written_def keep by blast
    qed
  qed
qed

lemma blob_path_nonempty [simp]: "blob_path st h \<noteq> []"
  by (simp add: blob_path_def Let_def)

text \<open>
  C25. Whatever faults the disk has, and whether or not it succeeds, \<open>put_blob\<close> changes no file but
  the one at the blob's own path, removes nothing, and leaves there either what was there or
  a prefix of the image of the data. In particular an existing file is never touched, and a
  torn write can leave a prefix: the write is not atomic.
\<close>

theorem put_blob_confined:
  assumes "put_blob E data s = (r, t)"
  shows "store_step {blob_path (self s) (hash_bytes E data)} s t \<and>
    maybe_written E data (blob_path (self s) (hash_bytes E data)) s t \<and>
    (path_exists s (blob_path (self s) (hash_bytes E data)) \<longrightarrow> t = s)"
proof (intro conjI impI)
  let ?p = "blob_path (self s) (hash_bytes E data)"
  show "store_step {?p} s t"
    by (rule put_blob_step [OF assms])
  show there: "t = s" if "path_exists s ?p"
    using assms that by (simp add: put_blob_there)
  show "maybe_written E data ?p s t"
  proof (cases "path_exists s ?p")
    case True
    with there show ?thesis by (simp add: maybe_written_def)
  next
    case False
    have "\<exists>q. bindE (ensure_parent_dir (butlast ?p)) (\<lambda>_. write_blob E ?p data) s = (q, t)"
      using assms False
      by (auto simp: put_blob_def Let_def run_simps bindE_def split: prod.splits sum.splits)
    then show ?thesis
      using write_tail_any [of ?p] by fastforce
  qed
qed

theorem put_blob_confined_witness:
  "store_step {blob_path (toy_store False) (hash_of [5, 6])} (toy_torn [Proceed, Tear 1])
     (snd (put_blob (toy_env False) [5, 6] (toy_torn [Proceed, Tear 1])))"
  using put_blob_confined [where E = "toy_env False" and s = "toy_torn [Proceed, Tear 1]" and data = "[5, 6]",
    OF prod.collapse [symmetric]]
  by (simp add: toy_torn_def)

text \<open>
  A damaged file is not repaired. When the file at a blob's path holds other data (as a torn
  write leaves it), \<open>put_blob\<close> of the right data reports success without writing, and \<open>get_blob\<close>
  of the same digest then fails with \<open>HashMismatch\<close>, over and over.
\<close>

theorem damaged_blob_kept:
  assumes "node_at s (blob_path (self s) (hash_bytes E data)) = Some (File raw)"
    and "unpack_loose E raw = Inr other" and "hash_bytes E other \<noteq> hash_bytes E data"
    and "verify_on_read (self s)" and "\<not> poisoned (blob_cache (self s))"
    and "cached s (hash_bytes E data) = None"
  shows "put_blob E data s = (Inr (hash_bytes E data), s) \<and>
    get_blob E (hash_bytes E data) s =
      (Inl (HashMismatch (to_hex (hash_bytes E data)) (to_hex (hash_bytes E other))), s)"
  using assms
  by (simp add: put_blob_there path_exists_def get_blob_unhit get_blob_miss_there get_blob_loose_eq
      bindE_def)

definition toy_damaged :: world where
  "toy_damaged = toy_world False
     [(take 3 (loose_at [''r''] (hash_of [5, 6])), Dir), (loose_at [''r''] (hash_of [5, 6]), File [5])]"

section \<open>Data that a store cannot give back\<close>

text \<open>The two kinds of data that are not \<open>storable\<close>: what \<open>get_blob\<close> does with their images.\<close>

lemma get_blob_of_image:
  assumes "stored E data (blob_path (self s) h) s t" and "store_step {blob_path (self s) h} s t"
    and "\<not> poisoned (blob_cache (self s))" and "cached s h = None"
    and "blob_image E (self s) data = Inr raw"
  shows "get_blob E h t = bindE (get_blob_loose E h) (\<lambda>data. bindE (cache_blob h data) (\<lambda>_. returnE data)) t"
    and "node_at t (blob_path (self t) h) = Some (File raw)"
proof -
  have "blob_path (self t) h = blob_path (self s) h"
    using store_step_config [OF assms(2)] by (simp add: same_config_def blob_path_loose_at)
  then show node: "node_at t (blob_path (self t) h) = Some (File raw)"
    using assms(1,5) by (simp add: stored_def)
  have "\<not> poisoned (blob_cache (self t))" "cached t h = None"
    using assms(1,3,4) by (simp_all add: stored_def cached_def)
  with node show "get_blob E h t = bindE (get_blob_loose E h) (\<lambda>data. bindE (cache_blob h data) (\<lambda>_. returnE data)) t"
    by (simp add: get_blob_unhit get_blob_miss_there path_exists_def bindE_def)
qed

text \<open>
  C37. A store without compression, in a build with zstd, loses data that starts with the four bytes
  of the zstd magic number: \<open>put_blob\<close> stores it raw and succeeds, and the next \<open>get_blob\<close>, which
  takes the file for a compressed one, returns an error unless the data happens to
  decompress to something with its own digest.
\<close>

theorem zstd_magic_data_unreadable:
  assumes "\<not> compress (self s)" and "is_zstd_compressed E data"
    and "\<forall>other. decompress E data = Inr other \<longrightarrow> hash_bytes E other \<noteq> hash_bytes E data"
    and "verify_on_read (self s)" and "\<not> poisoned (blob_cache (self s))"
    and "cached s (hash_bytes E data) = None"
    and "\<not> path_exists s (blob_path (self s) (hash_bytes E data))"
    and "put_blob E data s = (Inr h, t)"
  shows "h = hash_bytes E data \<and> (\<exists>e. get_blob E h t = (Inl e, t))"
proof
  show h: "h = hash_bytes E data"
    by (rule put_blob_fresh(1) [OF assms(8,7)])
  have img: "blob_image E (self s) data = Inr data"
    using assms(1) by (simp add: blob_image_def)
  note step = put_blob_step [OF assms(8), folded h]
  note get = get_blob_of_image [OF put_blob_fresh(2) [OF assms(8,7)] step assms(5) assms(6) [folded h] img]
  have "verify_on_read (self t)"
    using store_step_config [OF step] assms(4) by (simp add: same_config_def)
  then show "\<exists>e. get_blob E h t = (Inl e, t)"
    using get assms(2,3) h
    by (auto simp: bindE_def get_blob_loose_eq unpack_loose_def split: sum.split)
qed

theorem zstd_magic_data_unreadable_witness:
  "\<exists>t e. put_blob (toy_env True) (ZSTD_MAGIC @ [1]) (toy_world False []) =
      (Inr (hash_of (ZSTD_MAGIC @ [1])), t) \<and>
    get_blob (toy_env True) (hash_of (ZSTD_MAGIC @ [1])) t = (Inl e, t)"
proof -
  let ?E = "toy_env True" and ?data = "ZSTD_MAGIC @ [1 :: u8]" and ?s = "toy_world False []"
  have "zstd_yields ?E ?data [[1]]"
    by (simp add: zstd_yields_def toy_env_def ZSTD_MAGIC_def)
  then have "decompress ?E ?data = Inr [1]"
    by (simp add: decompress_yields MAX_DECOMPRESSED_SIZE_def)
  moreover have "hash_of [1] \<noteq> hash_of ?data"
    by code_simp
  moreover have "is_zstd_compressed ?E ?data"
    by (simp add: is_zstd_compressed_def ZSTD_MAGIC_def)
  moreover have "node_at ?s (blob_path (toy_store False) h) = None" for h
    by (simp add: blob_path_loose_at loose_at_def node_at_def toy_dirs_def)
  moreover have "can_write ?s (blob_path (toy_store False) h)" for h
    using bucket_not_pack [of h]
    by (auto simp: can_write_def blob_path_loose_at loose_at_def node_at_def toy_dirs_def
        ancestors_def is_file_node_def upt_rec)
  then obtain t where "put_blob ?E ?data ?s = (Inr (hash_of ?data), t)"
    using put_blob_works [of ?E ?s ?data ?data] by (auto simp: blob_image_def)
  ultimately show ?thesis
    using zstd_magic_data_unreadable [of ?s ?E ?data "hash_of ?data"]
    by (simp add: path_exists_def cached_def)
qed

text \<open>
  C38. A compressing store accepts a blob of more than 1 GiB and cannot give it back: \<open>put_blob\<close>
  succeeds, and \<open>get_blob\<close> returns \<open>DecompressionTooLarge\<close> with the limit.
\<close>

theorem huge_data_unreadable:
  assumes "feature_zstd E" and "zstd_lossless E" and "zstd_frames E" and "compress (self s)"
    and "MAX_DECOMPRESSED_SIZE < length data" and "\<not> poisoned (blob_cache (self s))"
    and "cached s (hash_bytes E data) = None"
    and "\<not> path_exists s (blob_path (self s) (hash_bytes E data))"
    and "put_blob E data s = (Inr h, t)"
  shows "h = hash_bytes E data \<and>
    get_blob E h t = (Inl (DecompressionTooLarge MAX_DECOMPRESSED_SIZE), t)"
proof
  show h: "h = hash_bytes E data"
    by (rule put_blob_fresh(1) [OF assms(9,8)])
  obtain raw where img: "blob_image E (self s) data = Inr raw"
    using put_blob_fresh(2) [OF assms(9,8)] by (auto simp: stored_def)
  then have comp: "zstd_compress E data (compression_level (self s)) = Inr raw"
    using assms(1,4) by (simp add: blob_image_def)
  note step = put_blob_step [OF assms(9), folded h]
  note get = get_blob_of_image [OF put_blob_fresh(2) [OF assms(9,8)] step assms(6) assms(7) [folded h] img]
  show "get_blob E h t = (Inl (DecompressionTooLarge MAX_DECOMPRESSED_SIZE), t)"
    using get compress_is_zstd [OF assms(3,1) comp] decompress_compress [OF assms(2) comp] assms(5)
    by (simp add: bindE_def get_blob_loose_eq unpack_loose_def)
qed

theorem huge_data_unreadable_witness:
  "\<exists>t. put_blob (toy_env True) (replicate (2 ^ 30 + 1) 0) (toy_world True []) =
      (Inr (hash_of (replicate (2 ^ 30 + 1) 0)), t) \<and>
    get_blob (toy_env True) (hash_of (replicate (2 ^ 30 + 1) 0)) t =
      (Inl (DecompressionTooLarge MAX_DECOMPRESSED_SIZE), t)"
proof -
  define data :: bytes where "data = replicate (2 ^ 30 + 1) 0"
  have long: "MAX_DECOMPRESSED_SIZE < length data"
    by (simp add: data_def MAX_DECOMPRESSED_SIZE_def)
  obtain t where put: "put_blob (toy_env True) data (toy_world True []) = (Inr (hash_of data), t)"
    by (rule toy_put)
  have absent: "\<not> path_exists (toy_world True []) (blob_path (self (toy_world True [])) (hash_bytes (toy_env True) data))"
    by (simp add: path_exists_def toy_absent)
  have idle: "feature_zstd (toy_env True)" "compress (self (toy_world True []))"
    "\<not> poisoned (blob_cache (self (toy_world True [])))" "cached (toy_world True []) (hash_bytes (toy_env True) data) = None"
    by (simp_all add: cached_def)
  from huge_data_unreadable [OF idle(1) toy_lossless toy_frames idle(2) long idle(3,4) absent put]
  have "get_blob (toy_env True) (hash_of data) t = (Inl (DecompressionTooLarge MAX_DECOMPRESSED_SIZE), t)"
    by (rule conjunct2)
  with put show ?thesis
    unfolding data_def by (intro exI [of _ t] conjI)
qed

section \<open>Opening a store\<close>

text \<open>
  Opening a store creates the \<open>objects\<close> directory and nothing else that is a file: it fails
  exactly when that directory cannot be made, and a store that opens is empty-handed (nothing
  cached or loaded), verifies reads, and compresses unless it was opened uncompressed.
\<close>

theorem opening_a_store:
  assumes "BlobStore_new r d = (res, t)"
  shows "same_files {} d t \<and>
    (\<forall>st. res = Inr st \<longrightarrow> node_at t (r @ [''objects'']) = Some Dir \<and> root st = r \<and>
       compress st \<and> verify_on_read st \<and> guarded (blob_cache st) = [] \<and>
       guarded (store_packs st) = None \<and>
       new_uncompressed r d = (Inr (st\<lparr>compress := False\<rparr>), t)) \<and>
    ((\<exists>e. res = Inl e) \<longleftrightarrow> (\<exists>e. fst (create_dir_all (r @ [''objects'']) d) = Inl e))"
proof -
  obtain q u where run: "create_dir_all (r @ [''objects'']) d = (q, u)"
    by (cases "create_dir_all (r @ [''objects'']) d")
  have "same_files {} d u"
    by (rule upholdsD [OF confined_create_dir_all run])
  then show ?thesis
    using assms run create_dir_all_ok [of "r @ [''objects'']" d _ u]
    by (cases q) (auto simp: BlobStore_new_def new_uncompressed_def bindE_def map_err_def run_atoms)
qed

end
