(* ===== verification/ReadSpec.thy ===== *)
theory ReadSpec
  imports Toy
begin

text \<open>
  The properties of reading the blob store: verification, the blob cache, packed blobs, deletion
  and enumeration.
\<close>

section \<open>Verified reads\<close>

text \<open>
  With verification on and a cache of verified blobs, data that \<open>get_blob\<close> returns hashes to
  the digest asked for, from whatever file, pack or cache it came; the cache stays verified,
  and the read changes nothing on the disk.
\<close>

theorem get_blob_verified:
  assumes "cache_true E s" and "get_blob E h s = (r, t)"
  shows "(\<forall>data. r = Inr data \<longrightarrow> hash_bytes E data = h) \<and> cache_true E t \<and> store_step {} s t"
  using get_blob_hash [OF _ assms(1)] assms(2)
    upholdsD [OF keeps_cache_true_get_blob assms(2)] assms(1)
    upholdsD [OF changes_only_get_blob assms(2)]
  by blast

lemma vec_remove_Cons: "vec_remove (Suc i) (x # xs) = (fst (vec_remove i xs), x # snd (vec_remove i xs))"
  by (simp add: vec_remove_def)

lemma vec_remove_filter:
  "position (\<lambda>(g, _). g = h) xs = Some i \<Longrightarrow> distinct (map fst xs) \<Longrightarrow>
     vec_remove i xs = ((h, the (map_of xs h)), filter (\<lambda>(g, _). g \<noteq> h) xs)"
proof (induction xs arbitrary: i)
  case (Cons x xs)
  obtain g d where x: "x = (g, d)" by (cases x)
  show ?case
  proof (cases "g = h")
    case True
    with Cons.prems(2) x have "filter (\<lambda>(g, _). g \<noteq> h) xs = xs"
      by (force simp: filter_id_conv)
    with True Cons.prems x show ?thesis
      by (auto simp: vec_remove_def)
  next
    case False
    with Cons x show ?thesis
      by (auto simp: vec_remove_Cons)
  qed
qed simp

text \<open>
  C15. The blob cache is a least-recently-used cache of 1024 blobs: after a successful \<open>get_blob\<close>
  the blob is in front, the others follow in their order without it, and the last one has
  made room if there were 1024.
\<close>

theorem get_blob_lru:
  assumes "cache_bounded s" and "get_blob E h s = (Inr data, t)"
  shows "guarded (blob_cache (self t)) =
      take 1024 ((h, data) # filter (\<lambda>(g, _). g \<noteq> h) (guarded (blob_cache (self s)))) \<and>
    cache_bounded t"
proof
  let ?cache = "guarded (blob_cache (self s))"
  show "cache_bounded t"
    using upholdsD [OF keeps_cache_bounded_get_blob assms(2)] assms(1) by blast
  have len: "length ?cache \<le> 1024" and uniq: "distinct (map fst ?cache)"
    using assms(1) by (simp_all add: cache_bounded_def BLOB_CACHE_CAPACITY_def)
  from assms(2) show "guarded (blob_cache (self t)) = take 1024 ((h, data) # filter (\<lambda>(g, _). g \<noteq> h) ?cache)"
  proof (cases rule: get_blob_cases)
    case poisoned
    then show ?thesis by simp
  next
    case (hit d rest)
    then obtain i where i: "position (\<lambda>(g, _). g = h) ?cache = Some i"
      by (metis cached_def not_None_eq position_map_of_None)
    have "\<not> poisoned (blob_cache (self s))"
      using get_blob_poisoned [of s E h] assms(2) by auto
    then have "guarded (blob_cache (self t)) = (h, data) # filter (\<lambda>(g, _). g \<noteq> h) ?cache"
      using i vec_remove_filter [OF i uniq] assms(2)
      by (auto simp: get_blob_def set_blob_cache_def run_simps)
    moreover have "length (filter (\<lambda>(g, _). g \<noteq> h) ?cache) < length ?cache"
      using position_Some [OF i] by (intro length_filter_less [of "?cache ! i"]) auto
    ultimately show ?thesis
      using len by simp
  next
    case (miss u)
    then have "filter (\<lambda>(g, _). g \<noteq> h) ?cache = ?cache"
      by (force simp: cached_def map_of_eq_None_iff filter_id_conv)
    with miss len show ?thesis
      by (simp add: cache_insert_def BLOB_CACHE_CAPACITY_def butlast_conv_take take_Cons')
  qed
qed

theorem get_blob_lru_witness:
  "\<exists>t. get_blob (toy_env False) (hash_of [3]) toy_gc = (Inr [3], t) \<and>
     guarded (blob_cache (self t)) = [(hash_of [3], [3])]"
proof -
  have "loose_serves (toy_env False) toy_gc (blob_path (self toy_gc) (hash_of [3])) (hash_of [3]) [3]"
    using toy_loose_serves by (simp add: blob_path_loose_at)
  then obtain t where run: "get_blob (toy_env False) (hash_of [3]) toy_gc = (Inr [3], t)"
    using get_blob_serves_loose [of "toy_env False" toy_gc] by (simp add: cached_def)
  moreover have "cache_bounded toy_gc"
    by (simp add: cache_bounded_def)
  from get_blob_lru [OF this run] have "guarded (blob_cache (self t)) = [(hash_of [3], [3])]"
    by simp
  ultimately show ?thesis by blast
qed

section \<open>Reading packed blobs\<close>

text \<open>The store's lock is free, and nothing or the indices on the disk are loaded.\<close>

definition packs_current :: "world \<Rightarrow> bool" where
  "packs_current s \<longleftrightarrow>
     \<not> poisoned (store_packs (self s)) \<and>
     (\<forall>cache. guarded (store_packs (self s)) = Some cache \<longrightarrow>
        (\<exists>ps. packs_at s (pack_dir (self s)) = Inr ps \<and> caches s ps cache \<and>
           (\<forall>p \<in> set ps. has_idx s p \<longrightarrow> (\<exists>index. idx_of s p = Inr index))))"

text \<open>Every index of the pack directory loads.\<close>

definition indices_load :: "world \<Rightarrow> path list \<Rightarrow> bool" where
  "indices_load s ps \<longleftrightarrow>
     packs_at s (pack_dir (self s)) = Inr ps \<and>
     (\<forall>p \<in> set ps. has_idx s p \<longrightarrow> (\<exists>index. idx_of s p = Inr index))"

lemma with_pack_cache_current:
  assumes "packs_current s" and "indices_load s ps"
  obtains cache t where "caches s ps cache" and "with_pack_cache f s = (Inr (f cache), t)"
    and "node_at t = node_at s" and "wf_disk s \<longrightarrow> wf_disk t" and "blob_cache (self t) = blob_cache (self s)"
    and "root (self t) = root (self s)"
proof (cases "guarded (store_packs (self s))")
  case None
  obtain cache where "load_all (pack_dir (self s)) s = (Inr cache, s)" "caches s ps cache"
    using load_all_succeeds [of s "pack_dir (self s)" ps] assms(2) by (auto simp: indices_load_def)
  with None assms(1) that [of cache "s\<lparr>self := (self s)\<lparr>store_packs := Mutex False (Some cache)\<rparr>\<rparr>"] show thesis
    by (simp add: with_pack_cache_def run_simps bindE_def map_err_def set_store_packs_def packs_current_def
        node_at_def fun_eq_iff wf_disk_def)
next
  case (Some cache)
  with assms have "caches s ps cache"
    by (auto simp: packs_current_def indices_load_def)
  with Some assms(1) that [of cache s] show thesis
    by (simp add: with_pack_cache_def run_simps packs_current_def)
qed

lemma get_blob_miss_packed:
  "\<not> path_exists s (blob_path (self s) h) \<Longrightarrow> get_blob_miss E h s =
     (case get_blob_packed E h s of
        (Inr data, t) \<Rightarrow> (Inr data, t)
      | (Inl e, t) \<Rightarrow> (Inl (case e of BlobNotFound _ \<Rightarrow> BlobNotFound (to_hex h) | _ \<Rightarrow> e), t))"
  by (simp add: get_blob_miss_def run_simps bindE_def attemptE_def split: prod.split sum.split)

text \<open>What \<open>get_blob_packed\<close> does once the cache is there.\<close>

lemma get_blob_packed_found:
  assumes "map_order_ok E" and "packs_current s" and "indices_load s ps"
  obtains (absent) t where "get_blob_packed E h s = (Inl (BlobNotFound (to_hex h)), t)"
      "\<forall>p \<in> set ps. indexed s p \<longrightarrow> h \<notin> pack_hashes s p"
  | (found) p t where "p \<in> set ps" "indexed s p" "h \<in> pack_hashes s p"
      "blob_cache (self t) = blob_cache (self s)"
      "get_blob_packed E h s = (case idx_of s p of
         Inl e \<Rightarrow> (Inl (Pack e), t)
       | Inr index \<Rightarrow> (case blob_in_pack E s p index h of
            Inl e \<Rightarrow> (Inl (Pack e), t) | Inr data \<Rightarrow> (Inr data, t)))"
proof -
  obtain cache t where cache: "caches s ps cache"
    and run: "with_pack_cache (\<lambda>cache. map_option fst (PackCache_find E cache h)) s =
      (Inr (map_option fst (PackCache_find E cache h)), t)"
    and t: "node_at t = node_at s" "blob_cache (self t) = blob_cache (self s)"
    by (rule with_pack_cache_current [OF assms(2,3)])
  show thesis
  proof (cases "PackCache_find E cache h")
    case None
    have "h \<notin> pack_hashes s p" if p: "p \<in> set ps" "indexed s p" for p
    proof -
      obtain index where "idx_of s p = Inr index" "has_idx s p"
        using p(2) by (auto simp: indexed_def)
      with p(1) cache have "map_of (indices cache) p = Some index" and "sorted (PackIndex_hashes index)"
        by (auto simp: caches_def idx_of_def index_at_sorted)
      with None PackCache_find_None [OF assms(1)] show ?thesis
        by (simp add: pack_hashes_def \<open>idx_of s p = Inr index\<close> PackIndex_find_None [symmetric])
    qed
    with None run show thesis
      by (intro absent [of t]) (simp_all add: get_blob_packed_def bindE_def run_atoms)
  next
    case (Some hit)
    obtain p off where hit: "hit = (p, off)" by (cases hit)
    obtain index where "map_of (indices cache) p = Some index" and find: "PackIndex_find index h = Some off"
      using PackCache_find_Some [OF assms(1)] Some hit by blast
    with cache have p: "p \<in> set ps" "has_idx s p" "idx_of s p = Inr index"
      by (auto simp: caches_def)
    moreover have "h \<in> pack_hashes s p"
      using PackIndex_find_absent [of h index] find p(3) by (fastforce simp: pack_hashes_def)
    moreover have "idx_of t p = idx_of s p" "blob_in_pack E t p index h = blob_in_pack E s p index h"
      using t(1) by (simp_all add: idx_of_def index_at_def PackIndex_load_def blob_in_pack_def
          PackFile_read_blob_def fs_read_def absent_error_def bindE_def map_err_def run_atoms
          split: option.split node.split sum.split)
    ultimately show thesis
      using Some hit run t(2)
      by (intro found [of p t])
        (auto simp: indexed_def get_blob_packed_def bindE_def run_atoms map_err_def PackIndex_load_eq
          PackFile_read_blob_eq idx_of_def [symmetric] split: sum.split)
  qed
qed

text \<open>
  C28. Reading a blob that is not a loose file, not cached, with every index of the pack directory
  loadable: if no index lists the digest the result is \<open>BlobNotFound\<close>, and if some index does
  and the packs that list it are good, its data is returned; which pack serves it may depend
  on the order of the map of indices, the data does not.
\<close>

theorem get_blob_from_packs:
  assumes "map_order_ok E" and "packs_current s" and "indices_load s ps"
    and "\<not> poisoned (blob_cache (self s))" and "cached s h = None"
    and "\<not> path_exists s (blob_path (self s) h)"
    and "\<forall>p \<in> set ps. indexed s p \<longrightarrow> h \<in> pack_hashes s p \<longrightarrow> pack_serves E s p h data"
  shows "\<exists>t. get_blob E h s =
    (if \<exists>p \<in> set ps. indexed s p \<and> h \<in> pack_hashes s p then Inr data
     else Inl (BlobNotFound (to_hex h)), t)"
  using assms(1-3)
proof (cases rule: get_blob_packed_found [where h = h])
  case (absent t)
  with assms(4-6) show ?thesis
    by (auto simp: get_blob_unhit bindE_def get_blob_miss_packed)
next
  case (found p t)
  with assms(7) have "pack_serves E s p h data" by blast
  then obtain index where "idx_of s p = Inr index" "blob_in_pack E s p index h = Inr data"
    by (auto simp: pack_serves_def idx_of_def)
  with found have packed: "get_blob_packed E h s = (Inr data, t)" by simp
  with assms(4-6) found(4) have "\<exists>u. get_blob E h s = (Inr data, u)"
    by (simp add: get_blob_unhit bindE_def get_blob_miss_packed cache_blob_eq run_atoms)
  moreover have "\<exists>p \<in> set ps. indexed s p \<and> h \<in> pack_hashes s p"
    using found(1-3) by blast
  ultimately show ?thesis by simp
qed

theorem get_blob_from_packs_witness:
  "\<exists>t. get_blob (toy_env False) (hash_of [2]) toy_gc = (Inr [2], t)"
proof -
  have "packs_current toy_gc"
    by (simp add: packs_current_def)
  moreover have "indices_load toy_gc [toy_pack_path]"
    by (simp add: indices_load_def toy_packs toy_idx)
  moreover have "\<not> path_exists toy_gc (blob_path (self toy_gc) (hash_of [2]))"
  proof -
    have "take 2 (to_hex (hash_of [2])) = ''02''" by code_simp
    then show ?thesis
      by (simp add: path_exists_def blob_path_loose_at loose_at_def node_at_def toy_paths)
  qed
  moreover have "pack_serves (toy_env False) toy_gc toy_pack_path (hash_of [2]) [2]"
    by (rule toy_pack_serves) (simp add: toy_objects_def)
  moreover have "indexed toy_gc toy_pack_path"
    by (simp add: indexed_def has_idx_def path_exists_def toy_pack_with_idx toy_node_at toy_idx)
  ultimately show ?thesis
    using get_blob_from_packs [OF toy_map_order, of toy_gc "[toy_pack_path]" "hash_of [2]" False "[2]"]
    by (simp add: cached_def toy_pack_hashes)
qed

lemma with_pack_cache_fails:
  assumes "packs_at s (pack_dir (self s)) = Inr ps" and "p \<in> set ps" and "has_idx s p"
    and "idx_of s p = Inl e" and "store_packs (self s) = Mutex False None"
  obtains e' where "get_blob_packed E h s = (Inl (Pack e'), s)" and "has_blob_packed E h s = (Inr False, s)"
proof -
  obtain e' where load: "load_all (pack_dir (self s)) s = (Inl e', s)"
    using load_all_fails [OF assms(1-4)] by blast
  have run: "with_pack_cache f s = (Inl (Pack e'), s)" for f :: "pack_cache \<Rightarrow> path option"
    using assms(5) load by (simp add: with_pack_cache_def run_simps bindE_def map_err_def)
  have run': "with_pack_cache f s = (Inl (Pack e'), s)" for f :: "pack_cache \<Rightarrow> bool"
    using assms(5) load by (simp add: with_pack_cache_def run_simps bindE_def map_err_def)
  show thesis
    by (rule that) (simp_all add: get_blob_packed_def has_blob_packed_def bindE_def attemptE_def run_atoms run run')
qed

text \<open>
  One index that does not load hides every pack. While the indices are not yet loaded, a
  packed blob cannot be read when any index of the directory is damaged, even if another
  pack with a good index serves the blob; \<open>has_blob\<close> then answers that there is no such blob.
\<close>

theorem one_bad_index_hides_all:
  assumes "packs_at s (pack_dir (self s)) = Inr ps" and "p \<in> set ps" and "has_idx s p"
    and "idx_of s p = Inl e"
    and "store_packs (self s) = Mutex False None" and "\<not> poisoned (blob_cache (self s))"
    and "cached s h = None" and "\<not> path_exists s (blob_path (self s) h)"
  shows "\<exists>e'. get_blob E h s = (Inl (Pack e'), s) \<and> has_blob E h s = (Inr False, s)"
proof -
  obtain e' where "get_blob_packed E h s = (Inl (Pack e'), s)" and "has_blob_packed E h s = (Inr False, s)"
    by (rule with_pack_cache_fails [OF assms(1-5)])
  with assms(6-8) show ?thesis
    by (simp add: get_blob_unhit bindE_def get_blob_miss_packed has_blob_def run_atoms)
qed

section \<open>Deletion\<close>

lemma delete_blob_eq:
  "delete_blob h s =
     (case fs_remove_file (blob_path (self s) h) s of
        (Inl e, t) \<Rightarrow> (Inl (if e = NotFound then BlobNotFound (to_hex h) else Io e), t)
      | (Inr u, t) \<Rightarrow> (Inr u, t))"
  by (simp add: delete_blob_def run_simps map_err_def)

lemma preserves_self_remove: "fs_remove_file p (s :: world) = (r, t) \<Longrightarrow> self t = self s"
  using upholdsD [OF preserves_self_disk [OF confined_fs_remove_file [of p "{p}"]]] by simp

text \<open>
  \<open>delete_blob\<close> removes the loose file of the digest and touches nothing else: success means
  that there was such a file and is none now, an error leaves every file as it was, and on a
  disk without faults a missing file is \<open>BlobNotFound\<close>.
\<close>

theorem delete_blob_spec:
  assumes "delete_blob h s = (r, t)"
  shows "store_step {blob_path (self s) h} s t \<and> self t = self s \<and>
    (r = Inr () \<longrightarrow> is_file_node (node_at s (blob_path (self s) h)) \<and> node_at t (blob_path (self s) h) = None) \<and>
    ((\<exists>e. r = Inl e) \<longrightarrow> node_at t = node_at s) \<and>
    (pending s = [] \<and> node_at s (blob_path (self s) h) = None \<and>
       (\<forall>q \<in> set (ancestors (blob_path (self s) h)). \<not> is_file_node (node_at s q)) \<longrightarrow>
     r = Inl (BlobNotFound (to_hex h)))"
proof -
  let ?p = "blob_path (self s) h"
  obtain q where run: "fs_remove_file ?p s = (q, t)"
    and r: "r = (case q of Inl e \<Rightarrow> Inl (if e = NotFound then BlobNotFound (to_hex h) else Io e) | Inr u \<Rightarrow> Inr u)"
    using assms by (cases "fs_remove_file ?p s") (auto simp: delete_blob_eq split: sum.splits)
  have "r = Inr () \<Longrightarrow> is_file_node (node_at s ?p) \<and> node_at t ?p = None"
    using r run fs_remove_ok_file [of ?p s "()" t] fs_remove_ok [of ?p s "()" t]
    by (cases q) (auto simp: is_file_node_def)
  moreover have "node_at t = node_at s" if "r = Inl e" for e
    using r run that by (cases q) (auto dest: fs_remove_err)
  moreover have "r = Inl (BlobNotFound (to_hex h))" if "pending s = []" "node_at s ?p = None"
      "\<forall>q \<in> set (ancestors ?p). \<not> is_file_node (node_at s q)"
    using that run r by (simp add: fs_remove_file_def run_simps bindE_def absent_error_def list_ex_iff)
      (auto simp: list_ex_iff)
  ultimately show ?thesis
    using delete_blob_step [OF assms] preserves_self_remove [OF run] by blast
qed

text \<open>
  A deleted blob can still be read. \<open>delete_blob\<close> leaves the blob cache as it is, so a blob that
  this store object has read before is returned by \<open>get_blob\<close> after its deletion succeeded,
  while \<open>has_blob\<close> may already deny it.
\<close>

theorem deleted_blob_still_cached:
  assumes "cached s h = Some data" and "\<not> poisoned (blob_cache (self s))"
    and "delete_blob h s = (Inr (), t)"
  shows "node_at t (blob_path (self t) h) = None \<and> (\<exists>u. get_blob E h t = (Inr data, u))"
proof -
  obtain q where run: "fs_remove_file (blob_path (self s) h) s = (q, t)" and q: "q = Inr ()"
    using assms(3) by (cases "fs_remove_file (blob_path (self s) h) s") (auto simp: delete_blob_eq split: sum.splits)
  have t: "self t = self s"
    by (rule preserves_self_remove [OF run])
  then have "\<exists>u. get_blob E h t = (Inr data, u)"
    using get_blob_hit [of t h data E] assms(1,2) by (fastforce simp: cached_def)
  with t fs_remove_ok run q show ?thesis by simp
qed

section \<open>Enumeration\<close>

text \<open>
  \<open>list_blobs\<close> returns the digests of the loose files in ascending order: the sorted list of
  what the names of the files outside \<open>pack/\<close> stand for, so every blob with a file at its
  own path is listed, whatever the order in which the directories are enumerated.
\<close>

theorem list_blobs_spec:
  assumes "wf_disk s" and "node_at s (objects_dir (self s)) = Some Dir"
  shows "\<exists>hs. list_blobs s = (Inr hs, s) \<and> sorted hs \<and>
    (\<forall>h. h \<in> set hs \<longleftrightarrow>
       (\<exists>x y. x \<noteq> ''pack'' \<and> node_at s (objects_dir (self s) @ [x]) = Some Dir \<and>
          is_file_node (node_at s (objects_dir (self s) @ [x, y])) \<and> named_hash (x, y) = Some h)) \<and>
    (\<forall>h. node_at s (butlast (blob_path (self s) h)) = Some Dir \<longrightarrow>
       is_file_node (node_at s (blob_path (self s) h)) \<longrightarrow> h \<in> set hs)"
proof (intro exI conjI allI impI)
  show "list_blobs s = (Inr (loose_hashes s (objects_dir (self s))), s)"
    using assms by (intro list_blobs_eq) simp_all
  show "h \<in> set (loose_hashes s (objects_dir (self s))) \<longleftrightarrow>
       (\<exists>x y. x \<noteq> ''pack'' \<and> node_at s (objects_dir (self s) @ [x]) = Some Dir \<and>
          is_file_node (node_at s (objects_dir (self s) @ [x, y])) \<and> named_hash (x, y) = Some h)" for h
    by (rule mem_loose_hashes [OF assms])
  show "h \<in> set (loose_hashes s (objects_dir (self s)))"
    if "node_at s (butlast (blob_path (self s) h)) = Some Dir" "is_file_node (node_at s (blob_path (self s) h))" for h
  proof -
    have "take 2 (to_hex h) \<noteq> ''pack'' \<and>
        node_at s (objects_dir (self s) @ [take 2 (to_hex h)]) = Some Dir \<and>
        is_file_node (node_at s (objects_dir (self s) @ [take 2 (to_hex h), drop 2 (to_hex h)])) \<and>
        named_hash (take 2 (to_hex h), drop 2 (to_hex h)) = Some h"
      using that bucket_not_pack [of h] named_hash_canonical [of h]
      by (simp add: blob_path_def objects_dir_def Let_def butlast_append)
    then show ?thesis
      unfolding mem_loose_hashes [OF assms] by blast
  qed
qed (rule sorted_loose_hashes)

lemma distinct_loose_files:
  assumes "wf_disk d"
  shows "distinct (loose_files d dir)"
proof -
  have bucket: "distinct (bucket_files d dir x)" for x
  proof -
    have "distinct (map fst (filter P (children d (dir @ [fst x]))))" for P
      using distinct_children_names [OF assms] by (rule distinct_map_filter)
    then have "distinct (map (Pair (fst x)) (map fst (filter P (children d (dir @ [fst x])))))" for P
      by (subst distinct_map) (auto intro: inj_onI)
    then show ?thesis
      by (simp add: bucket_files_def case_prod_unfold comp_def)
  qed
  have apart: "set (bucket_files d dir x) \<inter> set (bucket_files d dir y) = {}" if "fst x \<noteq> fst y" for x y
    using that by (auto simp: bucket_files_def split: if_splits prod.splits)
  have "distinct (map fst xs) \<Longrightarrow> distinct (concat (map (bucket_files d dir) xs))" for xs
  proof (induction xs)
    case (Cons x xs)
    then have "set (bucket_files d dir x) \<inter> set (bucket_files d dir y) = {}" if "y \<in> set xs" for y
      using that by (intro apart) auto
    then have "set (bucket_files d dir x) \<inter> set (concat (map (bucket_files d dir) xs)) = {}"
      by (simp only: set_concat set_map) blast
    with Cons bucket show ?case by simp
  qed simp
  then show ?thesis
    unfolding loose_files_def using distinct_children_names [OF assms] by blast
qed

text \<open>The fold of a total over the files.\<close>

lemma foldE_count: "foldE (\<lambda>x n. returnE (Suc n)) xs n s = (Inr (n + length xs), s)"
  by (induction xs arbitrary: n) (simp_all add: run_simps bindE_def)

lemma foldE_sum:
  "\<forall>x \<in> set xs. f x s = (Inr (g x), s) \<Longrightarrow>
     foldE (\<lambda>x n. bindE (f x) (\<lambda>m. returnE (n + m))) xs (n :: nat) s = (Inr (n + sum_list (map g xs)), s)"
  by (induction xs arbitrary: n) (simp_all add: run_simps bindE_def add.assoc)

text \<open>
  \<open>blob_count\<close> is the number of loose files outside \<open>pack/\<close> and \<open>total_size\<close> the sum of their
  lengths, each file counted once, whether or not its name is a digest.
\<close>

theorem blob_count_total_size:
  assumes "wf_disk s" and "node_at s (objects_dir (self s)) = Some Dir"
  shows "\<exists>files. distinct files \<and>
    (\<forall>x y. (x, y) \<in> set files \<longleftrightarrow> x \<noteq> ''pack'' \<and> node_at s (objects_dir (self s) @ [x]) = Some Dir \<and>
       is_file_node (node_at s (objects_dir (self s) @ [x, y]))) \<and>
    blob_count s = (Inr (length files), s) \<and>
    total_size s = (Inr (\<Sum>(x, y) \<leftarrow> files. node_len s (objects_dir (self s) @ [x, y])), s)"
proof (intro exI conjI allI)
  let ?dir = "objects_dir (self s)"
  show "distinct (loose_files s ?dir)"
    by (rule distinct_loose_files [OF assms(1)])
  show "(x, y) \<in> set (loose_files s ?dir) \<longleftrightarrow> x \<noteq> ''pack'' \<and> node_at s (?dir @ [x]) = Some Dir \<and>
       is_file_node (node_at s (?dir @ [x, y]))" for x y
    by (rule mem_loose_files [OF assms(1)])
  show "blob_count s = (Inr (length (loose_files s ?dir)), s)"
    by (simp add: blob_count_def each_loose_file_eq [OF assms] hoare case_prod_unfold foldE_count)
  have len: "\<forall>x \<in> set (loose_files s ?dir). map_err Io (metadata_len (?dir @ [fst x, snd x])) s =
      (Inr (node_len s (?dir @ [fst x, snd x])), s)"
  proof
    fix x
    assume "x \<in> set (loose_files s ?dir)"
    then have "is_file_node (node_at s (?dir @ [fst x, snd x]))"
      using mem_loose_files [OF assms(1), of "fst x" "snd x"] by simp
    then show "map_err Io (metadata_len (?dir @ [fst x, snd x])) s = (Inr (node_len s (?dir @ [fst x, snd x])), s)"
      by (auto simp: is_file_node_def map_err_def metadata_len_def node_len_def split: option.splits node.splits)
  qed
  have "reads (bindE (map_err Io (metadata_len (?dir @ [d, n]))) (\<lambda>m. returnE (a + m)) :: nat store_prog)" for d n a
    by (intro hoare)
  then show "total_size s = (Inr (\<Sum>(x, y) \<leftarrow> loose_files s ?dir. node_len s (?dir @ [x, y])), s)"
    using foldE_sum [where f = "\<lambda>x. map_err Io (metadata_len (?dir @ [fst x, snd x]))", OF len] by (simp add: total_size_def run_simps each_loose_file_eq [OF assms] case_prod_unfold)
qed

end
