(* ===== verification/RepackSpec.thy ===== *)
theory RepackSpec
  imports PackSpec
begin

text \<open>
  The properties of repacking: moving all loose blobs into one pack, on a disk that may fail at
  any step.
\<close>

section \<open>The phases of a repack\<close>

text \<open>The blobs that \<open>repack\<close> reads, with the state it leaves.\<close>

definition gather :: "env \<Rightarrow> hash list \<Rightarrow> (hash \<times> bytes) list store_prog" where
  "gather E hs = mapE (\<lambda>h. bindE (get_blob E h) (\<lambda>data. returnE (h, data))) hs"

lemma gather_triple:
  assumes "cache_true E s"
  shows "triple (\<lambda>u. u = s) (gather E hs)
    (\<lambda>objects u. map fst objects = hs \<and> store_step {} s u \<and>
       (\<forall>(h, data) \<in> set objects. hash_bytes E data = h))
    (\<lambda>_ u. store_step {} s u)"
proof -
  let ?I = "\<lambda>pre objects u. map fst objects = pre \<and> store_step {} s u \<and> cache_true E u \<and>
    (\<forall>(h, data) \<in> set objects. hash_bytes E data = h)"
  have "triple (?I [] []) (gather E hs) (?I hs) (\<lambda>_. store_step {} s)"
    unfolding gather_def mapE_def
  proof (rule triple_foldE)
    fix pre h post objects
    have turn: "store_step {} s v \<and> cache_true E v \<and> (\<forall>data. res = Inr data \<longrightarrow> hash_bytes E data = h)"
      if inv: "?I pre objects u" and run: "get_blob E h u = (res, v)" for u v res
    proof -
      have "store_step {} s v"
        using inv upholdsD [OF changes_only_get_blob run] storing.related_trans by blast
      moreover have "cache_true E v"
        using inv upholdsD [OF keeps_cache_true_get_blob run] by blast
      ultimately show ?thesis
        using inv run get_blob_hash by blast
    qed
    show "triple (?I pre objects) (bindE (bindE (get_blob E h) (\<lambda>data. returnE (h, data)))
        (\<lambda>y. returnE (objects @ [y]))) (?I (pre @ [h])) (\<lambda>_. store_step {} s)"
    proof (rule tripleI)
      fix u objects' v
      assume inv: "?I pre objects u" and "bindE (bindE (get_blob E h) (\<lambda>data. returnE (h, data)))
        (\<lambda>y. returnE (objects @ [y])) u = (Inr objects', v)"
      then obtain data where "get_blob E h u = (Inr data, v)" "objects' = objects @ [(h, data)]"
        by (auto simp: bindE_eq run_atoms)
      with turn [OF inv] inv show "?I (pre @ [h]) objects' v" by auto
    next
      fix u e v
      assume inv: "?I pre objects u" and "bindE (bindE (get_blob E h) (\<lambda>data. returnE (h, data)))
        (\<lambda>y. returnE (objects @ [y])) u = (Inl e, v)"
      then have "get_blob E h u = (Inl e, v)"
        by (auto simp: bindE_eq run_atoms)
      with turn [OF inv] show "store_step {} s v" by blast
    qed
  qed
  then show ?thesis
    by (rule triple_weaken) (use assms in auto)
qed

text \<open>The deletions, whose errors are ignored.\<close>

lemma deletions_step:
  assumes "(mapE (\<lambda>h. attemptE (delete_blob h)) hs :: (world, 'e, (cas_error + unit) list) prog) s = (r, t)"
  shows "store_step (loose_at (root (self s)) ` set hs) s t \<and> (\<exists>rs. r = Inr rs)"
proof -
  let ?S = "loose_at (root (self s)) ` set hs"
  have "triple (store_step ?S s)
      (mapE (\<lambda>h. attemptE (delete_blob h)) hs :: (world, 'e, (cas_error + unit) list) prog) (\<lambda>_. store_step ?S s) (\<lambda>_ _. False)"
    unfolding mapE_def
  proof (rule triple_foldE [where I = "\<lambda>_ _. store_step ?S s"])
    fix pre h post and a :: "(cas_error + unit) list"
    assume "hs = pre @ h # post"
    then have h: "h \<in> set hs" by simp
    have step: "store_step ?S s v" if u: "store_step ?S s u" and run: "delete_blob h u = (q, v)" for u v q
    proof -
      have "root (self u) = root (self s)"
        using store_step_config [OF u] by (simp add: same_config_def)
      then have "store_step ?S u v"
        using delete_blob_step [OF run] h by (auto simp: blob_path_loose_at intro: store_step_mono)
      with u show ?thesis by (rule storing.related_trans)
    qed
    show "triple (store_step ?S s) (bindE (attemptE (delete_blob h)) (\<lambda>y. returnE (a @ [y])))
        (\<lambda>_. store_step ?S s) (\<lambda>_ _. False)"
      by (rule tripleI) (auto simp: bindE_eq attemptE_eq run_atoms intro: step)
  qed
  from triple_ok [OF this store_step_refl] triple_err [OF this store_step_refl] assms show ?thesis
    by (cases r) blast+
qed

lemma repack_cases:
  assumes "repack E threshold s = (r, t)" and "wf_disk s" and "cache_true E s"
  obtains (idle) "store_step {} s t" "\<forall>n. r = Inr n \<longrightarrow> n = 0"
  | (unwritten) hs objects u e where "hs = loose_hashes s (objects_dir (self s))"
      "gather E hs s = (Inr objects, u)" "store_step {} s u" "r = Inl e" "map fst objects = hs"
      "\<exists>e'. PackFile_create E (pack_dir (self s)) objects u = (Inl e', t)"
  | (packed) hs objects u pair v rs w where "hs = loose_hashes s (objects_dir (self s))"
      "gather E hs s = (Inr objects, u)" "store_step {} s u" "map fst objects = hs"
      "threshold < length hs" "r = Inr (length hs)"
      "PackFile_create E (pack_dir (self s)) objects u = (Inr pair, v)"
      "(mapE (\<lambda>h. attemptE (delete_blob h)) hs :: (cas_error + unit) list store_prog) v = (Inr rs, w)"
      "store_step (loose_at (root (self s)) ` set hs) v w" "store_step {} w t"
      "\<forall>(h, data) \<in> set objects. hash_bytes E data = h"
proof -
  obtain lr l where list: "list_blobs s = (lr, l)"
    by (cases "list_blobs s")
  have l: "l = s"
    using reads_list_blobs list by (rule readsD)
  show thesis
  proof (cases lr)
    case (Inl e)
    with assms(1) list l show thesis
      by (intro idle) (auto simp: repack_def bindE_def)
  next
    case (Inr hs)
    with list l have hs: "hs = loose_hashes s (objects_dir (self s))"
      using list_blobs_ok [OF assms(2)] by blast
    show thesis
    proof (cases "length hs \<le> threshold")
      case True
      with assms(1) list l Inr show thesis
        by (intro idle) (auto simp: repack_def bindE_def run_atoms)
    next
      case long: False
      obtain gr u where g: "gather E hs s = (gr, u)"
        by (cases "gather E hs s")
      have rest: "repack E threshold s = (case gather E hs s of (Inl e, u) \<Rightarrow> (Inl e, u)
        | (Inr objects, u) \<Rightarrow>
          bindE (map_err Pack (PackFile_create E (pack_dir (self u)) objects)) (\<lambda>_.
          bindE (mapE (\<lambda>h. attemptE (delete_blob h)) hs) (\<lambda>_.
          bindE invalidate_pack_cache (\<lambda>_.
          returnE (length hs)))) u)"
        using list l Inr long
        by (simp add: repack_def bindE_def run_atoms gather_def split: prod.split sum.split)
      show thesis
      proof (cases gr)
        case (Inl e)
        with g have "store_step {} s u"
          using triple_err [OF gather_triple [OF assms(3)] refl] by blast
        with Inl g rest assms(1) show thesis
          by (intro idle) auto
      next
        case objects: (Inr objects)
        have gathered: "map fst objects = hs" "store_step {} s u" "\<forall>(h, data) \<in> set objects. hash_bytes E data = h"
          using triple_ok [OF gather_triple [OF assms(3)] refl] g objects by blast+
        then have root: "root (self u) = root (self s)"
          using store_step_config by (simp add: same_config_def)
        then have dir: "pack_dir (self u) = pack_dir (self s)"
          by (simp add: pack_dir_def)
        obtain cr v where c: "PackFile_create E (pack_dir (self s)) objects u = (cr, v)"
          by (cases "PackFile_create E (pack_dir (self s)) objects u")
        show thesis
        proof (cases cr)
          case (Inl e)
          with g objects rest c dir assms(1) hs gathered show thesis
            by (intro unwritten [of hs objects u "Pack e"]) (auto simp: bindE_def map_err_def)
        next
          case (Inr pair)
          obtain dr w where d: "(mapE (\<lambda>h. attemptE (delete_blob h)) hs :: (cas_error + unit) list store_prog) v = (dr, w)"
            by (metis surj_pair)
          have "self v = self u"
            using upholdsD [OF preserves_self_disk [OF confined_PackFile_create [OF order_refl]] c] .
          with root have w: "store_step (loose_at (root (self s)) ` set hs) v w" and dr: "\<exists>rs. dr = Inr rs"
            using deletions_step [OF d] by simp_all
          obtain ir x where i: "invalidate_pack_cache w = (ir, x)"
            by (cases "invalidate_pack_cache w")
          have x: "store_step {} w x"
            using upholdsD [OF changes_only_invalidate i] .
          from dr obtain rs where rs: "dr = Inr rs" ..
          have ir: "ir = Inr ()"
            using i by (auto simp: invalidate_pack_cache_def bindE_def attemptE_def lock_eq set_store_packs_def
                run_atoms split: if_splits)
          have "r = Inr (length hs) \<and> t = x"
            using assms(1) rest g objects dir c Inr d dr i ir
            by (auto simp: bindE_def map_err_def run_atoms)
          with hs g objects gathered long c Inr w x d rs show thesis
            by (intro packed [of hs objects u pair v rs w]) simp_all
        qed
      qed
    qed
  qed
qed

section \<open>No blob is lost\<close>

text \<open>
  There is room for the new pack: no digest is listed twice, their number and the offsets fit the
  format, and nothing on the disk has the name of the new pack or its index. The sizes of the
  single blobs are not limited here.
\<close>

definition repack_room :: "env \<Rightarrow> world \<Rightarrow> bool" where
  "repack_room E s \<longleftrightarrow>
     distinct (loose_hashes s (objects_dir (self s))) \<and>
     length (loose_hashes s (objects_dir (self s))) < 2 ^ 32 \<and>
     (\<forall>objects u. gather E (loose_hashes s (objects_dir (self s))) s = (Inr objects, u) \<longrightarrow>
        (\<forall>pd ies. pack_objects E objects (pack_header objects) [] = Inr (pd, ies) \<longrightarrow> length pd < 2 ^ 64) \<and>
        (\<forall>p \<in> set (new_pack_paths E (pack_dir (self s)) objects). \<not> path_exists s p))"

text \<open>The data that a repack reads for a digest, and packs.\<close>

definition repack_reads :: "env \<Rightarrow> world \<Rightarrow> hash \<Rightarrow> bytes \<Rightarrow> bool" where
  "repack_reads E s h data \<longleftrightarrow>
     (\<exists>objects u. gather E (loose_hashes s (objects_dir (self s))) s = (Inr objects, u) \<and>
        (h, data) \<in> set objects)"

lemma repack_roomD:
  assumes "repack_room E s" and "gather E (loose_hashes s (objects_dir (self s))) s = (Inr objects, u)"
    and "map fst objects = loose_hashes s (objects_dir (self s))"
  shows "indexable E objects"
    and "\<forall>p \<in> set (new_pack_paths E (pack_dir (self s)) objects). \<not> path_exists s p"
  using assms unfolding repack_room_def indexable_def by (metis length_map)+

lemma new_pack_not_loose: "loose_at (root st) h \<notin> set (new_pack_paths E (pack_dir st) objects)"
  by (auto simp: new_pack_paths_def pair_paths_def pack_dir_def split: sum.split)

lemma pack_not_loose:
  "r @ [''objects'', ''pack'', name] \<notin> loose_at r ` H"
  "with_extension (r @ [''objects'', ''pack'', name]) ext \<notin> loose_at r ` H"
proof -
  have "loose_at r h \<noteq> r @ [''objects'', ''pack'', x]" for h x
    by (rule loose_at_not_pack)
  moreover have "with_extension (r @ [''objects'', ''pack'', name]) ext =
      r @ [''objects'', ''pack'', file_stem name @ ''.'' @ ext]"
    by (simp add: with_extension_def butlast_append)
  ultimately show "r @ [''objects'', ''pack'', name] \<notin> loose_at r ` H"
    "with_extension (r @ [''objects'', ''pack'', name]) ext \<notin> loose_at r ` H"
    by (simp_all only: image_iff) metis+
qed

lemma held_step:
  assumes "store_step S s t" and "loose_at r h \<notin> S"
    and "\<And>p. path_exists s p \<Longrightarrow> is_under (r @ [''objects'', ''pack'']) p \<Longrightarrow> p \<notin> S"
    and "held E s r h data"
  shows "held E t r h data"
  using assms(4) unfolding held_def
proof (elim disjE exE conjE)
  assume "loose_serves E s (loose_at r h) h data"
  then show "loose_serves E t (loose_at r h) h data \<or>
      (\<exists>name. is_pack_name name \<and> pack_serves E t (r @ [''objects'', ''pack'', name]) h data)"
    by (simp add: loose_serves_step [OF assms(1,2)])
next
  fix name
  let ?p = "r @ [''objects'', ''pack'', name]"
  assume name: "is_pack_name name" and serves: "pack_serves E s ?p h data"
  have "with_extension ?p ''idx'' = r @ [''objects'', ''pack'', file_stem name @ ''.idx'']"
    by (simp add: with_extension_def butlast_append)
  moreover have "path_exists s ?p" and "path_exists s (with_extension ?p ''idx'')"
    using pack_serves_exists [OF serves] by (simp_all add: has_idx_def)
  moreover have "is_under (r @ [''objects'', ''pack'']) (r @ [''objects'', ''pack'', x])" for x
    by simp
  ultimately have "?p \<notin> S" and "with_extension ?p ''idx'' \<notin> S"
    by (simp_all add: assms(3))
  then have "pack_serves E t ?p h data"
    using serves pack_serves_step [OF assms(1)] by blast
  with name show "loose_serves E t (loose_at r h) h data \<or>
      (\<exists>name. is_pack_name name \<and> pack_serves E t (r @ [''objects'', ''pack'', name]) h data)"
    by blast
qed

text \<open>The new pack after the deletions: exactly what it can give back is served.\<close>

lemma repacked_serves:
  assumes codec: "codec_ok E" and fits: "indexable E objects"
    and create: "PackFile_create E (r @ [''objects'', ''pack'']) objects u = (Inr pair, v)"
    and step: "store_step (loose_at r ` H) v t"
    and hashes: "\<forall>(h, data) \<in> set objects. hash_bytes E data = h"
  obtains name x where "is_pack_name name" and "name = pack_name E x @ ''.pack''"
    and "set (new_pack_paths E (r @ [''objects'', ''pack'']) objects) =
      {r @ [''objects'', ''pack'', name], r @ [''objects'', ''pack'', pack_name E x @ ''.idx'']}"
    and "\<And>h data. (h, data) \<in> set objects \<Longrightarrow> unpackable E data \<Longrightarrow>
      pack_serves E t (r @ [''objects'', ''pack'', name]) h data"
    and "\<And>h data out. (h, data) \<in> set objects \<Longrightarrow> payload_fits E data \<Longrightarrow> feature_zstd E \<Longrightarrow>
      MAX_DECOMPRESSED_SIZE < length data \<Longrightarrow> \<not> pack_serves E t (r @ [''objects'', ''pack'', name]) h out"
proof -
  let ?dir = "r @ [''objects'', ''pack'']"
  obtain p i where pair: "pair = (p, i)" by (cases pair)
  from create [unfolded pair] obtain pd ies where image: "pack_objects E objects (pack_header objects) [] = Inr (pd, ies)"
    and p: "p = ?dir @ [pack_name E (serialize_index ies) @ ''.pack'']" and i: "i = with_extension p ''idx''"
    and nodes: "node_at v p = Some (File pd)" "node_at v i = Some (File (serialize_index ies))"
    by (rule PackFile_create_ok)
  let ?name = "pack_name E (serialize_index ies) @ ''.pack''"
  have p': "p = r @ [''objects'', ''pack'', ?name]"
    by (simp add: p)
  have kept: "pack_serves E t p h data \<longleftrightarrow> pack_serves E v p h data" for h data
    using pack_serves_step [OF step] pack_not_loose [of r ?name] unfolding p' by blast
  have hash: "hash_bytes E data = h" if "(h, data) \<in> set objects" for h data
    using hashes that by blast
  have lossless: "feature_zstd E \<Longrightarrow> zstd_lossless E"
    using codec by (simp add: codec_ok_def)
  have "pack_serves E t p h data" if "(h, data) \<in> set objects" "unpackable E data" for h data
    using pack_files_serve_one [OF lossless fits image that(1) hash [OF that(1)] that(2) nodes(1) nodes(2) [unfolded i]] kept
    by blast
  moreover have "\<not> pack_serves E t p h out" if "(h, data) \<in> set objects" "payload_fits E data"
    "feature_zstd E" "MAX_DECOMPRESSED_SIZE < length data" for h data out
    using pack_files_too_large [OF that(3) lossless [OF that(3)] fits image that(1) hash [OF that(1)] that(2,4)
        nodes(1) nodes(2) [unfolded i]] kept by blast
  moreover have "set (new_pack_paths E ?dir objects) =
      {p, r @ [''objects'', ''pack'', pack_name E (serialize_index ies) @ ''.idx'']}"
    by (simp add: new_pack_paths_def image pair_paths_def p)
  ultimately show thesis
    by (intro that [of ?name "serialize_index ies"]) (simp_all add: p' is_pack_name_def utf8_valid_pack_name)
qed

text \<open>The loose blobs of the example store can be repacked.\<close>

definition toy_loose_objects :: "(hash \<times> bytes) list" where
  "toy_loose_objects = [(hash_of [3], [3]), (hash_of [4], [4])]"

lemma toy_loose_hashes: "loose_hashes toy_gc [''r'', ''objects''] = [hash_of [3], hash_of [4]]"
  by (simp add: loose_hashes_def toy_node_at toy_loose_files List.map_filter_simps toy_named
      less_eq_hash_def digest_hash_of)

lemma toy_gather:
  obtains u c where "gather (toy_env False) [hash_of [3], hash_of [4]] toy_gc = (Inr toy_loose_objects, u)"
    and "u = toy_gc\<lparr>self := (toy_store False)\<lparr>blob_cache := c\<rparr>\<rparr>"
proof -
  let ?E = "toy_env False"
  have "loose_serves ?E toy_gc (blob_path (self toy_gc) (hash_of [3])) (hash_of [3]) [3]"
    using toy_loose_serves by (simp add: blob_path_loose_at)
  from get_blob_serves_loose [OF this] obtain u where 3: "get_blob ?E (hash_of [3]) toy_gc = (Inr [3], u)"
    and u: "u = toy_gc\<lparr>self := (toy_store False)\<lparr>blob_cache := Mutex False [(hash_of [3], [3])]\<rparr>\<rparr>"
    by (simp add: cached_def cache_insert_def BLOB_CACHE_CAPACITY_def)
  have "loose_serves ?E u (blob_path (self u) (hash_of [4])) (hash_of [4]) [4]"
    by (simp add: u loose_serves_def blob_path_loose_at toy_loose_at node_at_def toy_paths unpack_loose_def
        is_zstd_compressed_def)
  from get_blob_serves_loose [OF this] obtain v c where "get_blob ?E (hash_of [4]) u = (Inr [4], v)"
      and "v = toy_gc\<lparr>self := (toy_store False)\<lparr>blob_cache := c\<rparr>\<rparr>"
    by (simp add: u cached_def)
  with 3 show thesis
    by (intro that) (simp_all add: gather_def mapE_def bindE_def run_atoms toy_loose_objects_def)
qed

lemma toy_loose_image:
  obtains pd ies where
    "pack_objects (toy_env False) toy_loose_objects (pack_header toy_loose_objects) [] = Inr (pd, ies)"
    and "length pd = 96"
  by (simp add: toy_loose_objects_def)

lemma toy_reads:
  "repack_reads (toy_env False) toy_gc h data \<longleftrightarrow> (h, data) \<in> set toy_loose_objects"
proof -
  obtain u where "gather (toy_env False) [hash_of [3], hash_of [4]] toy_gc = (Inr toy_loose_objects, u)"
    by (rule toy_gather)
  then show ?thesis
    by (simp add: repack_reads_def toy_loose_hashes)
qed

lemma toy_repack_room: "repack_room (toy_env False) toy_gc"
proof -
  obtain u c where gather: "gather (toy_env False) [hash_of [3], hash_of [4]] toy_gc = (Inr toy_loose_objects, u)"
    by (rule toy_gather)
  obtain pd ies where image: "pack_objects (toy_env False) toy_loose_objects (pack_header toy_loose_objects) [] = Inr (pd, ies)"
      and "length pd = 96"
    by (rule toy_loose_image)
  moreover have "\<forall>p \<in> set (new_pack_paths (toy_env False) (pack_dir (self toy_gc)) toy_loose_objects).
      \<not> path_exists toy_gc p"
    using toy_new_absent by (simp add: new_pack_paths_def image)
  moreover have "hash_of [3] \<noteq> hash_of [4]"
    by code_simp
  ultimately show ?thesis
    using gather by (auto simp: repack_room_def toy_loose_hashes)
qed

lemma toy_unpackable: "length data < 2 ^ 32 \<Longrightarrow> unpackable (toy_env False) data"
  by (simp add: unpackable_def payload_fits_def)

lemma toy_cache_true: "cache_true (toy_env z) toy_gc"
  by (simp add: cache_true_def)

lemma written_keeps:
  assumes "PackFile_create E (pack_dir (self s)) objects u = (r, v)" and "store_step {} s u"
    and "store_step (loose_at (root (self s)) ` hs) v t"
    and "\<forall>p \<in> set (new_pack_paths E (pack_dir (self s)) objects). \<not> path_exists s p"
    and "held E s (root (self s)) h data" and "h \<notin> hs"
  shows "\<exists>data'. held E t (root (self s)) h data'"
proof -
  let ?r = "root (self s)" and ?new = "set (new_pack_paths E (pack_dir (self s)) objects)"
  let ?S = "?new \<union> loose_at ?r ` hs"
  have "changes_only ?S (PackFile_create E (pack_dir (self s)) objects)"
    by (rule hoare) simp
  then have "store_step ?S u v"
    using assms(1) upholdsD by metis
  moreover have "store_step ?S s u" "store_step ?S v t"
    using assms(2,3) by (auto intro: store_step_mono)
  ultimately have step: "store_step ?S s t"
    by (meson storing.related_trans)
  have "loose_at ?r h \<notin> ?S"
    using assms(6) new_pack_not_loose by auto
  moreover have "p \<notin> ?S" if "path_exists s p" "is_under (?r @ [''objects'', ''pack'']) p" for p
  proof -
    have "loose_at ?r g \<noteq> p" for g
      using that(2) bucket_not_pack [of g] by (auto simp: is_under_iff loose_at_def)
    with that(1) assms(4) show ?thesis by auto
  qed
  ultimately show ?thesis
    using held_step [OF step _ _ assms(5)] by blast
qed

text \<open>
  C3. A repack loses no blob that a pack can give back. Whatever faults the disk has and however the
  repack ends, a blob that the store held before, loose or packed, is held after it, provided that:
  the bytes repack reads for its digest, if it does, can be packed and read again (with zstd at most
  \<open>MAX_DECOMPRESSED_SIZE\<close>, and a payload below 4 GiB; larger blobs are lost, as C26 shows); the
  new pack has room (\<open>repack_room\<close>: no digest is listed twice, counts and offsets fit
  the format, and its name is not taken); the codec is right; and verification is on and the
  cache holds no wrong bytes (by C4 this is so if verification was never switched off).
\<close>

theorem repack_keeps_blobs:
  assumes "codec_ok E" and "wf_disk s" and "cache_true E s" and "repack_room E s"
    and "\<forall>read. repack_reads E s h read \<longrightarrow> unpackable E read"
    and "held E s (root (self s)) h data" and "repack E threshold s = (r, t)"
  shows "\<exists>data'. held E t (root (self s)) h data' \<and> hash_bytes E data' = h"
proof -
  let ?r = "root (self s)"
  from assms(7,2,3) have "\<exists>data'. held E t ?r h data'"
  proof (cases rule: repack_cases)
    case idle
    from held_step [OF this(1) _ _ assms(6)] show ?thesis by auto
  next
    case (unwritten hs objects u e)
    then have "\<forall>p \<in> set (new_pack_paths E (pack_dir (self s)) objects). \<not> path_exists s p"
      using repack_roomD(2) [OF assms(4)] by blast
    moreover obtain e' where "PackFile_create E (pack_dir (self s)) objects u = (Inl e', t)"
      using unwritten(6) by blast
    ultimately show ?thesis
      using written_keeps [where hs = "{}", OF _ unwritten(3) _ _ assms(6)] by simp
  next
    case (packed hs objects u pair v rs w)
    have room: "indexable E objects" "\<forall>p \<in> set (new_pack_paths E (pack_dir (self s)) objects). \<not> path_exists s p"
      using repack_roomD [OF assms(4)] packed(1,2,4) by blast+
    have step: "store_step (loose_at ?r ` set hs) v t"
      using packed(9,10) by (meson empty_subsetI store_step_mono storing.related_trans)
    show ?thesis
    proof (cases "h \<in> set hs")
      case True
      then obtain d where d: "(h, d) \<in> set objects"
        using packed(4) by (auto simp: image_iff)
      then have "unpackable E d"
        using assms(5) packed(1,2) by (auto simp: repack_reads_def)
      with d obtain name where "is_pack_name name" "pack_serves E t (?r @ [''objects'', ''pack'', name]) h d"
        using repacked_serves [OF assms(1) room(1) packed(7) [unfolded pack_dir_def] step packed(11)] by metis
      then show ?thesis
        unfolding held_def by blast
    next
      case False
      show ?thesis
        by (rule written_keeps [OF packed(7,3) step room(2) assms(6) False])
    qed
  qed
  then show ?thesis
    using held_hash by blast
qed

theorem repack_keeps_blobs_witness:
  "\<exists>data. held (toy_env False) (snd (repack (toy_env False) 1 toy_gc)) [''r''] (hash_of [3]) data \<and>
     hash_bytes (toy_env False) data = hash_of [3]"
proof -
  have held: "held (toy_env False) toy_gc (root (self toy_gc)) (hash_of [3]) [3]"
    using toy_loose_serves by (simp add: held_def)
  have "\<forall>read. repack_reads (toy_env False) toy_gc (hash_of [3]) read \<longrightarrow> unpackable (toy_env False) read"
    by (auto simp: toy_reads toy_loose_objects_def intro: toy_unpackable)
  from repack_keeps_blobs [OF toy_codec toy_gc_wf toy_cache_true toy_repack_room this held prod.collapse [symmetric]]
  show ?thesis by simp
qed

text \<open>
  C26. What a repack that reports \<open>n > 0\<close> blobs has done, exactly: it read all \<open>n\<close> loose blobs,
  more than the threshold, and one pack of the store has them; of those whose payload is below 4 GiB
  that pack serves precisely the ones that decompression gives back, so with zstd a blob of more
  than 1 GiB was packed and reported, and the pack cannot serve it. The new pack needs room
  (\<open>repack_room\<close>), a right codec, verification on and a cache without wrong bytes.
\<close>

theorem repack_packs_all:
  assumes "codec_ok E" and "wf_disk s" and "cache_true E s" and "repack_room E s"
    and "repack E threshold s = (Inr n, t)" and "0 < n"
  shows "n = length (loose_hashes s (objects_dir (self s))) \<and> threshold < n \<and>
    (\<exists>name. is_pack_name name \<and>
       (\<forall>h \<in> set (loose_hashes s (objects_dir (self s))). \<exists>data. repack_reads E s h data) \<and>
       (\<forall>h data. repack_reads E s h data \<and> payload_fits E data \<longrightarrow>
          hash_bytes E data = h \<and>
          ((\<exists>out. pack_serves E t (root (self s) @ [''objects'', ''pack'', name]) h out) \<longleftrightarrow>
             (feature_zstd E \<longrightarrow> length data \<le> MAX_DECOMPRESSED_SIZE))))"
  using assms(5,2,3)
proof (cases rule: repack_cases)
  case idle
  with assms(6) show ?thesis by auto
next
  case (packed hs objects u pair v rs w)
  have step: "store_step (loose_at (root (self s)) ` set hs) v t"
    using packed(9,10) by (meson empty_subsetI store_step_mono storing.related_trans)
  have fits: "indexable E objects"
    using repack_roomD(1) [OF assms(4)] packed(1,2,4) by blast
  have reads: "repack_reads E s h data \<longleftrightarrow> (h, data) \<in> set objects" for h data
    using packed(1,2) by (auto simp: repack_reads_def)
  obtain name where name: "is_pack_name name"
    and serves: "\<And>h data. (h, data) \<in> set objects \<Longrightarrow> unpackable E data \<Longrightarrow>
      pack_serves E t (root (self s) @ [''objects'', ''pack'', name]) h data"
    and lost: "\<And>h data out. (h, data) \<in> set objects \<Longrightarrow> payload_fits E data \<Longrightarrow> feature_zstd E \<Longrightarrow>
      MAX_DECOMPRESSED_SIZE < length data \<Longrightarrow>
      \<not> pack_serves E t (root (self s) @ [''objects'', ''pack'', name]) h out"
    using repacked_serves [OF assms(1) fits packed(7) [unfolded pack_dir_def] step packed(11)] by metis
  have "\<exists>data. repack_reads E s h data" if "h \<in> set hs" for h
  proof -
    from that packed(4) have "h \<in> fst ` set objects"
      by (metis set_map)
    then show ?thesis
      unfolding reads by force
  qed
  moreover have "hash_bytes E data = h \<and>
      ((\<exists>out. pack_serves E t (root (self s) @ [''objects'', ''pack'', name]) h out) \<longleftrightarrow>
         (feature_zstd E \<longrightarrow> length data \<le> MAX_DECOMPRESSED_SIZE))"
    if "repack_reads E s h data \<and> payload_fits E data" for h data
    using that packed(11) serves [of h data] lost [of h data] by (auto simp: reads unpackable_def) (meson not_le)
  ultimately have "\<exists>name. is_pack_name name \<and> (\<forall>h \<in> set hs. \<exists>data. repack_reads E s h data) \<and>
      (\<forall>h data. repack_reads E s h data \<and> payload_fits E data \<longrightarrow>
         hash_bytes E data = h \<and>
         ((\<exists>out. pack_serves E t (root (self s) @ [''objects'', ''pack'', name]) h out) \<longleftrightarrow>
            (feature_zstd E \<longrightarrow> length data \<le> MAX_DECOMPRESSED_SIZE)))"
    using name by blast
  with packed(1,5,6) show ?thesis by simp
qed simp

text \<open>On the example store the repack succeeds.\<close>

lemma toy_repack: "\<exists>t. repack (toy_env False) 1 toy_gc = (Inr 2, t)"
proof -
  let ?E = "toy_env False" and ?hs = "[hash_of [3], hash_of [4]]" and ?dir = "[''r'', ''objects'', ''pack'']"
  obtain u c where g: "gather ?E ?hs toy_gc = (Inr toy_loose_objects, u)"
    and u: "u = toy_gc\<lparr>self := (toy_store False)\<lparr>blob_cache := c\<rparr>\<rparr>"
    by (rule toy_gather)
  obtain pd ies where image: "pack_objects ?E toy_loose_objects (pack_header toy_loose_objects) [] = Inr (pd, ies)"
    by (rule toy_loose_image)
  have dir: "node_at u ?dir = Some Dir"
    by (simp add: u node_at_def toy_paths)
  have "\<forall>p \<in> set (pair_paths ?E ?dir ies). node_at u p \<noteq> Some Dir"
    using toy_new_absent by (simp add: u path_exists_def node_at_def pair_paths_def)
  then obtain pair v where "write_pack_pair ?E ?dir pd ies u = (Inr pair, v)"
    using quiet_write_pack_pair [OF _ dir, of ?E ies pd] by (auto simp: u)
  then have create: "PackFile_create ?E ?dir toy_loose_objects u = (Inr pair, v)"
    using dir image by (simp add: PackFile_create_def create_dir_all_def bindE_def map_err_def run_atoms
        toy_loose_objects_def)
  obtain rs w where d: "(mapE (\<lambda>h. attemptE (delete_blob h)) ?hs :: (cas_error + unit) list store_prog) v = (Inr rs, w)"
    using deletions_step by (metis surj_pair)
  obtain x where i: "(invalidate_pack_cache :: unit store_prog) w = (Inr (), x)"
    by (cases "poisoned (store_packs (self w))")
      (simp_all add: invalidate_pack_cache_def bindE_def attemptE_def lock_eq set_store_packs_def run_atoms)
  have "list_blobs toy_gc = (Inr ?hs, toy_gc)"
    using list_blobs_eq [OF toy_gc_wf] by (simp add: toy_node_at toy_loose_hashes)
  moreover have "pack_dir (self u) = ?dir"
    by (simp add: u pack_dir_def)
  ultimately show ?thesis
    using g create d i by (simp add: repack_def bindE_def run_atoms gather_def [symmetric] map_err_def)
qed

theorem repack_packs_all_witness:
  "\<exists>t name data. repack (toy_env False) 1 toy_gc = (Inr 2, t) \<and> is_pack_name name \<and>
     pack_serves (toy_env False) t [''r'', ''objects'', ''pack'', name] (hash_of [3]) data"
proof -
  obtain t where run: "repack (toy_env False) 1 toy_gc = (Inr 2, t)"
    using toy_repack by blast
  have "repack_reads (toy_env False) toy_gc (hash_of [3]) [3] \<and> payload_fits (toy_env False) [3]"
    by (simp add: toy_reads toy_loose_objects_def payload_fits_def)
  with repack_packs_all [OF toy_codec toy_gc_wf toy_cache_true toy_repack_room run] obtain name data where
    "is_pack_name name" "pack_serves (toy_env False) t [''r'', ''objects'', ''pack'', name] (hash_of [3]) data"
    by simp blast
  with run show ?thesis by blast
qed

end
