(* ===== verification/GcSpec.thy ===== *)
theory GcSpec
  imports Toy
begin

text \<open>
  The properties of the garbage collector: mark, plan and sweep.
\<close>

text \<open>
  C1. A sweep loses no live blob. On a disk with any schedule of refused and torn operations,
  and whether the sweep succeeds, fails or is cut short, a blob of the live set that the store
  held before is held after it, as long as the counted copies of live blobs are good and no
  file of the disk has the name of a replacement pack.
\<close>

theorem sweep_keeps_live:
  assumes "codec_ok E" and "sound_store E live s"
    and "\<forall>plan. plan_sweep live s = (Inr plan, s) \<longrightarrow> fresh_replacements E s plan"
    and "h \<in> live" and "held E s (root (self s)) h data"
    and "sweep E live options s = (res, t)"
  shows "\<exists>data'. held E t (root (self s)) h data' \<and> hash_bytes E data' = h"
  by (rule sweep_keeps_held [OF assms])

theorem sweep_keeps_live_witness:
  "\<exists>data. held (toy_env False)
     (snd (sweep (toy_env False) toy_live \<lparr>mode = Delete, rewrite_partial_packs = True\<rparr> toy_gc))
     [''r''] (hash_of [1]) data \<and> hash_bytes (toy_env False) data = hash_of [1]"
proof -
  have "pack_serves (toy_env False) toy_gc toy_pack_path (hash_of [1]) [1]"
    by (rule toy_pack_serves) (simp add: toy_objects_def)
  moreover have "is_pack_path (pack_dir (toy_store False)) toy_pack_path"
  proof -
    have "is_pack_name (''p'' @ ''.pack'')"
      by code_simp
    then show ?thesis
      unfolding is_pack_path_def by (intro exI [of _ "''p''"]) (simp add: toy_pack_path_def)
  qed
  ultimately have "held (toy_env False) toy_gc (root (self toy_gc)) (hash_of [1]) [1]"
    using held_pack [of "toy_store False"] by simp
  from sweep_keeps_live [OF toy_codec toy_sound toy_fresh _ this prod.collapse [symmetric]]
  show ?thesis by (simp add: toy_live_def)
qed

end
