(* ===== verification/GcFinish.thy ===== *)
theory GcFinish
  imports GcSafety
begin

text \<open>
  A sweep that comes to its end: what it has removed and reports, where trashed files went, and
  that on a working disk it does come to its end.
\<close>

section \<open>Removals only remove\<close>

text \<open>Below \<open>objects/\<close> every node is as before or gone.\<close>

definition shrinks :: "path \<Rightarrow> world \<Rightarrow> world \<Rightarrow> bool" where
  "shrinks r s t \<longleftrightarrow>
     (\<forall>q. is_under (r @ [''objects'']) q \<longrightarrow> node_at t q = None \<or> node_at t q = node_at s q)"

interpretation shrinking: state_preorder "shrinks r" for r
proof unfold_locales
  show "shrinks r s u" if "shrinks r s t" "shrinks r t u" for s t u
    using that unfolding shrinks_def by metis
qed (simp add: shrinks_def)

lemma shrinks_gone:
  "shrinks r s t \<Longrightarrow> is_under (r @ [''objects'']) q \<Longrightarrow> node_at s q = None \<Longrightarrow> node_at t q = None"
  by (metis shrinks_def)

lemma map_of_moved_away:
  "is_under src q \<Longrightarrow> \<not> is_under dst q \<Longrightarrow>
     map_of (map (\<lambda>(p, n). (if is_under src p then dst @ drop (length src) p else p, n)) xs) q = None"
proof (induction xs)
  case (Cons x xs)
  obtain p n where x: "x = (p, n)" by (cases x)
  have "is_under dst (dst @ drop (length src) p)"
    by (simp add: is_under_def)
  with Cons x show ?case by auto
qed simp

lemma moved_away:
  assumes "\<not> is_under dst q"
  shows "node_at (move_node src dst d) q = None \<or> node_at (move_node src dst d) q = node_at d q"
proof (cases "is_under src q")
  case False
  with assms show ?thesis by (simp add: node_at_move)
next
  case True
  show ?thesis
  proof (cases "\<exists>b. node_at d src = Some (File b)")
    case True
    have "q \<noteq> dst" using assms by auto
    with True show ?thesis by (auto simp: move_node_def disk_nodes.look_move)
  next
    case False
    then have "move_node src dst d = d\<lparr>nodes :=
        map (\<lambda>(p, n). (if is_under src p then dst @ drop (length src) p else p, n))
          (AList.delete dst (nodes d))\<rparr>"
      by (auto simp: move_node_def split: option.split node.split)
    with True assms show ?thesis
      by (simp add: node_at_def map_of_moved_away)
  qed
qed

lemma moved_gone: "\<not> is_under dst src \<Longrightarrow> node_at (move_node src dst d) src = None"
proof (cases "\<exists>b. node_at d src = Some (File b)")
  case True
  assume "\<not> is_under dst src"
  then have "src \<noteq> dst" by auto
  with True show ?thesis by (auto simp: move_node_def disk_nodes.look_move)
next
  case False
  assume "\<not> is_under dst src"
  moreover from False have "move_node src dst d = d\<lparr>nodes :=
      map (\<lambda>(p, n). (if is_under src p then dst @ drop (length src) p else p, n))
        (AList.delete dst (nodes d))\<rparr>"
    by (auto simp: move_node_def split: option.split node.split)
  ultimately show ?thesis
    by (simp add: node_at_def map_of_moved_away)
qed

lemma shrinks_node: "(\<And>q. is_under (r @ [''objects'']) q \<Longrightarrow> node_at t q = node_at s q) \<Longrightarrow> shrinks r s t"
  by (simp add: shrinks_def)

lemma shrinks_fs_remove_file: "upholds (shrinks r) (fs_remove_file p)"
proof (rule upholdsI)
  fix s :: world and q t
  assume run: "fs_remove_file p s = (q, t)"
  show "shrinks r s t"
    unfolding shrinks_def
  proof (intro allI impI)
    fix x
    show "node_at t x = None \<or> node_at t x = node_at s x"
      using fs_remove_ok [of p s _ t] fs_remove_err [of p s _ t] run touches_at [OF fs_remove_touches [OF run]]
      by (cases "x = p"; cases q) auto
  qed
qed

lemma trash_dirs_out:
  assumes "is_under (r @ [TRASH_DIR]) dst" and "x \<in> insert (butlast dst) (set (ancestors (butlast dst)))"
  shows "\<not> is_under (r @ [''objects'']) x"
proof -
  have "is_under (butlast dst) dst"
    by (cases dst rule: rev_cases) (simp_all add: is_under_iff)
  then have "insert (butlast dst) (set (ancestors (butlast dst))) \<subseteq> insert dst (set (ancestors dst))"
    unfolding prefixes_of by (auto intro: is_under_trans)
  then have "x = dst \<or> x \<in> set (ancestors dst)"
    using assms(2) by blast
  then show ?thesis
    using under_ancestor [OF _ under_trash [OF assms(1)]] under_trash [OF assms(1)] by metis
qed

lemma trash_dirs_frame:
  assumes "is_under (r @ [TRASH_DIR]) dst" and "create_dir_all (butlast dst) s = (q, t)"
    and "is_under (r @ [''objects'']) x"
  shows "node_at t x = node_at s x"
  using touches_at [OF create_dir_all_touches [OF assms(2)]] trash_dirs_out [OF assms(1)] assms(3) by blast

lemma shrinks_create_dir_all:
  "is_under (r @ [TRASH_DIR]) dst \<Longrightarrow> upholds (shrinks r) (create_dir_all (butlast dst))"
  by (rule upholdsI, rule shrinks_node) (rule trash_dirs_frame)

lemma shrinks_fs_rename:
  assumes "is_under (r @ [TRASH_DIR]) dst"
  shows "upholds (shrinks r) (fs_rename p dst)"
proof -
  have "\<not> is_under dst q" if "is_under (r @ [''objects'']) q" for q
    using that under_trash [OF is_under_trans [OF assms]] by blast
  then have moved: "shrinks r s (move_node p dst s)" for s
    unfolding shrinks_def using moved_away by blast
  have "upholds (shrinks r) (next_fault :: (world, io_error, io_fault) prog)"
    by (rule upholdsI) (simp add: shrinks_def next_fault_node_at)
  moreover have "upholds (shrinks r) (\<lambda>d. if f \<noteq> Proceed then (Inl OtherIo, d)
      else case rename_error d p dst of Some e \<Rightarrow> (Inl e, d) | None \<Rightarrow> (Inr (), move_node p dst d))" for f
    by (rule upholdsI) (auto simp: moved shrinking.related_refl split: if_splits option.splits)
  ultimately show ?thesis
    unfolding fs_rename_def by (rule shrinking.resp_bind)
qed

lemma shrinks_remove_or_trash [hoare]:
  "upholds (shrinks r) (remove_or_trash md (r @ [TRASH_DIR]) p)"
proof -
  have len: "upholds (shrinks r) (file_len p)"
    by (rule shrinking.resp_reads) (rule hoare)
  show ?thesis
    unfolding remove_or_trash_def
    by (cases md) (auto intro!: hoare len shrinks_fs_remove_file shrinks_create_dir_all shrinks_fs_rename)
qed

text \<open>After a removal that succeeded the path is gone, and in trash mode its file is in the trash.\<close>

lemma remove_or_trash_gone:
  assumes run: "remove_or_trash md (r @ [TRASH_DIR]) p s = (Inr n, t)" and p: "is_under (r @ [''objects'']) p"
  shows "node_at t p = None"
proof -
  have "\<exists>u. fs_remove_file p u = (Inr (), t)" if "md = Delete"
    using run that by (auto simp: remove_or_trash_def bindE_eq map_err_eq run_atoms)
  moreover have "\<exists>x u. fs_rename p (r @ [TRASH_DIR] @ x) u = (Inr (), t)" if "md = Trash"
    using run that
    by (auto simp: remove_or_trash_def bind_pure bindE_eq map_err_eq run_atoms Let_def split: option.splits if_splits)
  moreover have "md \<noteq> DryRun"
    using run by (auto simp: remove_or_trash_def bindE_eq run_atoms)
  moreover have "node_at t p = None" if ren: "fs_rename p (r @ [TRASH_DIR] @ x) u = (Inr (), t)" for x u
  proof -
    have dst: "\<not> is_under (r @ [TRASH_DIR] @ x) p"
      using p by (auto simp: is_under_iff TRASH_DIR_def)
    from ren obtain v where "t = move_node p (r @ [TRASH_DIR] @ x) v"
      by (auto simp: fs_rename_def bindE_eq split: if_splits option.splits)
    with moved_gone [OF dst] show ?thesis by simp
  qed
  ultimately show ?thesis
    using fs_remove_ok by (cases md) blast+
qed

section \<open>Loops of removals\<close>

lemma loop_gone:
  assumes "\<And>x a s b t. x \<in> set xs \<Longrightarrow> f x a s = (Inr b, t) \<Longrightarrow> \<forall>q \<in> G x. node_at t q = None"
    and "\<And>x a. upholds (shrinks r) (f x a)"
    and "\<And>x q. x \<in> set xs \<Longrightarrow> q \<in> G x \<Longrightarrow> is_under (r @ [''objects'']) q"
    and "foldE f xs a s = (Inr b, t)"
  shows "\<forall>x \<in> set xs. \<forall>q \<in> G x. node_at t q = None"
  using assms(1,3,4)
proof (induction xs arbitrary: a s)
  case (Cons x xs)
  then obtain c u where first: "f x a s = (Inr c, u)" and rest: "foldE f xs c u = (Inr b, t)"
    by (auto simp: bindE_eq)
  have "shrinks r u t"
    using upholdsD [OF shrinking.resp_foldE rest] assms(2) by blast
  moreover have "\<forall>q \<in> G x. node_at u q = None"
    using Cons.prems(1) [OF _ first] by simp
  ultimately have "\<forall>q \<in> G x. node_at t q = None"
    using Cons.prems(2) [of x] shrinks_gone by auto
  moreover have "\<forall>y \<in> set xs. \<forall>q \<in> G y. node_at t q = None"
    using Cons.IH [OF _ _ rest] Cons.prems(1,2) by (meson list.set_intros(2))
  ultimately show ?case by simp
qed simp

lemma loop_count:
  assumes "\<And>x c n s c' n' t. f x (c, n) s = (Inr (c', n'), t) \<Longrightarrow> c' = c + (1 :: nat)"
    and "foldE f xs (c, n) s = (Inr (c', n'), t)"
  shows "c' = c + length xs"
  using assms(2)
proof (induction xs arbitrary: c n s)
  case (Cons x xs)
  then obtain d m u where first: "f x (c, n) s = (Inr (d, m), u)" and rest: "foldE f xs (d, m) u = (Inr (c', n'), t)"
    by (auto simp: bindE_eq)
  from Cons.IH [OF rest] assms(1) [OF first] show ?case by simp
qed (simp add: run_atoms)

lemma loose_phase_done:
  assumes "loose_phase md (root st @ [TRASH_DIR]) st plan n s = (Inr (c, m), t)"
  shows "c = length (loose_garbage plan)"
    and "\<forall>h \<in> set (loose_garbage plan). node_at t (loose_path st h) = None"
proof -
  let ?f = "\<lambda>h (removed, n). bindE (remove_or_trash md (root st @ [TRASH_DIR]) (loose_path st h))
      (\<lambda>m. returnE (removed + (1 :: nat), n + m))"
  have run: "foldE ?f (loose_garbage plan) (0, n) s = (Inr (c, m), t)"
    using assms by (simp add: loose_phase_def)
  have "c = 0 + length (loose_garbage plan)"
    using run by (rule loop_count [rotated]) (auto simp: bindE_eq run_atoms)
  then show "c = length (loose_garbage plan)" by simp
  have under: "is_under (root st @ [''objects'']) (loose_path st h)" for h
    by (simp add: loose_path_eq under_objects)
  have "\<forall>h \<in> set (loose_garbage plan). \<forall>q \<in> {loose_path st h}. node_at t q = None"
    using run
  proof (rule loop_gone [where r = "root st", rotated -1])
    show "upholds (shrinks (root st)) (?f x a)" for x a
      by (cases a) (auto intro!: hoare)
    show "\<forall>q \<in> {loose_path st h}. node_at v q = None" if "?f h a u = (Inr b, v)" for h a u b v
      using that remove_or_trash_gone [OF _ under] by (cases a) (auto simp: bindE_eq run_atoms)
  qed (use under in simp)
  then show "\<forall>h \<in> set (loose_garbage plan). node_at t (loose_path st h) = None"
    by simp
qed

lemma orphan_phase_done:
  assumes "orphan_phase md (r @ [TRASH_DIR]) plan n s = (Inr m, t)"
    and under: "\<And>p. p \<in> set (orphan_files plan) \<Longrightarrow> is_under (r @ [''objects'']) p"
  shows "\<forall>p \<in> set (orphan_files plan). node_at t p = None"
proof -
  let ?f = "\<lambda>p n. bindE (remove_or_trash md (r @ [TRASH_DIR]) p) (\<lambda>m. returnE (n + m))"
  have run: "foldE ?f (orphan_files plan) n s = (Inr m, t)"
    using assms(1) by (simp add: orphan_phase_def)
  have "\<forall>p \<in> set (orphan_files plan). \<forall>q \<in> {p}. node_at t q = None"
    using run
  proof (rule loop_gone [where r = r, rotated -1])
    show "upholds (shrinks r) (?f x a)" for x a
      by (intro hoare)
    show "\<forall>q \<in> {p}. node_at v q = None" if "p \<in> set (orphan_files plan)" "?f p a u = (Inr b, v)" for p a u b v
      using that remove_or_trash_gone [OF _ under] by (auto simp: bindE_eq run_atoms)
  qed (use under in simp)
  then show ?thesis by simp
qed

lemma shrinks_remove_if_there [hoare]: "upholds (shrinks r) (remove_if_there md (r @ [TRASH_DIR]) p n)"
  unfolding remove_if_there_def by (intro hoare)

lemma remove_if_there_gone:
  assumes "remove_if_there md (r @ [TRASH_DIR]) p n s = (Inr m, t)" and "is_under (r @ [''objects'']) p"
  shows "node_at t p = None"
  using assms remove_or_trash_gone
  by (auto simp: remove_if_there_def run_simps bindE_eq path_exists_def split: if_splits)

lemma pack_phase_done:
  assumes "pack_phase md (r @ [TRASH_DIR]) options plan n s = (Inr (c, m), t)"
    and under: "\<And>p. p \<in> set (removals options plan) \<Longrightarrow>
      is_under (r @ [''objects'']) p \<and> is_under (r @ [''objects'']) (with_extension p ''idx'')"
  shows "c = length (removals options plan)"
    and "\<forall>p \<in> set (removals options plan). node_at t p = None \<and> node_at t (with_extension p ''idx'') = None"
proof -
  let ?f = "remove_pack md (r @ [TRASH_DIR])"
  have run: "foldE ?f (removals options plan) (0, n) s = (Inr (c, m), t)"
    using assms(1) by (simp add: pack_phase_def)
  have "c = 0 + length (removals options plan)"
    using run by (rule loop_count [rotated]) (auto simp: remove_pack_def bindE_eq run_atoms)
  then show "c = length (removals options plan)" by simp
  have "\<forall>p \<in> set (removals options plan). \<forall>q \<in> {p, with_extension p ''idx''}. node_at t q = None"
    using run
  proof (rule loop_gone [where r = r, rotated -1])
    show "upholds (shrinks r) (?f x a)" for x a
      unfolding remove_pack_def by (cases a) (auto intro!: hoare)
    show "\<forall>q \<in> {p, with_extension p ''idx''}. node_at v q = None"
      if p: "p \<in> set (removals options plan)" and f: "?f p a u = (Inr b, v)" for p a u b v
    proof -
      obtain k l w where "remove_if_there md (r @ [TRASH_DIR]) (with_extension p ''idx'') k u = (Inr l, w)"
        and second: "\<exists>l'. remove_if_there md (r @ [TRASH_DIR]) p l w = (Inr l', v)"
        using f by (cases a) (auto simp: remove_pack_def bindE_eq run_atoms)
      then have "node_at w (with_extension p ''idx'') = None"
        using remove_if_there_gone under [OF p] by blast
      moreover have "shrinks r w v"
        using second upholdsD [OF shrinks_remove_if_there] by blast
      ultimately show ?thesis
        using second remove_if_there_gone under [OF p] shrinks_gone by auto
    qed
  qed (use under in auto)
  then show "\<forall>p \<in> set (removals options plan). node_at t p = None \<and> node_at t (with_extension p ''idx'') = None"
    by simp
qed

section \<open>A sweep that succeeded\<close>

lemma doomed_under:
  assumes pd: "planned_disk s live ps plan" and q: "q \<in> doomed (self s) options plan"
  shows "is_under (root (self s) @ [''objects'']) q"
  using pd q
proof (cases rule: doomed_cases)
  case (loose h)
  then show ?thesis by (simp add: under_objects)
next
  case bare
  then show ?thesis using packs_proper(1) [OF pd] pack_path_under by blast
next
  case (stray name)
  then show ?thesis by (simp add: pack_dir_def)
next
  case pack
  then show ?thesis using packs_proper(1) [OF pd] pack_path_under by blast
next
  case (idx p)
  then show ?thesis using packs_proper(1) [OF pd] pack_path_under by blast
qed

lemma execute_plan_done:
  assumes pd: "planned_disk s live ps plan" and run: "execute_plan E options plan s = (Inr report, t)"
  shows "\<forall>p \<in> doomed (self s) options plan. node_at t p = None"
    and "report_plan report = plan" and "report_mode report = mode options" and "executed report"
    and "loose_removed report = length (loose_garbage plan)"
    and "packs_removed report = length (removals options plan)"
    and "packs_rewritten report = (if rewrite_partial_packs options then length (packs_to_rewrite plan) else 0)"
    and "trash report = (if mode options = Trash then Some (root (self s) @ [TRASH_DIR]) else None)"
proof -
  let ?st = "self s" and ?r = "root (self s)" and ?md = "mode options"
  obtain rewritten n1 u1 loose n2 u2 n3 u3 packs n4 u4 where
    p1: "rewrite_phase E options (pack_dir ?st) plan s = (Inr (rewritten, n1), u1)"
    and p2: "loose_phase ?md (?r @ [TRASH_DIR]) ?st plan n1 u1 = (Inr (loose, n2), u2)"
    and p3: "orphan_phase ?md (?r @ [TRASH_DIR]) plan n2 u2 = (Inr n3, u3)"
    and p4: "pack_phase ?md (?r @ [TRASH_DIR]) options plan n3 u3 = (Inr (packs, n4), u4)"
    and p5: "invalidate_pack_cache u4 = (Inr (), t)"
    and report: "report = \<lparr>report_plan = plan, report_mode = ?md, executed = True, loose_removed = loose,
        packs_removed = packs, packs_rewritten = rewritten, bytes_reclaimed = n4,
        trash = (if ?md = Trash then Some (?r @ [TRASH_DIR]) else None)\<rparr>"
    using run by (auto simp: execute_plan_def bind_pure Let_def bindE_eq run_atoms)
  have orphan_under: "is_under (?r @ [''objects'']) p" if "p \<in> set (orphan_files plan)" for p
    using doomed_under [OF pd, of p options] that by (simp add: doomed_def)
  have removal_under: "is_under (?r @ [''objects'']) p \<and> is_under (?r @ [''objects'']) (with_extension p ''idx'')"
    if "p \<in> set (removals options plan)" for p
    using doomed_under [OF pd, of p options] doomed_under [OF pd, of "with_extension p ''idx''" options] that
    by (simp add: doomed_def)
  have "upholds (shrinks ?r) (orphan_phase ?md (?r @ [TRASH_DIR]) plan n2)"
    unfolding orphan_phase_def by (intro hoare)
  then have s23: "shrinks ?r u2 u3"
    using p3 by (rule upholdsD)
  have "upholds (shrinks ?r) (pack_phase ?md (?r @ [TRASH_DIR]) options plan n3)"
    unfolding pack_phase_def remove_pack_def by (intro hoare)
  then have s34: "shrinks ?r u3 u4"
    using p4 by (rule upholdsD)
  have s4t: "node_at t = node_at u4"
    using p5 by (auto simp: invalidate_pack_cache_def bindE_def attemptE_def lock_eq set_store_packs_def
        run_atoms node_at_def fun_eq_iff split: if_splits)
  have "node_at t (loose_path ?st h) = None" if "h \<in> set (loose_garbage plan)" for h
    using loose_phase_done(2) [OF p2] that shrinks_gone [OF s23] shrinks_gone [OF s34]
    by (simp add: s4t loose_path_eq under_objects)
  moreover have "node_at t p = None" if "p \<in> set (orphan_files plan)" for p
    using orphan_phase_done [OF p3 orphan_under] that shrinks_gone [OF s34] orphan_under by (simp add: s4t)
  moreover have "node_at t p = None \<and> node_at t (with_extension p ''idx'') = None"
    if "p \<in> set (removals options plan)" for p
    using pack_phase_done(2) [OF p4 removal_under] that by (simp add: s4t)
  ultimately show "\<forall>p \<in> doomed ?st options plan. node_at t p = None"
    by (auto simp: doomed_def)
  have one: "rewrite_one E dir rw (c, n) v = (Inr (c', n'), w) \<Longrightarrow> c' = c + 1" for dir rw c n v c' n' w
    by (auto simp: rewrite_one_def bindE_eq run_atoms)
  have "rewritten = length (packs_to_rewrite plan)" if "rewrite_partial_packs options"
  proof -
    have "foldE (rewrite_one E (pack_dir ?st)) (packs_to_rewrite plan) (0, 0) s = (Inr (rewritten, n1), u1)"
      using p1 that by (simp add: rewrite_phase_def)
    from loop_count [OF one this] show ?thesis by simp
  qed
  moreover have "rewritten = 0" if "\<not> rewrite_partial_packs options"
    using p1 that by (simp add: rewrite_phase_def run_atoms)
  ultimately show "packs_rewritten report = (if rewrite_partial_packs options then length (packs_to_rewrite plan) else 0)"
    by (simp add: report)
  show "loose_removed report = length (loose_garbage plan)"
    using loose_phase_done(1) [OF p2] by (simp add: report)
  show "packs_removed report = length (removals options plan)"
    using pack_phase_done(1) [OF p4 removal_under] by (simp add: report)
  show "report_plan report = plan" "report_mode report = ?md" "executed report"
    "trash report = (if ?md = Trash then Some (?r @ [TRASH_DIR]) else None)"
    by (simp_all add: report)
qed

section \<open>The trash\<close>

text \<open>The place in the trash of a path below the root.\<close>

definition trash_path :: "path \<Rightarrow> path \<Rightarrow> path" where
  "trash_path r p = r @ [TRASH_DIR] @ drop (length r) p"

text \<open>The file is still in its place, or in the trash with the same bytes.\<close>

definition recoverable :: "path \<Rightarrow> path \<Rightarrow> bytes \<Rightarrow> world \<Rightarrow> bool" where
  "recoverable r p b u \<longleftrightarrow>
     root (self u) = r \<and>
     (node_at u p = Some (File b) \<or> node_at u p = None \<and> node_at u (trash_path r p) = Some (File b))"

text \<open>The paths that a sweep removes: three components below the root, the first of them \<open>objects\<close>.\<close>

definition store_file :: "path \<Rightarrow> path \<Rightarrow> bool" where
  "store_file r p \<longleftrightarrow> is_under (r @ [''objects'']) p \<and> length p = length r + 3"

lemma store_fileD:
  assumes "store_file r p"
  obtains x where "p = r @ ''objects'' # x" and "length x = 2" and "strip_prefix r p = Some (''objects'' # x)"
    and "trash_path r p = r @ TRASH_DIR # ''objects'' # x"
  using assms by (auto simp: store_file_def is_under_iff strip_prefix_def is_under_def trash_path_def)

lemma trash_frame:
  assumes p: "store_file r p" and q: "store_file r q" and neq: "p \<noteq> q"
  shows "\<not> is_under p q" "\<not> is_under (trash_path r p) (trash_path r q)"
    "\<not> is_under p (trash_path r q)" "\<not> is_under (trash_path r p) q" "trash_path r p \<noteq> trash_path r q"
proof -
  obtain x y where "p = r @ ''objects'' # x" "length x = 2" "trash_path r p = r @ TRASH_DIR # ''objects'' # x"
    "q = r @ ''objects'' # y" "length y = 2" "trash_path r q = r @ TRASH_DIR # ''objects'' # y"
    using store_fileD [OF p] store_fileD [OF q] by metis
  with neq show "\<not> is_under p q" "\<not> is_under (trash_path r p) (trash_path r q)"
    "\<not> is_under p (trash_path r q)" "\<not> is_under (trash_path r p) q" "trash_path r p \<noteq> trash_path r q"
    by (auto simp: is_under_iff TRASH_DIR_def)
qed

lemma remove_or_trash_self: "remove_or_trash md (r @ [TRASH_DIR]) p s = (res, t) \<Longrightarrow> self t = self s"
proof -
  assume run: "remove_or_trash md (r @ [TRASH_DIR]) p s = (res, t)"
  have "frames (sweep_area r {p}) (remove_or_trash md (r @ [TRASH_DIR]) p)"
    by (rule hoare) simp
  then show ?thesis
    using run by (rule upholdsD [OF preserves_self_disk [OF confined_frames]])
qed

text \<open>A run of \<open>remove_or_trash\<close> in trash mode that succeeds, step by step.\<close>

lemma trash_steps:
  assumes r: "root (self s) = r" and p: "store_file r p"
    and run: "remove_or_trash Trash (r @ [TRASH_DIR]) p s = (Inr n, t)"
  obtains u v where "\<And>c x. node_at s x = Some c \<Longrightarrow> node_at u x = Some c"
    and "\<And>x. is_under (r @ [''objects'']) x \<Longrightarrow> node_at u x = node_at s x"
    and "touches {trash_path r p} u v"
    and "fs_rename p (trash_path r p) v = (Inr (), t)"
proof -
  let ?dst = "trash_path r p"
  obtain x where strip: "strip_prefix r p = Some (''objects'' # x)" and dst: "?dst = r @ TRASH_DIR # ''objects'' # x"
    and px: "p = r @ ''objects'' # x" "length x = 2"
    using store_fileD [OF p] by metis
  obtain u where dirs: "create_dir_all (butlast ?dst) s = (Inr (), u)"
    and rest: "bindE (if path_exists u ?dst then bindE (attemptE (fs_remove_file ?dst)) (\<lambda>_. returnE ()) else returnE ())
        (\<lambda>_. map_err Io (fs_rename p ?dst)) u = (Inr (), t)"
    using run px(2)
    by (auto simp: remove_or_trash_def bindE_eq map_err_eq file_len_eq run_atoms strip dst Let_def r
        split: if_splits)
  obtain v where v: "touches {?dst} u v" and ren: "fs_rename p ?dst v = (Inr (), t)"
  proof (cases "path_exists u ?dst")
    case True
    with rest obtain w q where "fs_remove_file ?dst u = (q, w)" "map_err Io (fs_rename p ?dst) w = (Inr (), t)"
      by (auto simp: bindE_eq attemptE_eq run_atoms)
    with that [of w] fs_remove_touches show thesis by (auto simp: map_err_eq)
  next
    case False
    with rest that [of u] show thesis by (auto simp: bind_pure map_err_eq)
  qed
  have grow: "node_at u y = Some c" if "node_at s y = Some c" for y c
    by (rule create_dir_all_grows [OF dirs that])
  have "is_under (r @ [TRASH_DIR]) ?dst"
    by (simp add: dst)
  note same = trash_dirs_frame [OF this dirs]
  from that [OF grow same v ren] show thesis .
qed

lemma rename_file:
  assumes "fs_rename src dst v = (Inr (), t)" and "node_at v src = Some (File b)" and "src \<noteq> dst"
  shows "node_at t dst = Some (File b)" "node_at t src = None"
  using assms
  by (auto simp: fs_rename_def bindE_eq move_node_def disk_nodes.look_move next_fault_node_at
      split: if_splits option.splits dest: next_fault_node_at)

lemma rename_other:
  assumes "fs_rename src dst v = (Inr (), t)" and "\<not> is_under src q" and "\<not> is_under dst q"
  shows "node_at t q = node_at v q"
  using touches_at [OF upholdsD [OF frames_fs_rename assms(1)]] assms(2,3) by simp

lemma recoverable_step:
  assumes p: "store_file r p" and q: "store_file r q" and inv: "recoverable r q b s"
    and run: "remove_or_trash Trash (r @ [TRASH_DIR]) p s = (Inr n, t)"
  shows "recoverable r q b t"
proof -
  have r: "root (self s) = r"
    using inv by (simp add: recoverable_def)
  obtain u v where grow: "\<And>c x. node_at s x = Some c \<Longrightarrow> node_at u x = Some c"
    and same: "\<And>x. is_under (r @ [''objects'']) x \<Longrightarrow> node_at u x = node_at s x" and v: "touches {trash_path r p} u v"
    and ren: "fs_rename p (trash_path r p) v = (Inr (), t)"
    using trash_steps [OF r p run] by blast
  have self: "root (self t) = r"
    using remove_or_trash_self [OF run] r by simp
  show ?thesis
  proof (cases "p = q")
    case True
    have dst: "q \<noteq> trash_path r q"
      using q by (auto simp: TRASH_DIR_def elim!: store_fileD)
    have "node_at s q \<noteq> None"
      using run True by (auto simp: remove_or_trash_def bindE_eq file_len_eq path_exists_def split: if_splits)
    then have "node_at v q = Some (File b)"
      using inv grow touches_at [OF v] dst True by (auto simp: recoverable_def)
    with rename_file [OF ren _ ] True dst self show ?thesis
      by (auto simp: recoverable_def)
  next
    case False
    note fr = trash_frame [OF p q False]
    have "node_at t q = node_at v q" "node_at t (trash_path r q) = node_at v (trash_path r q)"
      using rename_other [OF ren] fr by blast+
    moreover have "node_at v (trash_path r q) = node_at u (trash_path r q)" "node_at v q = node_at u q"
      using touches_at [OF v, of "trash_path r q"] touches_at [OF v, of q] fr(4,5) is_under_refl [of q] by fastforce+
    moreover have "node_at u q = node_at s q"
      using q by (intro same) (simp add: store_file_def)
    ultimately show ?thesis
      using inv grow self by (auto simp: recoverable_def)
  qed
qed

lemma recoverable_triple:
  assumes "store_file r p" and "store_file r q"
  shows "triple (recoverable r q b) (remove_or_trash Trash (r @ [TRASH_DIR]) p)
    (\<lambda>_. recoverable r q b) (\<lambda>_ _. True)"
  using recoverable_step [OF assms] by (auto simp: triple_def)

lemma recoverable_loop:
  assumes "\<And>x a. x \<in> set xs \<Longrightarrow> triple (recoverable r q b) (f x a) (\<lambda>_. recoverable r q b) (\<lambda>_ _. True)"
    and "foldE f xs a s = (Inr c, t)" and "recoverable r q b s"
  shows "recoverable r q b t"
proof -
  have "triple (recoverable r q b) (foldE f xs a) (\<lambda>_. recoverable r q b) (\<lambda>_ _. True)"
    by (rule triple_foldE [where I = "\<lambda>_ _. recoverable r q b"]) (simp add: assms(1))
  from triple_ok [OF this assms(3,2)] show ?thesis .
qed

lemma recoverable_bind:
  assumes "triple P m (\<lambda>_. P) (\<lambda>_ _. True)" and "\<And>x. triple P (f x) (\<lambda>_. P) (\<lambda>_ _. True)"
  shows "triple P (bindE m f) (\<lambda>_. P) (\<lambda>_ _. True)"
  by (rule triple_bind) (rule assms)+

lemma triple_pure: "triple P (returnE x) (\<lambda>_. P) (\<lambda>_ _. True)" "triple P (getsE g) (\<lambda>_. P) (\<lambda>_ _. True)"
  by (simp_all add: triple_def run_atoms)

lemma recoverable_if_there:
  assumes "store_file r p" and "store_file r q"
  shows "triple (recoverable r q b) (remove_if_there Trash (r @ [TRASH_DIR]) p n)
    (\<lambda>_. recoverable r q b) (\<lambda>_ _. True)"
  unfolding remove_if_there_def
  by (intro recoverable_bind triple_pure, simp split: if_split)
    (auto intro: recoverable_bind recoverable_triple [OF assms] triple_pure)

lemma doomed_store_file:
  "planned_disk s live ps plan \<Longrightarrow> q \<in> doomed (self s) options plan \<Longrightarrow> store_file (root (self s)) q"
  by (simp add: store_file_def doomed_under doomed_length)

lemma execute_plan_trashes:
  assumes pd: "planned_disk s live ps plan" and codec: "codec_ok E"
    and fresh: "fresh_replacements E s plan" and md: "mode options = Trash"
    and q: "q \<in> doomed (self s) options plan" and was: "node_at s q = Some (File b)"
    and run: "execute_plan E options plan s = (Inr report, t)"
  shows "node_at t (trash_path (root (self s)) q) = Some (File b)"
proof -
  let ?st = "self s" and ?r = "root (self s)" and ?T = "root (self s) @ [TRASH_DIR]"
  obtain acc n1 u1 acc2 n2 u2 n3 u3 acc4 u4 where
    p1: "rewrite_phase E options (pack_dir ?st) plan s = (Inr (acc, n1), u1)"
    and p2: "loose_phase Trash ?T ?st plan n1 u1 = (Inr (acc2, n2), u2)"
    and p3: "orphan_phase Trash ?T plan n2 u2 = (Inr n3, u3)"
    and p4: "pack_phase Trash ?T options plan n3 u3 = (Inr acc4, u4)"
    and p5: "invalidate_pack_cache u4 = (Inr (), t)"
    using run by (auto simp: execute_plan_def bind_pure Let_def bindE_eq run_atoms md)
  note qf = doomed_store_file [OF pd q]
  have "store_step (all_replacements E s plan) s u1"
    using p1 triple_ok [OF rewrite_loop [OF codec planned_rewrites_exist [OF pd] fresh] refl]
    by (auto simp: rewrite_phase_def run_atoms split: if_splits)
  moreover have "q \<notin> all_replacements E s plan"
    using fresh_not_there [OF fresh] was by (simp add: path_exists_def)
  ultimately have "node_at u1 q = Some (File b)" and "root (self u1) = ?r"
    using was store_step_at store_step_config by (auto simp: same_config_def)
  then have r1: "recoverable ?r q b u1"
    by (simp add: recoverable_def)
  have sf: "store_file ?r p" if "p \<in> doomed ?st options plan" for p
    by (rule doomed_store_file [OF pd that])
  have r2: "recoverable ?r q b u2"
    using p2 unfolding loose_phase_def
    by (rule recoverable_loop [OF _ _ r1, rotated])
      (auto intro!: recoverable_bind recoverable_triple [OF _ qf] triple_pure sf simp: doomed_def)
  have r3: "recoverable ?r q b u3"
    using p3 unfolding orphan_phase_def
    by (rule recoverable_loop [OF _ _ r2, rotated])
      (auto intro!: recoverable_bind recoverable_triple [OF _ qf] triple_pure sf simp: doomed_def)
  have "triple (recoverable ?r q b) (remove_pack Trash ?T p a) (\<lambda>_. recoverable ?r q b) (\<lambda>_ _. True)"
    if p: "p \<in> set (removals options plan)" for p a
  proof -
    have "store_file ?r p" "store_file ?r (with_extension p ''idx'')"
      using p by (auto intro!: sf simp: doomed_def)
    then show ?thesis
      unfolding remove_pack_def
      by (cases a) (auto intro!: recoverable_bind recoverable_if_there [OF _ qf] triple_pure)
  qed
  from recoverable_loop [OF this p4 [unfolded pack_phase_def] r3] have r4: "recoverable ?r q b u4"
    by simp
  have same: "node_at t = node_at u4"
    using p5 by (auto simp: invalidate_pack_cache_def bindE_def attemptE_def lock_eq set_store_packs_def
        run_atoms node_at_def fun_eq_iff split: if_splits)
  moreover have "node_at t q = None"
    using execute_plan_done(1) [OF pd run] q by blast
  ultimately show ?thesis
    using r4 by (auto simp: recoverable_def)
qed

end
