(* ===== verification/GcLive.thy ===== *)
theory GcLive
  imports GcFinish
begin

text \<open>
  On a disk without faults a sweep comes to its end, whether it deletes or moves to the trash:
  every step of every phase succeeds.
\<close>

section \<open>Phase 1 without faults\<close>

lemma quiet_create:
  assumes "pending d = []" and "node_at d dir = Some Dir" and "objects \<noteq> []"
    and "pack_objects E objects (pack_header objects) [] = Inr (pd, ies)"
    and "\<forall>p \<in> set (new_pack_paths E dir objects). node_at d p \<noteq> Some Dir"
  obtains p i where "PackFile_create E dir objects d =
      (Inr (p, i), put_node i (File (serialize_index ies)) (put_node p (File pd) d))"
    and "new_pack_paths E dir objects = [p, i]" and "p \<noteq> i"
proof -
  let ?n = "pack_name E (serialize_index ies)"
  let ?p = "dir @ [?n @ ''.pack'']" and ?i = "dir @ [?n @ ''.idx'']"
  have paths: "new_pack_paths E dir objects = [?p, ?i]"
    by (simp add: new_pack_paths_def assms(4) pair_paths_def)
  have "fs_write ?p pd d = (Inr (), put_node ?p (File pd) d)"
    using assms(1,2,5) paths by (intro quiet_write) (simp_all add: write_error_def)
  moreover have "fs_write ?i (serialize_index ies) (put_node ?p (File pd) d) =
      (Inr (), put_node ?i (File (serialize_index ies)) (put_node ?p (File pd) d))"
    using assms(1,2,5) paths by (intro quiet_write) (simp_all add: write_error_def disk_nodes.look_put)
  ultimately have "PackFile_create E dir objects d =
      (Inr (?p, ?i), put_node ?i (File (serialize_index ies)) (put_node ?p (File pd) d))"
    using assms(2,3,4)
    by (simp add: PackFile_create_def create_dir_all_def write_pack_pair_def Let_def bindE_def map_err_def run_atoms)
  then show thesis
    using paths by (rule that) simp
qed

text \<open>Every rewrite can be made, and no replacement has the name of a pack that is rewritten.\<close>

definition rewritable :: "env \<Rightarrow> world \<Rightarrow> sweep_plan \<Rightarrow> bool" where
  "rewritable E s plan \<longleftrightarrow>
     (\<forall>rw \<in> set (packs_to_rewrite plan).
        keep rw \<noteq> [] \<and>
        (\<exists>objects img. replacement E s rw = Inr objects \<and>
           pack_objects E objects (pack_header objects) [] = Inr img) \<and>
        (\<forall>p \<in> set (replacement_paths E s (pack_dir (self s)) rw). node_at s p \<noteq> Some Dir) \<and>
        is_file_node (node_at s (rewrite_pack rw)) \<and>
        is_file_node (node_at s (with_extension (rewrite_pack rw) ''idx'')) \<and>
        rewrite_pack rw \<notin> all_replacements E s plan \<and>
        with_extension (rewrite_pack rw) ''idx'' \<notin> all_replacements E s plan)"

text \<open>What phase 1 keeps: it only writes files at replacement paths.\<close>

definition rewriting :: "env \<Rightarrow> world \<Rightarrow> sweep_plan \<Rightarrow> world \<Rightarrow> bool" where
  "rewriting E s plan u \<longleftrightarrow>
     pending u = [] \<and> self u = self s \<and> dir_len u = dir_len s \<and>
     (\<forall>q. q \<notin> all_replacements E s plan \<longrightarrow> node_at u q = node_at s q) \<and>
     (\<forall>q \<in> all_replacements E s plan. node_at u q = node_at s q \<or> is_file_node (node_at u q))"

lemma is_file_node_File [simp]: "is_file_node (Some (File b))"
  by (simp add: is_file_node_def)

lemma is_file_node_iff: "is_file_node n \<longleftrightarrow> (\<exists>b. n = Some (File b))"
  by (auto simp: is_file_node_def split: option.splits node.splits)

lemma is_file_nodeE: "is_file_node n \<Longrightarrow> (\<And>b. n = Some (File b) \<Longrightarrow> P) \<Longrightarrow> P"
  by (auto simp: is_file_node_def split: option.splits node.splits)

lemma quiet_rewrite_one:
  assumes rw: "rw \<in> set (packs_to_rewrite plan)" and ok: "rewritable E s plan"
    and inv: "rewriting E s plan u" and dir: "node_at s (pack_dir (self s)) = Some Dir"
  shows "\<exists>acc' v. rewrite_one E (pack_dir (self s)) rw acc u = (Inr acc', v) \<and> rewriting E s plan v"
proof -
  let ?dir = "pack_dir (self s)" and ?old = "rewrite_pack rw"
  let ?idx = "with_extension ?old ''idx''" and ?all = "all_replacements E s plan"
  obtain objects pd ies where objects: "replacement E s rw = Inr objects"
    and image: "pack_objects E objects (pack_header objects) [] = Inr (pd, ies)"
    and keep: "keep rw \<noteq> []" and old: "is_file_node (node_at s ?old)" "is_file_node (node_at s ?idx)"
    and apart: "?old \<notin> ?all" "?idx \<notin> ?all"
    and free: "\<forall>p \<in> set (replacement_paths E s ?dir rw). node_at s p \<noteq> Some Dir"
    using ok rw unfolding rewritable_def by fastforce
  have paths: "replacement_paths E s ?dir rw = new_pack_paths E ?dir objects"
    by (simp add: replacement_paths_def objects)
  then have sub: "set (new_pack_paths E ?dir objects) \<subseteq> ?all"
    using rw by (auto simp: all_replacements_def)
  have same: "node_at u ?old = node_at s ?old" "node_at u ?idx = node_at s ?idx"
    using inv apart by (simp_all add: rewriting_def)
  have "replacement E u rw = replacement E s rw"
    using same old by (intro replacement_cong [of _ ?old]) (auto simp: has_idx_def path_exists_def elim: is_file_nodeE)
  then have kept: "read_kept E rw u = (Inr objects, u)"
    by (simp add: read_kept_eq objects)
  have "objects \<noteq> []"
    using replacement_serves(1) [OF objects] keep by auto
  moreover have dir_all: "?dir \<notin> ?all"
    by (auto simp: all_replacements_def replacement_paths_def new_pack_paths_def pair_paths_def split: sum.splits)
  then have "node_at u ?dir = Some Dir"
    using inv dir by (simp add: rewriting_def)
  moreover have "node_at u p \<noteq> Some Dir" if "p \<in> set (new_pack_paths E ?dir objects)" for p
  proof -
    have "node_at u p = node_at s p \<or> is_file_node (node_at u p)" "node_at s p \<noteq> Some Dir"
      using that sub inv free paths by (auto simp: rewriting_def)
    then show ?thesis by (auto simp: is_file_node_def)
  qed
  then have "\<forall>p \<in> set (new_pack_paths E ?dir objects). node_at u p \<noteq> Some Dir"
    by blast
  moreover have "pending u = []"
    using inv by (simp add: rewriting_def)
  ultimately obtain p i where create: "PackFile_create E ?dir objects u =
      (Inr (p, i), put_node i (File (serialize_index ies)) (put_node p (File pd) u))"
    and new: "new_pack_paths E ?dir objects = [p, i]" "p \<noteq> i"
    using quiet_create [OF _ _ _ image] by metis
  let ?v = "put_node i (File (serialize_index ies)) (put_node p (File pd) u)"
  have pi: "p \<in> ?all" "i \<in> ?all"
    using sub new by simp_all
  have v: "rewriting E s plan ?v"
    using inv pi by (auto simp: rewriting_def disk_nodes.look_put)
      (cases s; cases u; simp add: put_node_def)+
  moreover have "path_exists ?v ?old" "path_exists ?v ?idx" "path_exists ?v p" "path_exists ?v i"
    using old same apart pi
    by (auto simp: path_exists_def disk_nodes.look_put elim: is_file_nodeE)
  then have "\<exists>n. pair_saving rw (p, i) ?v = (Inr n, ?v)"
    by (simp add: pair_saving_def bindE_def file_len_eq run_atoms)
  ultimately show ?thesis
    using kept create
    by (cases acc) (auto simp: rewrite_one_def bindE_def map_err_def run_atoms)
qed

lemma quiet_rewrite_phase:
  assumes ok: "rewritable E s plan" and quiet: "pending s = []"
    and dir: "packs_to_rewrite plan \<noteq> [] \<Longrightarrow> node_at s (pack_dir (self s)) = Some Dir"
  shows "\<exists>acc v. rewrite_phase E options (pack_dir (self s)) plan s = (Inr acc, v) \<and> rewriting E s plan v"
proof -
  have start: "rewriting E s plan s"
    using quiet by (simp add: rewriting_def)
  have "\<exists>acc' v. foldE (rewrite_one E (pack_dir (self s))) rws acc u = (Inr acc', v) \<and> rewriting E s plan v"
    if "set rws \<subseteq> set (packs_to_rewrite plan)" "rewriting E s plan u" for rws acc u
    using that
  proof (induction rws arbitrary: acc u)
    case (Cons rw rws)
    then have rw: "rw \<in> set (packs_to_rewrite plan)" by simp
    then have "node_at s (pack_dir (self s)) = Some Dir"
      using dir by fastforce
    then obtain acc1 v where "rewrite_one E (pack_dir (self s)) rw acc u = (Inr acc1, v)" "rewriting E s plan v"
      using quiet_rewrite_one [OF rw ok Cons.prems(2)] by blast
    with Cons show ?case by (simp add: bindE_def)
  qed (simp add: run_atoms)
  with start show ?thesis
    by (simp add: rewrite_phase_def run_atoms)
qed

section \<open>One removal without faults\<close>

text \<open>
  The trash mirrors the store: no file is above it, and in it directories lie where the
  directories of the mirror go and files only as deep as its files. An empty trash is ready, and so is
  one that earlier sweeps have filled.
\<close>

definition trash_ready :: "'z disk_scheme \<Rightarrow> path \<Rightarrow> bool" where
  "trash_ready d r \<longleftrightarrow>
     (\<forall>q. is_under q r \<longrightarrow> \<not> is_file_node (node_at d q)) \<and>
     (\<forall>q. is_under (r @ [TRASH_DIR]) q \<longrightarrow>
        (is_file_node (node_at d q) \<longrightarrow> length r + 4 \<le> length q) \<and>
        (node_at d q = Some Dir \<longrightarrow> length q < length r + 4))"

lemma trash_ready_cong:
  "(\<And>q. is_under q r \<or> is_under (r @ [TRASH_DIR]) q \<Longrightarrow> node_at t q = node_at s q) \<Longrightarrow>
     trash_ready t r = trash_ready s r"
  by (simp add: trash_ready_def)

text \<open>The directories on the way to the trash path of a file.\<close>

lemma trash_parent:
  assumes p: "store_file r p"
  obtains x where "strip_prefix r p = Some (''objects'' # x)" and "trash_path r p = r @ TRASH_DIR # ''objects'' # x"
    and "butlast (trash_path r p) = r @ TRASH_DIR # ''objects'' # butlast x" and "length x = 2"
    and "\<And>q. q \<in> insert (butlast (trash_path r p)) (set (ancestors (butlast (trash_path r p)))) \<Longrightarrow>
      is_under q r \<or> is_under (r @ [TRASH_DIR]) q \<and> length q < length r + 4"
proof -
  obtain x where strip: "strip_prefix r p = Some (''objects'' # x)" and x: "length x = 2"
    and dst: "trash_path r p = r @ TRASH_DIR # ''objects'' # x"
    using store_fileD [OF p] by metis
  let ?dir = "r @ TRASH_DIR # ''objects'' # butlast x"
  have dir: "butlast (trash_path r p) = ?dir"
    using x by (auto simp: dst butlast_append)
  have "is_under q r \<or> is_under (r @ [TRASH_DIR]) q \<and> length q < length r + 4"
    if q: "q \<in> insert ?dir (set (ancestors ?dir))" for q
  proof -
    obtain z where "?dir = q @ z"
      using q unfolding prefixes_of is_under_iff by auto
    moreover have "length ?dir = length r + 3"
      using x by simp
    ultimately have "length q \<le> length r + 3"
      by (metis le_add1 length_append)
    with \<open>?dir = q @ z\<close> show ?thesis
      unfolding is_under_iff by (auto simp: append_eq_append_conv2 Cons_eq_append_conv)
  qed
  with strip dst dir x that show thesis by simp
qed

lemma quiet_unlink:
  "pending u = [] \<Longrightarrow> node_at u p = Some (File b) \<Longrightarrow>
     remove_or_trash Delete trash_root p u = (Inr (length b), del_node p u)"
  by (simp add: remove_or_trash_def bindE_def file_len_eq path_exists_def node_len_def map_err_def
      quiet_remove run_atoms)

text \<open>One move to the trash on a disk without faults.\<close>

lemma quiet_trash:
  assumes quiet: "pending s = []" and r: "root (self s) = r" and p: "store_file r p"
    and b: "node_at s p = Some (File b)" and ready: "trash_ready s r"
  shows "\<exists>t. remove_or_trash Trash (r @ [TRASH_DIR]) p s = (Inr (length b), t) \<and>
    pending t = [] \<and> trash_ready t r \<and>
    (\<forall>q. is_under (r @ [''objects'']) q \<longrightarrow> node_at t q = (if q = p then None else node_at s q))"
proof -
  let ?dst = "trash_path r p"
  let ?dirs = "insert (butlast ?dst) (set (ancestors (butlast ?dst)))"
  obtain x where strip: "strip_prefix r p = Some (''objects'' # x)" and x: "length x = 2"
    and dst: "?dst = r @ TRASH_DIR # ''objects'' # x" "butlast ?dst = r @ TRASH_DIR # ''objects'' # butlast x"
    and dirs: "\<And>q. q \<in> ?dirs \<Longrightarrow> is_under q r \<or> is_under (r @ [TRASH_DIR]) q \<and> length q < length r + 4"
    by (rule trash_parent [OF p]) blast
  have under: "is_under (r @ [TRASH_DIR]) ?dst" and len: "length ?dst = length r + 4"
    using x by (simp_all add: dst(1) is_under_iff)
  have out: "\<not> is_under q r" if "is_under (r @ [z]) q" for q z
    using that by (auto simp: is_under_iff)
  have p_out: "\<not> is_under (r @ [TRASH_DIR]) p" "\<not> is_under p r"
    using p by (auto simp: store_file_def is_under_iff TRASH_DIR_def)
  have "\<forall>q \<in> ?dirs. \<not> is_file_node (node_at s q)"
    using dirs ready unfolding trash_ready_def by (meson not_less)
  then obtain u where create: "create_dir_all (butlast ?dst) s = (Inr (), u)" and quiet_u: "pending u = []"
    by (rule quiet_create_dir_all [OF quiet])
  have other: "node_at u q = node_at s q" if "q \<notin> ?dirs" for q
    using touches_at [OF create_dir_all_touches [OF create]] that by blast
  have files: "is_file_node (node_at u q) \<longleftrightarrow> is_file_node (node_at s q)" for q
    using same_files_at [OF upholdsD [OF confined_create_dir_all [of "{}"] create], of q]
    by (simp add: is_file_node_iff)
  have ready_u: "trash_ready u r"
    unfolding trash_ready_def files
  proof (intro conjI allI impI)
    fix q
    assume q: "is_under (r @ [TRASH_DIR]) q"
    show "length r + 4 \<le> length q" if "is_file_node (node_at s q)"
      using ready q that by (simp add: trash_ready_def)
    show "length q < length r + 4" if "node_at u q = Some Dir"
    proof (cases "q \<in> ?dirs")
      case True
      with dirs out [OF q] show ?thesis by blast
    next
      case False
      with that other ready q show ?thesis by (simp add: trash_ready_def)
    qed
  qed (use ready in \<open>simp add: trash_ready_def\<close>)
  define v where "v = (if path_exists u ?dst then del_node ?dst u else u)"
  have v: "node_at v q = (if q = ?dst then None else node_at u q)" for q
    by (auto simp: v_def disk_nodes.look_del path_exists_def)
  have quiet_v: "pending v = []" and self_v: "self v = self s"
    using quiet_u upholdsD [OF preserves_self_disk [OF confined_create_dir_all [of "{}"]] create]
    by (simp_all add: v_def) (simp add: del_node_def)
  have "node_at u ?dst \<noteq> Some Dir"
    using ready_u under len by (auto simp: trash_ready_def)
  then have drop: "path_exists u ?dst \<Longrightarrow> fs_remove_file ?dst u = (Inr (), v)" "\<not> path_exists u ?dst \<Longrightarrow> v = u"
    using quiet_u
    by (auto simp: v_def path_exists_def bindE_def fs_remove_file_def run_simps split: option.splits node.splits)
  have "p \<noteq> ?dst"
    using under p_out by auto
  then have src: "node_at v p = Some (File b)"
    using create_dir_all_grows [OF create b] by (simp add: v)
  have "butlast ?dst \<noteq> ?dst"
  proof
    assume "butlast ?dst = ?dst"
    then have "length ?dst - 1 = length ?dst"
      by (metis length_butlast)
    with len show False by simp
  qed
  then have "node_at v (butlast ?dst) = Some Dir"
    using create_dir_all_ok [OF create] by (simp add: v)
  then have ren: "fs_rename p ?dst v = (Inr (), put_node ?dst (File b) (del_node p v))" (is "_ = (_, ?t)")
    using quiet_v src by (simp add: fs_rename_def bindE_def run_simps rename_error_def v move_node_def)
  have t: "node_at ?t q = (if q = ?dst then Some (File b) else if q = p then None else node_at u q)" for q
    by (simp add: disk_nodes.look_put disk_nodes.look_del v)
  have "trash_ready ?t r"
    using ready_u p_out under len out [OF under] unfolding trash_ready_def t by auto
  moreover have "node_at ?t q = (if q = p then None else node_at s q)" if "is_under (r @ [''objects'']) q" for q
  proof -
    have "q \<noteq> ?dst" "q \<notin> ?dirs"
      using that under dirs [of q] out [OF that] by (auto simp: is_under_iff TRASH_DIR_def)
    then show ?thesis
      by (simp add: t other)
  qed
  moreover have "file_len p s = (Inr (length b), s)"
    using b by (simp add: file_len_eq path_exists_def node_len_def)
  then have "remove_or_trash Trash (r @ [TRASH_DIR]) p s = (Inr (length b), ?t)"
    using r create drop ren
    by (cases "path_exists u ?dst")
      (simp_all add: remove_or_trash_def bindE_def run_atoms strip Let_def map_err_def attemptE_def dst(1) [symmetric])
  ultimately show ?thesis
    using quiet_v by (intro exI [of _ ?t]) simp
qed

text \<open>Both modes.\<close>

definition ready_to_remove :: "sweep_mode \<Rightarrow> path \<Rightarrow> world \<Rightarrow> bool" where
  "ready_to_remove md r s \<longleftrightarrow>
     md \<noteq> DryRun \<and> pending s = [] \<and> root (self s) = r \<and> (md = Trash \<longrightarrow> trash_ready s r)"

lemma quiet_removal:
  assumes "ready_to_remove md r s" and p: "store_file r p" and b: "node_at s p = Some (File b)"
  shows "\<exists>t. remove_or_trash md (r @ [TRASH_DIR]) p s = (Inr (length b), t) \<and> ready_to_remove md r t \<and>
    (\<forall>q. is_under (r @ [''objects'']) q \<longrightarrow> node_at t q = (if q = p then None else node_at s q))"
proof (cases md)
  case Delete
  have "root (self (del_node p s)) = root (self s)"
    by (simp add: del_node_def)
  with assms Delete show ?thesis
    by (intro exI [of _ "del_node p s"]) (simp add: quiet_unlink ready_to_remove_def disk_nodes.look_del)
next
  case Trash
  then obtain t where t: "remove_or_trash Trash (r @ [TRASH_DIR]) p s = (Inr (length b), t)" "pending t = []"
      "trash_ready t r" "\<forall>q. is_under (r @ [''objects'']) q \<longrightarrow> node_at t q = (if q = p then None else node_at s q)"
    using quiet_trash [OF _ _ p b] assms(1) by (auto simp: ready_to_remove_def)
  moreover have "self t = self s"
    using remove_or_trash_self [OF t(1)] .
  ultimately show ?thesis
    using assms(1) Trash by (auto simp: ready_to_remove_def)
qed (use assms in \<open>simp add: ready_to_remove_def\<close>)

section \<open>The phases of removal without faults\<close>

lemma quiet_loop:
  assumes "distinct (map g xs)" and "\<forall>x \<in> set xs. store_file r (g x) \<and> is_file_node (node_at u (g x))"
    and "ready_to_remove md r u"
    and body: "\<And>x a. \<exists>k. f x a = bindE (remove_or_trash md (r @ [TRASH_DIR]) (g x)) (\<lambda>m. returnE (k m))"
  shows "\<exists>a' t. foldE f xs a u = (Inr a', t) \<and> ready_to_remove md r t \<and>
    (\<forall>q. is_under (r @ [''objects'']) q \<longrightarrow> node_at t q = (if q \<in> g ` set xs then None else node_at u q))"
  using assms(1-3)
proof (induction xs arbitrary: a u)
  case (Cons x xs)
  obtain b where b: "node_at u (g x) = Some (File b)"
    using Cons.prems(2) by (auto elim: is_file_nodeE)
  have sf: "store_file r (g x)"
    using Cons.prems(2) by simp
  obtain v where v: "remove_or_trash md (r @ [TRASH_DIR]) (g x) u = (Inr (length b), v)" "ready_to_remove md r v"
      "\<forall>q. is_under (r @ [''objects'']) q \<longrightarrow> node_at v q = (if q = g x then None else node_at u q)"
    using quiet_removal [OF Cons.prems(3) sf b] by blast
  obtain k where "f x a = bindE (remove_or_trash md (r @ [TRASH_DIR]) (g x)) (\<lambda>m. returnE (k m))"
    using body by blast
  then have step: "f x a u = (Inr (k (length b)), v)"
    by (simp add: bindE_def v(1) run_atoms)
  have "\<forall>y \<in> set xs. store_file r (g y) \<and> is_file_node (node_at v (g y))"
    using Cons.prems(1,2) v(3) by (auto simp: store_file_def image_iff)
  then obtain a' t where t: "foldE f xs (k (length b)) v = (Inr a', t)" "ready_to_remove md r t"
      "\<forall>q. is_under (r @ [''objects'']) q \<longrightarrow> node_at t q = (if q \<in> g ` set xs then None else node_at v q)"
    using Cons.IH [OF _ _ v(2), of "k (length b)"] Cons.prems(1) by auto
  then have "foldE f (x # xs) a u = (Inr a', t)"
    by (simp add: bindE_def step)
  moreover have "\<forall>q. is_under (r @ [''objects'']) q \<longrightarrow>
      node_at t q = (if q \<in> g ` set (x # xs) then None else node_at u q)"
    using t(3) v(3) by simp
  ultimately show ?case
    using t(2) by blast
qed (simp add: run_atoms)

text \<open>Phase 4 looks first, so what is gone already does not matter to it.\<close>

definition clearable :: "sweep_mode \<Rightarrow> path \<Rightarrow> path set \<Rightarrow> world \<Rightarrow> bool" where
  "clearable md r D u \<longleftrightarrow> ready_to_remove md r u \<and> (\<forall>q \<in> D. store_file r q \<and> node_at u q \<noteq> Some Dir)"

lemma quiet_if_there:
  assumes "clearable md r D u" and "p \<in> D"
  shows "\<exists>m v. remove_if_there md (r @ [TRASH_DIR]) p n u = (Inr m, v) \<and> clearable md r D v"
proof (cases "node_at u p")
  case None
  with assms(1) show ?thesis
    by (simp add: remove_if_there_def run_simps path_exists_def)
next
  case (Some c)
  with assms obtain b where b: "node_at u p = Some (File b)"
    by (cases c) (auto simp: clearable_def)
  have "ready_to_remove md r u" and "store_file r p"
    using assms by (simp_all add: clearable_def)
  then obtain v where v: "remove_or_trash md (r @ [TRASH_DIR]) p u = (Inr (length b), v)" "ready_to_remove md r v"
      "\<forall>q. is_under (r @ [''objects'']) q \<longrightarrow> node_at v q = (if q = p then None else node_at u q)"
    using quiet_removal b by blast
  moreover have "clearable md r D v"
    using assms(1) v(2,3) by (auto simp: clearable_def store_file_def)
  ultimately show ?thesis
    using b by (simp add: remove_if_there_def run_simps bindE_def path_exists_def)
qed

lemma quiet_remove_pack:
  assumes "clearable md r D u" and "{p, with_extension p ''idx''} \<subseteq> D"
  shows "\<exists>a' v. remove_pack md (r @ [TRASH_DIR]) p a u = (Inr a', v) \<and> clearable md r D v"
proof -
  obtain c n where a: "a = (c, n)" by (cases a)
  obtain m v where 1: "remove_if_there md (r @ [TRASH_DIR]) (with_extension p ''idx'') n u = (Inr m, v)" "clearable md r D v"
    using quiet_if_there assms by (metis insert_subset)
  obtain k w where 2: "remove_if_there md (r @ [TRASH_DIR]) p m v = (Inr k, w)" "clearable md r D w"
    using quiet_if_there [OF 1(2)] assms(2) by (metis insert_subset)
  show ?thesis
    using 1(1) 2 by (simp add: remove_pack_def a bindE_def run_atoms)
qed

lemma quiet_remove_packs:
  assumes "clearable md r D u" and "\<forall>p \<in> set ps. {p, with_extension p ''idx''} \<subseteq> D"
  shows "\<exists>a' v. foldE (remove_pack md (r @ [TRASH_DIR])) ps a u = (Inr a', v) \<and> clearable md r D v"
  using assms
proof (induction ps arbitrary: a u)
  case (Cons p ps)
  then obtain c v where "remove_pack md (r @ [TRASH_DIR]) p a u = (Inr c, v)" "clearable md r D v"
    using quiet_remove_pack by (metis list.set_intros(1))
  moreover from this Cons obtain a' w where "foldE (remove_pack md (r @ [TRASH_DIR])) ps c v = (Inr a', w)" "clearable md r D w"
    by (metis list.set_intros(2))
  ultimately show ?case by (simp add: bindE_def)
qed (simp add: run_atoms)

section \<open>The plan names each file once\<close>

lemma distinct_orphan_indices: "wf_disk d \<Longrightarrow> distinct (orphan_indices d names dir)"
proof -
  assume "wf_disk d"
  then have "distinct (map fst (filter P (children d dir)))" for P
    using distinct_children_names by (blast intro: distinct_map_filter)
  then have "distinct (map (\<lambda>name. dir @ [name]) (map fst (filter P (children d dir))))" for P
    by (subst distinct_map) (auto intro: inj_onI)
  then show ?thesis
    by (simp add: orphan_indices_def case_prod_unfold comp_def)
qed

lemma pack_not_orphan_index:
  assumes "p \<in> set (orphan_indices d names dir)" and "is_pack_path dir p"
  shows False
  using assms by (auto simp: orphan_indices_def lossy_pack_name elim!: is_pack_pathE split: if_splits)

lemma distinct_orphans:
  assumes "planned_disk s live ps plan"
  shows "distinct (orphan_files plan)"
proof -
  note pd = planned_diskD [OF assms]
  have "distinct (filter (\<lambda>p. \<not> has_idx s p) ps @ orphan_indices s (filter (indexed s) ps) (pack_dir (self s)))"
    using distinct_packs_at [OF pd(1,2)] distinct_orphan_indices [OF pd(1)]
      packs_proper(1) [OF assms] pack_not_orphan_index by fastforce
  with pd(3) show ?thesis
    by (simp add: planned_def)
qed

lemma distinct_loose_garbage:
  assumes "planned_disk s live ps plan"
  shows "distinct (map (loose_path (self s)) (loose_garbage plan))"
proof -
  have "distinct (loose_garbage plan)"
    using planned_diskD(3) [OF assms] by (simp add: planned_def)
  then show ?thesis
    by (simp add: distinct_map inj_on_def loose_path_eq)
qed

section \<open>The whole run without faults\<close>

lemma collect_total: "(\<And>x. x \<in> set xs \<Longrightarrow> \<exists>y. f x = Inr y) \<Longrightarrow> \<exists>ys. collect f xs = Inr ys"
  by (induction xs) (auto, fastforce)

lemma replacement_total:
  assumes "indexed d (rewrite_pack rw)" and "\<And>h. h \<in> set (keep rw) \<Longrightarrow> \<exists>data. pack_serves E d (rewrite_pack rw) h data"
  shows "\<exists>objects. replacement E d rw = Inr objects"
proof -
  obtain index where index: "idx_of d (rewrite_pack rw) = Inr index"
    using assms(1) by (auto simp: indexed_def)
  have "\<exists>y. (case blob_in_pack E d (rewrite_pack rw) index h of Inl e \<Rightarrow> Inl e | Inr data \<Rightarrow> Inr (h, data)) = Inr y"
    if "h \<in> set (keep rw)" for h
    using assms(2) [OF that] index by (auto simp: pack_serves_def idx_of_def)
  from collect_total [of _ _, OF this] show ?thesis
    by (simp add: replacement_def index)
qed

lemma pack_objects_total:
  assumes "\<And>h data. (h, data) \<in> set objects \<Longrightarrow> \<exists>c. encode_payload E data = Inr c"
  shows "\<exists>img. pack_objects E objects pd ies = Inr img"
  using assms
proof (induction objects arbitrary: pd ies)
  case (Cons obj objects)
  obtain h data where "obj = (h, data)" by (cases obj)
  moreover from this Cons.prems obtain c where "encode_payload E data = Inr c" by force
  moreover have "\<exists>img. pack_objects E objects pd ies = Inr img" for pd ies
    by (rule Cons.IH) (use Cons.prems in auto)
  ultimately show ?case by simp
qed simp

lemma rewritable_sound:
  assumes sound: "sound_store E live s" and pd: "planned_disk s live ps plan"
    and fresh: "fresh_replacements E s plan" and codec: "\<And>data. \<exists>c. encode_payload E data = Inr c"
    and no_dir: "\<forall>q \<in> doomed (self s) options plan. node_at s q \<noteq> Some Dir"
    and flag: "rewrite_partial_packs options"
  shows "rewritable E s plan"
  unfolding rewritable_def
proof (intro ballI conjI)
  fix rw
  assume rw: "rw \<in> set (packs_to_rewrite plan)"
  let ?p = "rewrite_pack rw" and ?i = "with_extension (rewrite_pack rw) ''idx''"
  have removed: "?p \<in> set (removals options plan)"
    using rw flag by (simp add: removals_def)
  then have p: "?p \<in> set ps" and idx: "indexed s ?p"
    using removals_dirty [OF pd] by blast+
  note proper = packs_proper [OF pd p]
  have there: "path_exists s ?p" "path_exists s ?i"
    using proper(2) idx by (simp_all add: indexed_def has_idx_def)
  have "?p \<in> doomed (self s) options plan" "?i \<in> doomed (self s) options plan"
    using removed by (auto simp: doomed_def)
  with there no_dir show "is_file_node (node_at s ?p)" "is_file_node (node_at s ?i)"
    by (auto simp: path_exists_def is_file_node_def split: option.split node.split)
  show "?p \<notin> all_replacements E s plan" "?i \<notin> all_replacements E s plan"
    using fresh_not_there [OF fresh] there by blast+
  have keep: "keep rw \<noteq> []" "set (keep rw) \<subseteq> pack_hashes s ?p \<inter> live"
    using planned_diskD(3) [OF pd] rw by (auto simp: planned_def)
  then show "keep rw \<noteq> []" by simp
  have "\<exists>data. pack_serves E s ?p h data" if "h \<in> set (keep rw)" for h
    using sound_pack [OF sound proper(1) idx] keep(2) that by blast
  then obtain objects where "replacement E s rw = Inr objects"
    using replacement_total [OF idx] by blast
  moreover have "\<exists>img. pack_objects E objects (pack_header objects) [] = Inr img"
    using codec by (rule pack_objects_total)
  ultimately show "\<exists>objects img. replacement E s rw = Inr objects \<and>
      pack_objects E objects (pack_header objects) [] = Inr img"
    by blast
  show "node_at s q \<noteq> Some Dir" if "q \<in> set (replacement_paths E s (pack_dir (self s)) rw)" for q
    using fresh rw that by (auto simp: fresh_replacements_def path_exists_def)
qed

lemma quiet_loose_phase:
  assumes "distinct (map (loose_path st) (loose_garbage plan))" and "ready_to_remove md r u"
    and "\<forall>h \<in> set (loose_garbage plan). store_file r (loose_path st h) \<and> is_file_node (node_at u (loose_path st h))"
  shows "\<exists>a' t. loose_phase md (r @ [TRASH_DIR]) st plan n u = (Inr a', t) \<and> ready_to_remove md r t \<and>
    (\<forall>q. is_under (r @ [''objects'']) q \<longrightarrow>
       node_at t q = (if q \<in> loose_path st ` set (loose_garbage plan) then None else node_at u q))"
  unfolding loose_phase_def
  by (rule quiet_loop [where g = "loose_path st", OF assms(1,3,2)]) (auto split: prod.split)

lemma quiet_orphan_phase:
  assumes "distinct (orphan_files plan)" and "ready_to_remove md r u"
    and "\<forall>p \<in> set (orphan_files plan). store_file r p \<and> is_file_node (node_at u p)"
  shows "\<exists>a' t. orphan_phase md (r @ [TRASH_DIR]) plan n u = (Inr a', t) \<and> ready_to_remove md r t \<and>
    (\<forall>q. is_under (r @ [''objects'']) q \<longrightarrow> node_at t q = (if q \<in> set (orphan_files plan) then None else node_at u q))"
proof -
  let ?f = "\<lambda>p n. bindE (remove_or_trash md (r @ [TRASH_DIR]) p) (\<lambda>m. returnE (n + m))"
  have "distinct (map (\<lambda>p. p) (orphan_files plan))"
    using assms(1) by simp
  from quiet_loop [where f = ?f and a = n, OF this assms(3,2)]
  have "\<exists>a' t. foldE ?f (orphan_files plan) n u = (Inr a', t) \<and> ready_to_remove md r t \<and>
      (\<forall>q. is_under (r @ [''objects'']) q \<longrightarrow>
         node_at t q = (if q \<in> (\<lambda>p. p) ` set (orphan_files plan) then None else node_at u q))"
    by blast
  then show ?thesis
    by (simp add: orphan_phase_def)
qed

lemma orphan_not_loose:
  assumes pd: "planned_disk s live ps plan" and p: "p \<in> set (orphan_files plan)"
  shows "p \<notin> loose_path (self s) ` H"
proof -
  have "\<exists>name. p = pack_dir (self s) @ [name]"
  proof -
    have "p \<in> set (filter (\<lambda>p. \<not> has_idx s p) ps @ orphan_indices s (filter (indexed s) ps) (pack_dir (self s)))"
      using p planned_diskD(3) [OF pd] by (simp add: planned_def)
    then show ?thesis
      by (rule mem_orphans [OF planned_diskD(1,2) [OF pd]])
        (auto dest!: packs_proper(1) [OF pd] elim!: is_pack_pathE)
  qed
  then obtain name where "p = root (self s) @ [''objects'', ''pack'', name]"
    by (auto simp: pack_dir_def)
  with loose_at_not_pack show ?thesis
    by (metis (no_types, lifting) image_iff loose_path_eq)
qed

lemma invalidate_ok: "\<exists>t. invalidate_pack_cache u = (Inr (), t)"
  by (auto simp: invalidate_pack_cache_def bindE_def attemptE_def lock_eq set_store_packs_def run_atoms)

text \<open>Writing replacement packs leaves the trash as it is.\<close>

lemma all_replacements_place: "q \<in> all_replacements E s plan \<Longrightarrow> \<exists>name. q = root (self s) @ [''objects'', ''pack'', name]"
  by (auto simp: all_replacements_def replacement_paths_def new_pack_paths_def pair_paths_def pack_dir_def
      split: sum.splits)

lemma rewriting_keeps_trash:
  assumes "rewriting E s plan u"
  shows "trash_ready u (root (self s)) = trash_ready s (root (self s))"
proof (rule trash_ready_cong)
  fix q
  assume "is_under q (root (self s)) \<or> is_under (root (self s) @ [TRASH_DIR]) q"
  then have "q \<notin> all_replacements E s plan"
    by (auto simp: is_under_iff TRASH_DIR_def dest!: all_replacements_place)
  with assms show "node_at u q = node_at s q"
    by (simp add: rewriting_def)
qed

lemma quiet_execute_plan:
  assumes pd: "planned_disk s live ps plan" and quiet: "pending s = []" and md: "mode options \<noteq> DryRun"
    and trash: "mode options = Trash \<Longrightarrow> trash_ready s (root (self s))"
    and no_dir: "\<forall>q \<in> doomed (self s) options plan. node_at s q \<noteq> Some Dir"
    and ok: "rewrite_partial_packs options \<Longrightarrow> rewritable E s plan"
  shows "\<exists>report t. execute_plan E options plan s = (Inr report, t)"
proof -
  let ?st = "self s" and ?r = "root (self s)" and ?D = "doomed (self s) options plan" and ?md = "mode options"
  let ?T = "?r @ [TRASH_DIR]"
  have dir: "node_at s (pack_dir ?st) = Some Dir" if "packs_to_rewrite plan \<noteq> []" "rewrite_partial_packs options"
  proof -
    have "hd (map rewrite_pack (packs_to_rewrite plan)) \<in> set (removals options plan)"
      using that by (cases "packs_to_rewrite plan") (auto simp: removals_def)
    with removals_dirty [OF pd] mem_packs_at [OF planned_diskD(1,2) [OF pd]] show ?thesis by blast
  qed
  obtain acc n1 u1 where p1: "rewrite_phase E options (pack_dir ?st) plan s = (Inr (acc, n1), u1)"
    and ready1: "ready_to_remove ?md ?r u1" and u1: "\<And>q. node_at u1 q = node_at s q \<or> is_file_node (node_at u1 q)"
  proof (cases "rewrite_partial_packs options")
    case True
    obtain acc v where "rewrite_phase E options (pack_dir ?st) plan s = (Inr acc, v)" and v: "rewriting E s plan v"
      using quiet_rewrite_phase [OF ok [OF True] quiet dir] True by blast
    moreover have "node_at v q = node_at s q \<or> is_file_node (node_at v q)" for q
      using v by (auto simp: rewriting_def)
    moreover have "ready_to_remove ?md ?r v"
      using v md trash rewriting_keeps_trash [OF v] by (simp add: ready_to_remove_def rewriting_def)
    ultimately show thesis
      using that by (cases acc) blast
  next
    case False
    with that [of 0 0 s] quiet md trash show thesis
      by (simp add: rewrite_phase_def run_atoms ready_to_remove_def)
  qed
  have sf: "store_file ?r q" and files: "is_file_node (node_at u1 q)" if "q \<in> ?D" for q
  proof -
    have "is_file_node (node_at s q)"
      using no_dir that doomed_exists [OF pd that]
      by (auto simp: path_exists_def is_file_node_def split: option.split node.split)
    with u1 [of q] show "is_file_node (node_at u1 q)" by auto
  qed (rule doomed_store_file [OF pd that])
  have under: "is_under (?r @ [''objects'']) q" if "q \<in> ?D" for q
    using sf [OF that] by (simp add: store_file_def)
  have loose: "\<forall>h \<in> set (loose_garbage plan). store_file ?r (loose_path ?st h) \<and> is_file_node (node_at u1 (loose_path ?st h))"
    using files sf by (simp add: doomed_def)
  obtain acc2 n2 u2 where p2: "loose_phase ?md ?T ?st plan n1 u1 = (Inr (acc2, n2), u2)" "ready_to_remove ?md ?r u2"
    and u2: "\<And>q. is_under (?r @ [''objects'']) q \<Longrightarrow>
      node_at u2 q = (if q \<in> loose_path ?st ` set (loose_garbage plan) then None else node_at u1 q)"
    using quiet_loose_phase [OF distinct_loose_garbage [OF pd] ready1 loose] by fast
  have orphans: "\<forall>p \<in> set (orphan_files plan). store_file ?r p \<and> is_file_node (node_at u2 p)"
    using files sf under orphan_not_loose [OF pd] by (simp add: u2 doomed_def)
  obtain n3 u3 where p3: "orphan_phase ?md ?T plan n2 u2 = (Inr n3, u3)" "ready_to_remove ?md ?r u3"
    and u3: "\<And>q. is_under (?r @ [''objects'']) q \<Longrightarrow>
      node_at u3 q = (if q \<in> set (orphan_files plan) then None else node_at u2 q)"
    using quiet_orphan_phase [OF distinct_orphans [OF pd] p2(2) orphans] by fast
  have "node_at u3 q \<noteq> Some Dir" if "q \<in> ?D" for q
    using files [OF that] under [OF that] by (auto simp: u2 u3 is_file_node_def)
  then have "clearable ?md ?r ?D u3"
    using p3(2) sf by (simp add: clearable_def)
  moreover have "\<forall>p \<in> set (removals options plan). {p, with_extension p ''idx''} \<subseteq> ?D"
    by (auto simp: doomed_def)
  ultimately obtain acc4 n4 u4 where p4: "pack_phase ?md ?T options plan n3 u3 = (Inr (acc4, n4), u4)"
    using quiet_remove_packs unfolding pack_phase_def by (metis surj_pair)
  obtain t where "invalidate_pack_cache u4 = (Inr (), t)"
    using invalidate_ok by blast
  with p1 p2 p3 p4 show ?thesis
    by (simp add: execute_plan_def bind_pure Let_def bindE_def run_atoms)
qed

end
