(* ===== verification/SweepSpec.thy ===== *)
theory SweepSpec
  imports GcLive ReadSpec
begin

text \<open>
  The properties of mark, of the plan, and of a sweep that runs to its end.
\<close>

section \<open>Mark\<close>

lemma finite_packed_set [simp]: "finite (packed_set d ps)"
  by (auto simp: packed_set_def pack_hashes_def split: sum.split)

lemma finite_loose_set [simp]: "finite (loose_set s)"
  by (simp add: loose_set_def)

lemma caches_hashes:
  assumes "map_order_ok E" and "caches d ps cache"
  shows "set (all_hashes E cache) = packed_set d ps"
proof -
  have "h \<in> set (all_hashes E cache) \<longleftrightarrow> h \<in> packed_set d ps" for h
    using assms(2)
    by (auto simp: set_all_hashes [OF assms(1)] caches_def packed_set_def indexed_def pack_hashes_def)
  then show ?thesis by blast
qed

lemma mark_runs:
  assumes "wf_disk s" and "map_order_ok E" and "packs_current s" and "indices_load s ps"
    and "\<forall>b. node_at s (objects_dir (self s)) \<noteq> Some (File b)"
  obtains t where "node_at t = node_at s" and "mark E roots s =
    (Inr \<lparr>live_hashes = roots \<inter> (loose_set s \<union> packed_set s ps),
       missing = sorted_list_of_set (roots - (loose_set s \<union> packed_set s ps)),
       root_count = card roots, present_count = card (loose_set s \<union> packed_set s ps)\<rparr>, t)"
proof -
  let ?present = "loose_set s \<union> packed_set s ps"
  obtain cache t where cache: "caches s ps cache" and run: "with_pack_cache (all_hashes E) s = (Inr (all_hashes E cache), t)"
    and same: "node_at t = node_at s"
    using with_pack_cache_current [OF assms(3,4), where f = "all_hashes E"] by blast
  have split: "{h \<in> roots. h \<in> ?present} = roots \<inter> ?present" "{h \<in> roots. h \<notin> ?present} = roots - ?present"
    by auto
  show thesis
    by (rule that [OF same], unfold split [symmetric]) (use caches_hashes [OF assms(2) cache] in
      \<open>simp add: mark_def bindE_def list_blobs_eq [OF assms(1,5)] list_blobs_packed_def run Let_def loose_set_def run_atoms\<close>)
qed

text \<open>
  C27. Mark splits the roots: the live set is the roots that the store has, loose or packed; the
  others are reported missing, in order and once each. It counts each blob of the store once and
  changes no file.
\<close>

theorem mark_spec:
  assumes "wf_disk s" and "map_order_ok E" and "packs_current s" and "indices_load s ps"
    and "\<forall>b. node_at s (objects_dir (self s)) \<noteq> Some (File b)" and "finite roots"
  shows "\<exists>ls t. mark E roots s = (Inr ls, t) \<and> node_at t = node_at s \<and>
    live_hashes ls = roots \<inter> (loose_set s \<union> packed_set s ps) \<and>
    set (missing ls) = roots - live_hashes ls \<and> sorted (missing ls) \<and> distinct (missing ls) \<and>
    root_count ls = card (live_hashes ls) + length (missing ls) \<and>
    present_count ls = card (loose_set s \<union> packed_set s ps)"
proof (rule mark_runs [OF assms(1-5)])
  fix t
  let ?present = "loose_set s \<union> packed_set s ps"
  let ?ls = "\<lparr>live_hashes = roots \<inter> ?present, missing = sorted_list_of_set (roots - ?present),
      root_count = card roots, present_count = card ?present\<rparr>"
  assume "node_at t = node_at s" and "mark E roots s = (Inr ?ls, t)"
  moreover have "card roots = card (roots \<inter> ?present) + card (roots - ?present)"
    using assms(6) by (rule card_Int_Diff)
  ultimately show ?thesis
    using assms(6) by (intro exI [of _ ?ls] exI [of _ t]) auto
qed

lemma toy_current: "packs_current toy_gc"
  by (simp add: packs_current_def)

lemma toy_indices: "indices_load toy_gc [toy_pack_path]"
  by (simp add: indices_load_def toy_packs toy_idx)

lemma toy_packed_set: "packed_set toy_gc [toy_pack_path] = {hash_of [1], hash_of [2]}"
  by (auto simp: packed_set_def indexed_def has_idx_def toy_pack_with_idx path_exists_def toy_node_at toy_idx toy_pack_hashes)

theorem mark_spec_witness:
  "\<exists>ls t. mark (toy_env False) {hash_of [1], hash_of [9]} toy_gc = (Inr ls, t) \<and>
     live_hashes ls = {hash_of [1]} \<and> root_count ls = 2 \<and> present_count ls = 4"
proof -
  have "\<forall>b. node_at toy_gc (objects_dir (self toy_gc)) \<noteq> Some (File b)"
    by (simp add: toy_node_at)
  from mark_spec [OF toy_gc_wf toy_map_order toy_current toy_indices this, of "{hash_of [1], hash_of [9]}" False]
  obtain ls t where run: "mark (toy_env False) {hash_of [1], hash_of [9]} toy_gc = (Inr ls, t)"
    and live: "live_hashes ls = {hash_of [1]}" and missing: "set (missing ls) = {hash_of [9]}" "distinct (missing ls)"
    and counts: "root_count ls = card (live_hashes ls) + length (missing ls)" "present_count ls = 4"
    by (auto simp: toy_loose_set toy_packed_set)
  have "length (missing ls) = 1"
    using missing distinct_card [OF missing(2)] by simp
  with run live counts show ?thesis by auto
qed

section \<open>The plan\<close>

definition sized :: "world \<Rightarrow> decisions \<Rightarrow> bool" where
  "sized s ds \<longleftrightarrow>
     remove_bytes ds = (\<Sum>p \<leftarrow> to_remove ds. node_len s p + node_len s (with_extension p ''idx''))"

lemma sized_decide:
  assumes "state_bytes x = node_len s (state_path x) + node_len s (with_extension (state_path x) ''idx'')"
    and "sized s ds"
  shows "sized s (decide_pack garbage x ds)"
  using assms by (simp add: sized_def decide_pack_def Let_def)

lemma sized_fold: "sized s ds \<Longrightarrow> sized s (fold (decide_pack garbage) (map (state_of s live) ps) ds)"
proof (induction ps arbitrary: ds)
  case (Cons p ps)
  have "state_bytes (state_of s live p) =
      node_len s (state_path (state_of s live p)) + node_len s (with_extension (state_path (state_of s live p)) ''idx'')"
    by (simp add: state_of_def)
  from Cons.IH [OF sized_decide [OF this Cons.prems]] show ?case
    by simp
qed simp

lemma decisions_covered:
  assumes p: "p \<in> set (to_remove (pack_decisions s live ps) @ map rewrite_pack (to_rewrite (pack_decisions s live ps)))"
    and h: "h \<in> pack_hashes s p \<inter> live"
  shows "h \<in> loose_set s \<or> (\<exists>q \<in> set ps. indexed s q \<and> pack_hashes s q \<subseteq> live \<and> h \<in> pack_hashes s q) \<or>
    (\<exists>rw \<in> set (to_rewrite (pack_decisions s live ps)). h \<in> set (keep rw))"
proof -
  have "p \<in> set ps" "indexed s p"
    using mset_eq_setD [OF decisions_split [of s live ps]] p by auto
  with h have "h \<in> live \<inter> (loose_set s \<union> packed_set s ps)"
    by (auto simp: packed_set_def)
  with decisions_cover [of live s ps] show ?thesis
    by (auto simp: packed_set_def healthy_def)
qed

text \<open>
  C17. The plan of a sweep. It counts every present blob once, as live or as garbage; each pack
  with garbage is removed or rewritten, once; the estimate is the size of the loose garbage and
  of the removed packs; and the coverage rule holds: a live blob of a pack that is removed or
  rewritten is loose, or in a pack without garbage, or among the objects some rewrite keeps, and
  no two rewrites keep the same blob. Planning changes nothing.
\<close>

theorem plan_sweep_spec:
  assumes "plan_sweep live s = (Inr plan, t)" and "wf_disk s"
  shows "t = s \<and> (\<exists>ps. packs_at s (pack_dir (self s)) = Inr ps \<and>
    scanned plan = card (loose_set s \<union> packed_set s ps) \<and>
    scanned plan = live_present plan + garbage_count plan \<and>
    live_present plan = card ((loose_set s \<union> packed_set s ps) \<inter> live) \<and>
    set (loose_garbage plan) = loose_set s - live \<and> distinct (loose_garbage plan) \<and>
    mset (packs_to_remove plan @ map rewrite_pack (packs_to_rewrite plan)) =
      mset (filter (\<lambda>p. indexed s p \<and> \<not> pack_hashes s p \<subseteq> live) ps) \<and>
    unreadable_packs plan = filter (\<lambda>p. has_idx s p \<and> \<not> indexed s p) ps \<and>
    bytes_reclaimable plan =
      (\<Sum>h \<leftarrow> loose_garbage plan. node_len s (loose_path (self s) h)) +
      (\<Sum>p \<leftarrow> packs_to_remove plan. node_len s p + node_len s (with_extension p ''idx'')) \<and>
    (\<forall>p \<in> set (packs_to_remove plan @ map rewrite_pack (packs_to_rewrite plan)).
       \<forall>h \<in> pack_hashes s p \<inter> live.
         h \<in> loose_set s \<or>
         (\<exists>q \<in> set ps. indexed s q \<and> pack_hashes s q \<subseteq> live \<and> h \<in> pack_hashes s q) \<or>
         (\<exists>rw \<in> set (packs_to_rewrite plan). h \<in> set (keep rw))) \<and>
    (\<forall>rw \<in> set (packs_to_rewrite plan). keep rw \<noteq> [] \<and>
       set (keep rw) \<subseteq> pack_hashes s (rewrite_pack rw) \<inter> live - loose_set s) \<and>
    distinct (concat (map keep (packs_to_rewrite plan))))"
proof (rule plan_sweep_run [OF assms])
  fix ps
  let ?hs = "sorted_list_of_set (loose_set s - live)" and ?ds = "pack_decisions s live ps"
  let ?present = "loose_set s \<union> packed_set s ps"
  let ?n = "\<Sum>h \<leftarrow> ?hs. node_len s (loose_path (self s) h)"
  assume ps: "packs_at s (pack_dir (self s)) = Inr ps" and t: "t = s"
    and plan: "plan = plan_of s live ps ?n"
  have fields: "loose_garbage plan = ?hs" "packs_to_remove plan = to_remove ?ds"
    "packs_to_rewrite plan = to_rewrite ?ds" "scanned plan = card ?present"
    "live_present plan = card (?present \<inter> live)" "garbage_count plan = card (?present - live)"
    "unreadable_packs plan = filter (\<lambda>p. has_idx s p \<and> \<not> indexed s p) ps"
    "bytes_reclaimable plan = ?n + remove_bytes ?ds"
    by (simp_all add: plan plan_of_def Let_def)
  have "card ?present = card (?present \<inter> live) + card (?present - live)"
    by (rule card_Int_Diff) simp
  moreover have "remove_bytes ?ds = (\<Sum>p \<leftarrow> to_remove ?ds. node_len s p + node_len s (with_extension p ''idx''))"
    unfolding pack_decisions_def decide_packs_def sized_def [symmetric]
    by (rule sized_fold) (simp add: sized_def)
  moreover have dirty: "filter (\<lambda>p. indexed s p \<and> \<not> healthy s live p) ps =
      filter (\<lambda>p. indexed s p \<and> \<not> pack_hashes s p \<subseteq> live) ps"
    by (auto simp: healthy_def intro: filter_cong)
  note split = decisions_split [of s live ps, unfolded dirty]
  have "distinct (concat (map keep (to_rewrite ?ds)))"
    using pack_decisions_decided [of s ps live] by (simp add: decided_def)
  moreover have "\<forall>p \<in> set (to_remove ?ds @ map rewrite_pack (to_rewrite ?ds)). \<forall>h \<in> pack_hashes s p \<inter> live.
      h \<in> loose_set s \<or> (\<exists>q \<in> set ps. indexed s q \<and> pack_hashes s q \<subseteq> live \<and> h \<in> pack_hashes s q) \<or>
      (\<exists>rw \<in> set (to_rewrite ?ds). h \<in> set (keep rw))"
    using decisions_covered by blast
  moreover have "\<forall>rw \<in> set (to_rewrite ?ds). keep rw \<noteq> [] \<and>
      set (keep rw) \<subseteq> pack_hashes s (rewrite_pack rw) \<inter> live - loose_set s"
    using decisions_keep by blast
  ultimately show ?thesis
    unfolding fields by (intro conjI t exI [of _ ps] ps refl split) simp_all
qed

lemma toy_list: "list_blobs toy_gc = (Inr (loose_hashes toy_gc (objects_dir (self toy_gc))), toy_gc)"
  by (rule list_blobs_eq [OF toy_gc_wf]) (simp add: toy_node_at)

lemma toy_loose_garbage: "loose_set toy_gc - toy_live = {hash_of [4]}"
  by (auto simp: toy_loose_set toy_live_def)

lemma toy_plan: "\<exists>plan. plan_sweep toy_live toy_gc = (Inr plan, toy_gc)"
proof -
  have "path_exists toy_gc (loose_path (self toy_gc) (hash_of [4]))"
    by (simp add: loose_path_eq toy_loose_at path_exists_def node_at_def toy_paths)
  then show ?thesis
    using plan_sweep_eq [OF toy_gc_wf toy_list, of "[toy_pack_path]" toy_live] by (simp add: toy_packs toy_loose_garbage)
qed

theorem plan_sweep_spec_witness:
  "\<exists>plan. plan_sweep toy_live toy_gc = (Inr plan, toy_gc) \<and> scanned plan = 4 \<and> live_present plan = 2 \<and>
     set (loose_garbage plan) = {hash_of [4]}"
proof -
  obtain plan where plan: "plan_sweep toy_live toy_gc = (Inr plan, toy_gc)"
    using toy_plan by blast
  from plan_sweep_spec [OF this toy_gc_wf] have "scanned plan = card (loose_set toy_gc \<union> packed_set toy_gc [toy_pack_path])"
    "live_present plan = card ((loose_set toy_gc \<union> packed_set toy_gc [toy_pack_path]) \<inter> toy_live)"
    "set (loose_garbage plan) = loose_set toy_gc - toy_live"
    by (auto simp: toy_packs)
  moreover have "({hash_of [3], hash_of [4]} \<union> {hash_of [1], hash_of [2]}) \<inter> toy_live = {hash_of [1], hash_of [3 :: 8 word]}"
    by (auto simp: toy_live_def)
  ultimately show ?thesis
    using plan toy_loose_garbage by (intro exI [of _ plan]) (simp add: toy_loose_set toy_packed_set)
qed

text \<open>
  C39. One garbage file whose name is not the canonical one stops the collector. The lister takes
  any name that \<open>from_hex\<close> accepts, capital letters included, but the planner measures the file
  under the canonical name; when that does not exist, every sweep of the store fails before it
  has changed anything.
\<close>

theorem noncanonical_name_blocks_sweep:
  assumes "wf_disk s" and "packs_at s (pack_dir (self s)) = Inr ps"
    and "h \<in> loose_set s" and "h \<notin> live" and "\<not> path_exists s (loose_path (self s) h)"
  shows "\<exists>e. sweep E live options s = (Inl (Io e), s)"
proof -
  have "node_at s (objects_dir (self s)) = Some Dir"
    using assms(3) by (auto simp: loose_set_def loose_hashes_def split: if_splits)
  then have list: "list_blobs s = (Inr (loose_hashes s (objects_dir (self s))), s)"
    using assms(1) by (intro list_blobs_eq) simp_all
  have "h \<in> set (sorted_list_of_set (loose_set s - live))"
    using assms(3,4) by simp
  with assms(5) have "find (\<lambda>h. \<not> path_exists s (loose_path (self s) h)) (sorted_list_of_set (loose_set s - live)) \<noteq> None"
    by (simp only: find_None_iff) blast
  then show ?thesis
    using plan_sweep_eq [OF assms(1) list assms(2), of live]
    by (auto simp: sweep_def bindE_def split: option.splits)
qed

definition toy_capital :: world where
  "toy_capital = toy_world False
     [([''r'', ''objects'', ''0A''], Dir),
      ([''r'', ''objects'', ''0A'', drop 2 (to_hex (hash_of [10]))], File [10])]"

theorem noncanonical_name_blocks_sweep_witness:
  "\<exists>e. sweep (toy_env False) {} \<lparr>mode = Delete, rewrite_partial_packs = True\<rparr> toy_capital = (Inl (Io e), toy_capital)"
proof (rule noncanonical_name_blocks_sweep)
  note nodes = toy_capital_def toy_dirs_def node_at_def
  show "wf_disk toy_capital"
    by (simp add: wf_disk_def nodes)
  have self: "self toy_capital = toy_store False"
    by (simp add: toy_capital_def)
  show "packs_at toy_capital (pack_dir (self toy_capital)) = Inr []"
    by (simp add: packs_at_cases nodes children_def)
  have take: "take 2 (to_hex (hash_of [10])) = ''0a''"
    by code_simp
  show "\<not> path_exists toy_capital (loose_path (self toy_capital) (hash_of [10]))"
    by (simp add: path_exists_def loose_path_eq loose_at_def take nodes)
  have "named_hash (''0A'', drop 2 (to_hex (hash_of [10]))) = Some (hash_of [10])"
    by code_simp
  then show "hash_of [10] \<in> loose_set toy_capital"
    by (simp add: loose_set_def loose_hashes_def self loose_files_def bucket_files_def children_def nodes
        List.map_filter_simps)
qed simp

section \<open>A sweep that runs to its end\<close>

text \<open>A disk with consistent directories on which every pack file has a name before \<open>.pack\<close>.\<close>

definition tidy :: "world \<Rightarrow> bool" where
  "tidy s \<longleftrightarrow> wf_disk s \<and> \<not> path_exists s (pack_dir (self s) @ [''.pack''])"

lemma tidy_planned:
  assumes "tidy s" and "plan_sweep live s = (Inr plan, t)"
  obtains ps where "planned_disk s live ps plan"
  using assms plan_sweep_ok [OF assms(2)] by (auto simp: tidy_def planned_disk_def)

lemma sweep_executed:
  assumes "sweep E live options s = (Inr report, t)" and "mode options \<noteq> DryRun" and "tidy s"
  obtains plan ps where "plan_sweep live s = (Inr plan, s)" and "planned_disk s live ps plan"
    and "execute_plan E options plan s = (Inr report, t)" and "report_plan report = plan"
  using assms(1)
proof (cases rule: sweep_cases)
  case (live plan)
  obtain ps where "planned_disk s live ps plan"
    using tidy_planned [OF assms(3) live(1)] .
  with live execute_plan_done(2) that show thesis
    by (metis (no_types))
qed (use assms(2) in auto)

text \<open>
  C10. What a sweep that succeeds has done: the garbage of the loose blobs, the orphan files, and
  every pack with garbage and its index (the packs it rewrites only when rewriting is on) are no
  longer in their places, and the report counts exactly that.
\<close>

theorem sweep_removes_garbage:
  assumes "sweep E live options s = (Inr report, t)" and "mode options \<noteq> DryRun" and "tidy s"
  shows "executed report \<and> report_mode report = mode options \<and>
    (\<forall>h \<in> loose_set s - live. node_at t (loose_path (self s) h) = None) \<and>
    (\<forall>p \<in> set (orphan_files (report_plan report)). node_at t p = None) \<and>
    (\<forall>p. (\<exists>ps. packs_at s (pack_dir (self s)) = Inr ps \<and> p \<in> set ps) \<and> indexed s p \<and> \<not> pack_hashes s p \<subseteq> live \<and>
         (rewrite_partial_packs options \<or> p \<in> set (packs_to_remove (report_plan report))) \<longrightarrow>
       node_at t p = None \<and> node_at t (with_extension p ''idx'') = None) \<and>
    loose_removed report = card (loose_set s - live) \<and>
    packs_rewritten report =
      (if rewrite_partial_packs options then length (packs_to_rewrite (report_plan report)) else 0) \<and>
    packs_removed report = length (packs_to_remove (report_plan report)) + packs_rewritten report"
proof (rule sweep_executed [OF assms])
  fix plan ps
  assume pd: "planned_disk s live ps plan" and run: "execute_plan E options plan s = (Inr report, t)"
    and plan: "report_plan report = plan"
  note planned = planned_diskD(3) [OF pd, unfolded planned_def] and report = execute_plan_done [OF pd run]
  have garbage: "loose_garbage plan = sorted_list_of_set (loose_set s - live)"
    using planned by blast
  have split: "mset (packs_to_remove plan @ map rewrite_pack (packs_to_rewrite plan)) =
      mset (filter (\<lambda>p. indexed s p \<and> \<not> healthy s live p) ps)"
    using planned by blast
  have packs: "node_at t p = None \<and> node_at t (with_extension p ''idx'') = None"
    if "packs_at s (pack_dir (self s)) = Inr qs" "p \<in> set qs" "indexed s p" "\<not> pack_hashes s p \<subseteq> live"
      "rewrite_partial_packs options \<or> p \<in> set (packs_to_remove plan)" for p qs
  proof -
    have "p \<in> set ps"
      using that(1,2) planned_diskD(2) [OF pd] by simp
    with that(3,4) have "p \<in> set (packs_to_remove plan @ map rewrite_pack (packs_to_rewrite plan))"
      using mset_eq_setD [OF split] by (auto simp: healthy_def)
    with that(5) have "p \<in> set (removals options plan)"
      by (auto simp: removals_def)
    with report(1) show ?thesis
      by (auto simp: doomed_def)
  qed
  have "\<forall>h \<in> loose_set s - live. node_at t (loose_path (self s) h) = None"
    using report(1) by (simp add: doomed_def garbage)
  moreover have "\<forall>p \<in> set (orphan_files plan). node_at t p = None"
    using report(1) by (simp add: doomed_def)
  moreover have "\<forall>p. (\<exists>ps. packs_at s (pack_dir (self s)) = Inr ps \<and> p \<in> set ps) \<and> indexed s p \<and> \<not> pack_hashes s p \<subseteq> live \<and>
         (rewrite_partial_packs options \<or> p \<in> set (packs_to_remove plan)) \<longrightarrow>
       node_at t p = None \<and> node_at t (with_extension p ''idx'') = None"
    using packs by blast
  moreover note report(2-)
  ultimately show ?thesis
    unfolding plan by (intro conjI) (simp_all add: garbage removals_def)
qed

text \<open>
  On a disk without faults a sweep succeeds, dry, deleting, or moving to a trash that is ready:
  the counted copies of live blobs are good, nothing it is to remove is a directory, the replacement
  packs have free names, and the compressor does not fail.
\<close>

lemma sweep_runs:
  assumes "sound_store E live s" and "pending s = []" and "\<And>data. \<exists>c. encode_payload E data = Inr c"
    and "plan_sweep live s = (Inr plan, s)" and "fresh_replacements E s plan"
    and "\<forall>q \<in> doomed (self s) options plan. node_at s q \<noteq> Some Dir"
    and "mode options = Trash \<Longrightarrow> trash_ready s (root (self s))"
  shows "\<exists>report t. sweep E live options s = (Inr report, t)"
proof -
  have "tidy s"
    using assms(1) by (simp add: tidy_def sound_store_def)
  then obtain ps where pd: "planned_disk s live ps plan"
    using tidy_planned assms(4) by blast
  have "rewritable E s plan" if "rewrite_partial_packs options"
    using rewritable_sound [OF assms(1) pd assms(5,3,6) that] .
  with quiet_execute_plan [OF pd assms(2) _ assms(7,6)] assms(4) show ?thesis
    by (cases "mode options = DryRun") (simp_all add: sweep_def bindE_def run_atoms)
qed

lemma toy_tidy: "tidy toy_gc"
  using toy_sound by (simp add: tidy_def sound_store_def)

lemma toy_doomed:
  assumes "plan_sweep toy_live toy_gc = (Inr plan, toy_gc)"
  shows "\<forall>q \<in> doomed (self toy_gc) options plan. node_at toy_gc q \<noteq> Some Dir"
proof
  fix q
  assume "q \<in> doomed (self toy_gc) options plan"
  then have "length q = 4"
    using doomed_length [OF toy_planned [OF assms]] by simp
  moreover have "length q \<le> 3" if "node_at toy_gc q = Some Dir"
  proof -
    have "(q, Dir) \<in> set (nodes toy_gc)"
      using that unfolding node_at_def by (rule map_of_SomeD)
    then show ?thesis by (auto simp: toy_paths)
  qed
  ultimately show "node_at toy_gc q \<noteq> Some Dir"
    by fastforce
qed

lemma toy_sweep: "\<exists>report t. sweep (toy_env False) toy_live \<lparr>mode = Delete, rewrite_partial_packs = True\<rparr> toy_gc = (Inr report, t)"
proof -
  obtain plan where plan: "plan_sweep toy_live toy_gc = (Inr plan, toy_gc)"
    using toy_plan by blast
  show ?thesis
    by (rule sweep_runs [OF toy_sound _ _ plan _ toy_doomed [OF plan]]) (use toy_fresh plan in simp_all)
qed

theorem sweep_removes_garbage_witness:
  "\<exists>report t. sweep (toy_env False) toy_live \<lparr>mode = Delete, rewrite_partial_packs = True\<rparr> toy_gc = (Inr report, t) \<and>
     loose_removed report = 1 \<and> node_at t toy_pack_path = None \<and> node_at t toy_idx_path = None"
proof -
  obtain report t where run: "sweep (toy_env False) toy_live \<lparr>mode = Delete, rewrite_partial_packs = True\<rparr> toy_gc = (Inr report, t)"
    using toy_sweep by blast
  have "indexed toy_gc toy_pack_path" "\<not> pack_hashes toy_gc toy_pack_path \<subseteq> toy_live"
    by (simp_all add: indexed_def has_idx_def toy_pack_with_idx path_exists_def toy_node_at toy_idx toy_pack_hashes toy_live_def)
  with sweep_removes_garbage [OF run _ toy_tidy] run toy_packs show ?thesis
    by (auto simp: toy_loose_garbage toy_pack_with_idx)
qed

text \<open>
  C21. In trash mode nothing is lost: after a sweep that succeeds, every file it was to remove is
  out of its place and lies, byte for byte, at the same relative path under \<open>trash/\<close>.
\<close>

theorem sweep_trash_recoverable:
  assumes "codec_ok E" and "tidy s" and "mode options = Trash"
    and "\<forall>plan. plan_sweep live s = (Inr plan, s) \<longrightarrow> fresh_replacements E s plan"
    and "sweep E live options s = (Inr report, t)"
    and "q \<in> doomed (self s) options (report_plan report)" and "node_at s q = Some (File b)"
  shows "node_at t q = None \<and> node_at t (trash_path (root (self s)) q) = Some (File b) \<and>
    trash report = Some (root (self s) @ [TRASH_DIR])"
proof -
  have "mode options \<noteq> DryRun"
    using assms(3) by simp
  then obtain plan ps where "plan_sweep live s = (Inr plan, s)" and pd: "planned_disk s live ps plan"
    and run: "execute_plan E options plan s = (Inr report, t)" and plan: "report_plan report = plan"
    using sweep_executed [OF assms(5) _ assms(2)] by blast
  with assms(4) have "fresh_replacements E s plan" by blast
  from execute_plan_trashes [OF pd assms(1) this assms(3) _ assms(7) run] execute_plan_done [OF pd run] assms(3,6)
  show ?thesis by (simp add: plan)
qed

definition toy_loose_only :: world where
  "toy_loose_only = toy_world False
     [([''r'', ''objects'', ''04''], Dir), ([''r'', ''objects'', ''04'', drop 2 (to_hex (hash_of [4]))], File [4])]"

lemma toy_loose_only_facts:
  "self toy_loose_only = toy_store False" "wf_disk toy_loose_only" "tidy toy_loose_only" "pending toy_loose_only = []"
  "packs_at toy_loose_only [''r'', ''objects'', ''pack''] = Inr []" "loose_set toy_loose_only = {hash_of [4]}"
  "node_at toy_loose_only [''r'', ''objects''] = Some Dir"
  "node_at toy_loose_only (loose_at [''r''] (hash_of [4])) = Some (File [4])"
  "node_at toy_loose_only [''r''] = Some Dir" "node_at toy_loose_only [''r'', ''trash''] = None"
  "is_under [''r'', ''trash''] q \<Longrightarrow> node_at toy_loose_only q = None"
proof -
  note nodes = toy_loose_only_def toy_dirs_def node_at_def
  show self: "self toy_loose_only = toy_store False" and wf: "wf_disk toy_loose_only" "pending toy_loose_only = []"
    by (simp_all add: nodes wf_disk_def)
  then show "tidy toy_loose_only"
    by (simp add: tidy_def path_exists_def nodes)
  show "packs_at toy_loose_only [''r'', ''objects'', ''pack''] = Inr []"
    by (simp add: packs_at_cases nodes children_def)
  show "loose_set toy_loose_only = {hash_of [4]}"
    by (simp add: loose_set_def loose_hashes_def self loose_files_def bucket_files_def children_def nodes
        List.map_filter_simps toy_named)
  show "is_under [''r'', ''trash''] q \<Longrightarrow> node_at toy_loose_only q = None"
    by (auto simp: is_under_iff nodes)
qed (simp_all add: node_at_def toy_loose_only_def toy_dirs_def toy_loose_at)

lemma toy_trash_run: "\<exists>report t. sweep (toy_env False) {} \<lparr>mode = Trash, rewrite_partial_packs = True\<rparr> toy_loose_only = (Inr report, t) \<and>
    plan_sweep {} toy_loose_only = (Inr (report_plan report), toy_loose_only) \<and>
    packs_to_rewrite (report_plan report) = [] \<and> loose_garbage (report_plan report) = [hash_of [4]]"
proof -
  let ?s = toy_loose_only
  note facts = toy_loose_only_facts
  have list: "list_blobs ?s = (Inr (loose_hashes ?s (objects_dir (self ?s))), ?s)"
    by (rule list_blobs_eq) (simp_all add: facts)
  have plan: "plan_sweep {} ?s = (Inr (plan_of ?s {} [] 1), ?s)"
    using plan_sweep_eq [OF facts(2) list, of "[]" "{}"]
    by (simp add: facts path_exists_def loose_path_eq node_len_def)
  have empty: "pack_decisions ?s {} [] = \<lparr>covered = {}, to_remove = [], to_rewrite = [], remove_bytes = 0, with_garbage = 0\<rparr>"
    by (simp add: pack_decisions_def decide_packs_def facts packed_set_def healthy_hashes_def)
  have fields: "loose_garbage (plan_of ?s {} [] 1) = [hash_of [4]]" "packs_to_remove (plan_of ?s {} [] 1) = []"
    "packs_to_rewrite (plan_of ?s {} [] 1) = []" "orphan_files (plan_of ?s {} [] 1) = []"
    by (simp_all add: plan_of_def Let_def empty facts orphan_indices_def children_def)
      (simp add: toy_loose_only_def toy_dirs_def)
  obtain t where trash: "remove_or_trash Trash ([''r''] @ [TRASH_DIR]) (loose_at [''r''] (hash_of [4])) ?s = (Inr 1, t)"
  proof -
    have "trash_ready ?s [''r'']"
      unfolding trash_ready_def
    proof (intro conjI allI impI)
      fix q
      assume "is_under q [''r'']"
      then have "q \<in> {[], [''r'']}"
        by (auto simp: is_under_iff Cons_eq_append_conv)
      then show "\<not> is_file_node (node_at ?s q)"
        by (auto simp: node_at_def toy_loose_only_def toy_dirs_def is_file_node_def)
    qed (use facts in \<open>simp_all add: is_file_node_def TRASH_DIR_def\<close>)
    then have "\<exists>t. remove_or_trash Trash ([''r''] @ [TRASH_DIR]) (loose_at [''r''] (hash_of [4])) ?s = (Inr (length [4 :: 8 word]), t)"
      using quiet_trash [of ?s "[''r'']" "loose_at [''r''] (hash_of [4])" "[4]"] facts under_objects [of "[''r'']"]
      by (auto simp: store_file_def)
    with that show thesis by auto
  qed
  obtain u where inv: "invalidate_pack_cache t = (Inr (), u)"
    using invalidate_ok by blast
  obtain plan where plan_eq: "plan = plan_of ?s {} [] 1" by simp
  note f = fields [folded plan_eq]
  have "\<exists>report. execute_plan (toy_env False) \<lparr>mode = Trash, rewrite_partial_packs = True\<rparr> plan ?s = (Inr report, u) \<and>
      report_plan report = plan"
    using trash inv
    by (simp add: execute_plan_def bind_pure Let_def bindE_def run_atoms rewrite_phase_def loose_phase_def orphan_phase_def
        pack_phase_def removals_def f facts loose_path_eq)
  with plan [folded plan_eq] f show ?thesis
    by (auto simp: sweep_def bindE_def)
qed

theorem sweep_trash_recoverable_witness:
  "\<exists>report t. sweep (toy_env False) {} \<lparr>mode = Trash, rewrite_partial_packs = True\<rparr> toy_loose_only = (Inr report, t) \<and>
     node_at t (''r'' # ''trash'' # tl (loose_at [''r''] (hash_of [4]))) = Some (File [4])"
proof -
  obtain report t where run: "sweep (toy_env False) {} \<lparr>mode = Trash, rewrite_partial_packs = True\<rparr> toy_loose_only = (Inr report, t)"
    and plan: "plan_sweep {} toy_loose_only = (Inr (report_plan report), toy_loose_only)"
    and fields: "packs_to_rewrite (report_plan report) = []" "loose_garbage (report_plan report) = [hash_of [4]]"
    using toy_trash_run by blast
  have fresh: "\<forall>plan. plan_sweep {} toy_loose_only = (Inr plan, toy_loose_only) \<longrightarrow>
      fresh_replacements (toy_env False) toy_loose_only plan"
    using plan fields by (auto simp: fresh_replacements_def)
  have "loose_at [''r''] (hash_of [4]) \<in> doomed (self toy_loose_only) \<lparr>mode = Trash, rewrite_partial_packs = True\<rparr> (report_plan report)"
    by (simp add: doomed_def fields loose_path_eq toy_loose_only_facts)
  from sweep_trash_recoverable [OF toy_codec toy_loose_only_facts(3) _ fresh run this toy_loose_only_facts(8)] run
  show ?thesis
    by (auto simp: trash_path_def toy_loose_only_facts TRASH_DIR_def drop_Suc)
qed

section \<open>A replacement that is taken for an orphan\<close>

text \<open>No pack without garbage has an object that a rewrite keeps.\<close>

lemma kept_in_dirty_packs:
  assumes "plan_sweep live s = (Inr plan, t)" and "wf_disk s" and "packs_at s (pack_dir (self s)) = Inr ps"
    and rw: "rw \<in> set (packs_to_rewrite plan)" and h: "h \<in> set (keep rw)"
    and p: "p \<in> set ps" "indexed s p" "h \<in> pack_hashes s p"
  shows "\<not> pack_hashes s p \<subseteq> live"
proof (rule plan_sweep_run [OF assms(1,2)])
  fix qs
  assume qs: "packs_at s (pack_dir (self s)) = Inr qs"
    and plan: "plan = plan_of s live qs (\<Sum>h \<leftarrow> sorted_list_of_set (loose_set s - live). node_len s (loose_path (self s) h))"
  have "rw \<in> set (to_rewrite (pack_decisions s live qs))"
    using rw by (simp add: plan plan_of_def Let_def)
  then have "set (keep rw) \<inter> packed_set s (filter (healthy s live) qs) = {}"
    using pack_decisions_decided [of s qs live] unfolding decided_def by blast
  with h p qs assms(3) show ?thesis
    by (auto simp: packed_set_def healthy_def)
qed

text \<open>
  C36. How a live blob is lost. The name of a replacement pack is determined by its objects. When
  a torn earlier run has left a file with that name and no index, the planner takes it for an
  orphan; the sweep writes the replacement over it, deletes it as an orphan, and then removes
  the old pack: for each object the rewrite was to keep, no pack that had it is left, and the
  sweep reports success.
\<close>

theorem orphan_replacement_lost:
  assumes "sweep E live options s = (Inr report, t)" and "mode options \<noteq> DryRun" and "tidy s"
    and "rewrite_partial_packs options" and "rw \<in> set (packs_to_rewrite (report_plan report))"
    and "replacement E s rw = Inr objects" and "new_pack_paths E (pack_dir (self s)) objects = [new, idx]"
    and "new \<in> set (orphan_files (report_plan report))"
    and "h \<in> set (keep rw)" and "packs_at s (pack_dir (self s)) = Inr ps"
  shows "h \<in> live \<and> h \<notin> loose_set s \<and> node_at t new = None \<and>
    (\<forall>p \<in> set ps. indexed s p \<and> h \<in> pack_hashes s p \<longrightarrow> node_at t p = None)"
proof (rule sweep_executed [OF assms(1-3)])
  fix plan qs
  assume run: "plan_sweep live s = (Inr plan, s)" and pd: "planned_disk s live qs plan"
    and exec: "execute_plan E options plan s = (Inr report, t)" and plan: "report_plan report = plan"
  have qs: "qs = ps"
    using planned_diskD(2) [OF pd] assms(10) by simp
  note gone = execute_plan_done(1) [OF pd exec]
  have "node_at t new = None"
    using gone assms(8) by (auto simp: doomed_def plan)
  moreover have "set (keep rw) \<subseteq> pack_hashes s (rewrite_pack rw) \<inter> live - loose_set s"
    using planned_diskD(3) [OF pd] assms(5) by (auto simp: planned_def plan)
  moreover have "node_at t p = None" if p: "p \<in> set ps" "indexed s p" "h \<in> pack_hashes s p" for p
  proof -
    have "\<not> pack_hashes s p \<subseteq> live"
      using kept_in_dirty_packs [OF run planned_diskD(1) [OF pd] assms(10) _ assms(9) p] assms(5) plan by simp
    moreover have "set (packs_to_remove plan @ map rewrite_pack (packs_to_rewrite plan)) =
        set (filter (\<lambda>p. indexed s p \<and> \<not> healthy s live p) qs)"
      using planned_diskD(3) [OF pd] unfolding planned_def by (intro mset_eq_setD) (elim conjE)
    ultimately have "p \<in> set (removals options plan)"
      using p assms(4) by (simp add: removals_def healthy_def qs)
    with gone show ?thesis
      by (auto simp: doomed_def)
  qed
  ultimately show ?thesis
    using assms(9) by blast
qed

text \<open>The disk of the garbage collector's example, with a torn replacement of its pack.\<close>

definition toy_name :: string where
  "toy_name = pack_name (toy_env False) (serialize_index [\<lparr>entry_hash = hash_of [1], entry_offset = 12\<rparr>])"

definition toy_new :: path where
  "toy_new = [''r'', ''objects'', ''pack'', toy_name @ ''.pack'']"

definition toy_orphan :: world where
  "toy_orphan = toy_gc\<lparr>nodes := nodes toy_gc @ [(toy_new, File [])]\<rparr>"

lemma toy_new_facts:
  "is_pack_path [''r'', ''objects'', ''pack''] toy_new" "node_at toy_gc toy_new = None"
  "with_extension toy_new ''idx'' = [''r'', ''objects'', ''pack'', toy_name @ ''.idx'']"
  "node_at toy_gc [''r'', ''objects'', ''pack'', toy_name @ ''.idx''] = None" "toy_new \<noteq> toy_pack_path"
proof -
  have pair: "pair_paths (toy_env False) [''r'', ''objects'', ''pack''] [\<lparr>entry_hash = hash_of [1], entry_offset = 12\<rparr>] =
      [toy_new, [''r'', ''objects'', ''pack'', toy_name @ ''.idx'']]"
    by (simp add: pair_paths_def toy_new_def toy_name_def)
  show absent: "node_at toy_gc toy_new = None" "node_at toy_gc [''r'', ''objects'', ''pack'', toy_name @ ''.idx''] = None"
    using toy_new_absent [of _ "[\<lparr>entry_hash = hash_of [1], entry_offset = 12\<rparr>]", unfolded pair] by (simp_all add: path_exists_def)
  have "is_pack_name (toy_name @ ''.pack'')"
    by (simp add: is_pack_name_def toy_name_def utf8_valid_pack_name)
  then show "is_pack_path [''r'', ''objects'', ''pack''] toy_new"
    unfolding is_pack_path_def by (intro exI [of _ toy_name]) (simp add: toy_new_def toy_name_def pack_name_def)
  show "with_extension toy_new ''idx'' = [''r'', ''objects'', ''pack'', toy_name @ ''.idx'']"
    using pack_to_idx [of toy_name "[''r'', ''objects'', ''pack'']"] by (simp add: toy_new_def toy_name_def pack_name_def)
  show "toy_new \<noteq> toy_pack_path"
    using absent(1) toy_node_at(1) by auto
qed

lemma toy_orphan_at: "node_at toy_orphan q = (if q = toy_new then Some (File []) else node_at toy_gc q)"
proof -
  have "map_of (xs @ [(p, n)]) q = (if q = p then (case map_of xs p of None \<Rightarrow> Some n | Some m \<Rightarrow> Some m) else map_of xs q)"
    for xs :: "(path \<times> node) list" and p n q
    by (induction xs) auto
  then show ?thesis
    using toy_new_facts(2) by (simp add: toy_orphan_def node_at_def)
qed

lemma toy_orphan_same:
  "q \<noteq> toy_new \<Longrightarrow> node_at toy_orphan q = node_at toy_gc q" "self toy_orphan = toy_store False" "pending toy_orphan = []"
  by (simp_all add: toy_orphan_at) (simp_all add: toy_orphan_def)

lemma toy_orphan_wf: "wf_disk toy_orphan"
proof -
  have "toy_new \<notin> set (map fst (nodes toy_gc))"
    using toy_new_facts(2) by (simp add: node_at_def map_of_eq_None_iff)
  then show ?thesis
    using toy_gc_wf by (simp add: wf_disk_def toy_orphan_def)
qed

definition toy_two :: "path list" where
  "toy_two = sort [toy_pack_path, toy_new]"

lemma set_toy_two [simp]: "set toy_two = {toy_pack_path, toy_new}"
  unfolding toy_two_def by (simp only: set_sort) simp

lemma toy_orphan_packs:
  "packs_at toy_orphan [''r'', ''objects'', ''pack''] = Inr toy_two"
proof -
  have "utf8_valid ''p.pack''" "ends_with ''p.pack'' ''.pack''" "\<not> ends_with ''p.idx'' ''.pack''"
    by code_simp+
  moreover have "utf8_valid (toy_name @ ''.pack'')" "ends_with (toy_name @ ''.pack'') ''.pack''"
    by (simp_all add: toy_name_def utf8_valid_pack_name)
  moreover have "children toy_orphan [''r'', ''objects'', ''pack''] =
      [(''p.pack'', File toy_pd), (''p.idx'', File (serialize_index toy_ies)), (toy_name @ ''.pack'', File [])]"
    by (simp add: children_def toy_paths toy_orphan_def toy_new_def)
  moreover have "node_at toy_orphan [''r'', ''objects'', ''pack''] = Some Dir"
    by (simp add: toy_orphan_at toy_new_def toy_node_at)
  ultimately show ?thesis
    by (simp add: packs_at_cases toy_new_def toy_pack_path_def toy_two_def)
qed

lemma toy_orphan_loose: "loose_set toy_orphan = {hash_of [3], hash_of [4]}"
proof -
  have "node_at toy_orphan [''r'', ''objects''] = Some Dir"
    by (simp add: toy_orphan_at toy_new_def toy_node_at)
  moreover have "loose_files toy_orphan [''r'', ''objects''] = loose_files toy_gc [''r'', ''objects'']"
    unfolding toy_loose_files
    by (simp add: loose_files_def bucket_files_def children_def toy_paths toy_orphan_def toy_new_def)
  ultimately show ?thesis
    by (auto simp: loose_set_def loose_hashes_def toy_orphan_same toy_loose_files List.map_filter_simps toy_named)
qed

lemma toy_orphan_idx:
  "idx_of toy_orphan toy_pack_path = Inr \<lparr>entries = toy_ies\<rparr>" "indexed toy_orphan toy_pack_path"
  "pack_hashes toy_orphan toy_pack_path = {hash_of [1], hash_of [2]}" "\<not> has_idx toy_orphan toy_new"
proof -
  have "toy_idx_path \<noteq> toy_new"
    using toy_new_facts(2) toy_node_at(2) by auto
  then have same: "node_at toy_orphan toy_idx_path = node_at toy_gc toy_idx_path"
    by (rule toy_orphan_same(1))
  then show idx: "idx_of toy_orphan toy_pack_path = Inr \<lparr>entries = toy_ies\<rparr>"
    using toy_idx by (simp add: idx_of_def index_at_ok toy_pack_with_idx)
  then show "indexed toy_orphan toy_pack_path"
    by (simp add: indexed_def has_idx_def toy_pack_with_idx path_exists_def same toy_node_at)
  show "pack_hashes toy_orphan toy_pack_path = {hash_of [1], hash_of [2]}"
    by (simp add: pack_hashes_def idx PackIndex_hashes_def toy_ies_def)
  have "[''r'', ''objects'', ''pack'', toy_name @ ''.idx''] \<noteq> toy_new"
    using pack_not_idx [of toy_name toy_name] by (auto simp: toy_new_def)
  then show "\<not> has_idx toy_orphan toy_new"
    by (simp add: has_idx_def path_exists_def toy_new_facts toy_orphan_same(1))
qed

lemma toy_orphan_tidy: "tidy toy_orphan"
proof -
  have "[''r'', ''objects'', ''pack'', ''.pack''] \<noteq> toy_new"
    by (simp add: toy_new_def toy_name_def)
  moreover have "node_at toy_gc [''r'', ''objects'', ''pack'', ''.pack''] = None"
    by (simp add: node_at_def toy_paths)
  ultimately show ?thesis
    using toy_orphan_wf by (simp add: tidy_def toy_orphan_same path_exists_def)
qed

lemma toy_orphan_plan:
  obtains plan where "plan_sweep toy_live toy_orphan = (Inr plan, toy_orphan)"
    and "planned_disk toy_orphan toy_live toy_two plan"
proof -
  have "list_blobs toy_orphan = (Inr (loose_hashes toy_orphan (objects_dir (self toy_orphan))), toy_orphan)"
    by (rule list_blobs_eq [OF toy_orphan_wf]) (simp add: toy_orphan_at toy_new_def toy_node_at toy_orphan_same(2))
  moreover have "path_exists toy_orphan (loose_path (self toy_orphan) (hash_of [4]))"
    by (simp add: toy_orphan_same(2) loose_path_eq toy_loose_at path_exists_def toy_orphan_at)
      (simp add: node_at_def toy_paths)
  moreover have "loose_set toy_orphan - toy_live = {hash_of [4]}"
    using toy_loose_garbage by (simp add: toy_orphan_loose toy_loose_set)
  moreover note toy_orphan_packs
  ultimately obtain plan where plan: "plan_sweep toy_live toy_orphan = (Inr plan, toy_orphan)"
    using plan_sweep_eq [OF toy_orphan_wf, of _ toy_live] by (fastforce simp: toy_orphan_same(2))
  obtain ps where "planned_disk toy_orphan toy_live ps plan"
    using tidy_planned [OF toy_orphan_tidy plan] .
  moreover from planned_diskD(2) [OF this] have "ps = toy_two"
    using toy_orphan_packs by (simp add: toy_orphan_same(2))
  ultimately show thesis
    using that plan by blast
qed

lemma toy_orphan_rewrite:
  assumes pd: "planned_disk toy_orphan toy_live toy_two plan" and rw: "rw \<in> set (packs_to_rewrite plan)"
  shows "rewrite_pack rw = toy_pack_path" "keep rw = [hash_of [1]]"
    "replacement (toy_env False) toy_orphan rw = Inr [(hash_of [1], [1])]"
    "replacement_paths (toy_env False) toy_orphan (pack_dir (self toy_orphan)) rw =
       [toy_new, [''r'', ''objects'', ''pack'', toy_name @ ''.idx'']]"
proof -
  have "rewrite_pack rw \<in> set (removals \<lparr>mode = Delete, rewrite_partial_packs = True\<rparr> plan)"
    using rw by (simp add: removals_def)
  from removals_dirty [OF pd this] show pack: "rewrite_pack rw = toy_pack_path"
    using toy_orphan_idx(4) by (auto simp: indexed_def)
  have "set (keep rw) \<subseteq> {hash_of [1]}" and "keep rw \<noteq> []" and "distinct (concat (map keep (packs_to_rewrite plan)))"
    using planned_diskD(3) [OF pd] rw pack by (auto simp: planned_def toy_orphan_idx toy_live_def toy_orphan_loose)
  moreover from this rw have "distinct (keep rw)"
    by (auto simp: distinct_concat_iff)
  ultimately show keep: "keep rw = [hash_of [1]]"
    by (cases "keep rw"; cases "tl (keep rw)") auto
  have "toy_idx_path \<noteq> toy_new"
    using toy_new_facts(2) toy_node_at(2) by auto
  then have "replacement (toy_env False) toy_orphan rw = replacement (toy_env False) toy_gc rw"
    using toy_new_facts(5)
    by (intro replacement_cong [of _ toy_pack_path])
      (simp_all add: toy_orphan_same(1) toy_pack_with_idx toy_node_at pack has_idx_def path_exists_def)
  moreover have "replacement (toy_env False) toy_gc rw = Inr [(hash_of [1], [1])]"
  proof -
    have "rw = \<lparr>rewrite_pack = toy_pack_path, keep = [hash_of [1]]\<rparr>"
      using pack keep by (auto intro: pack_rewrite.equality)
    then show ?thesis by (simp only: toy_replacement)
  qed
  ultimately show repl: "replacement (toy_env False) toy_orphan rw = Inr [(hash_of [1], [1])]"
    by simp
  show "replacement_paths (toy_env False) toy_orphan (pack_dir (self toy_orphan)) rw =
       [toy_new, [''r'', ''objects'', ''pack'', toy_name @ ''.idx'']]"
    by (simp add: replacement_paths_def repl toy_orphan_same(2) toy_single pair_paths_def toy_new_def toy_name_def)
qed

lemma toy_orphan_rewritable:
  assumes pd: "planned_disk toy_orphan toy_live toy_two plan"
  shows "rewritable (toy_env False) toy_orphan plan"
proof -
  let ?idx = "[''r'', ''objects'', ''pack'', toy_name @ ''.idx'']"
  note rws = toy_orphan_rewrite [OF pd]
  have all: "all_replacements (toy_env False) toy_orphan plan \<subseteq> {toy_new, ?idx}"
    using rws(4) by (auto simp: all_replacements_def)
  have apart: "toy_pack_path \<notin> {toy_new, ?idx}" "toy_idx_path \<notin> {toy_new, ?idx}"
    using toy_new_facts(2,4) toy_node_at by auto
  then have nodes: "node_at toy_orphan toy_pack_path = Some (File toy_pd)"
    "node_at toy_orphan toy_idx_path = Some (File (serialize_index toy_ies))"
    by (simp_all add: toy_orphan_at toy_node_at)
  have "?idx \<noteq> toy_new"
    using pack_not_idx [of toy_name toy_name] by (auto simp: toy_new_def)
  then have free: "node_at toy_orphan p \<noteq> Some Dir" if "p \<in> {toy_new, ?idx}" for p
    using that toy_new_facts(4) by (auto simp: toy_orphan_at)
  show ?thesis
    unfolding rewritable_def
  proof (intro ballI conjI)
    fix rw
    assume rw: "rw \<in> set (packs_to_rewrite plan)"
    note one = rws [OF rw]
    have "\<exists>img. pack_objects (toy_env False) [(hash_of [1], [1])] (pack_header [(hash_of [1], [1])]) [] = Inr img"
      by (rule pack_objects_total) simp
    then show "\<exists>objects img. replacement (toy_env False) toy_orphan rw = Inr objects \<and>
        pack_objects (toy_env False) objects (pack_header objects) [] = Inr img"
      using one(3) by blast
    show "node_at toy_orphan p \<noteq> Some Dir"
      if "p \<in> set (replacement_paths (toy_env False) toy_orphan (pack_dir (self toy_orphan)) rw)" for p
      using that one(4) free by simp
  qed (use rws all apart nodes toy_pack_with_idx in auto)
qed

lemma toy_orphan_sweep:
  assumes plan: "plan_sweep toy_live toy_orphan = (Inr plan, toy_orphan)"
    and pd: "planned_disk toy_orphan toy_live toy_two plan"
  obtains report t where
    "sweep (toy_env False) toy_live \<lparr>mode = Delete, rewrite_partial_packs = True\<rparr> toy_orphan = (Inr report, t)"
    and "report_plan report = plan"
proof -
  let ?options = "\<lparr>mode = Delete, rewrite_partial_packs = True\<rparr>"
  have "node_at toy_orphan q \<noteq> Some Dir" if "q \<in> doomed (self toy_orphan) ?options plan" for q
  proof -
    have "length q = 4"
      using doomed_length [OF pd that] by (simp add: toy_orphan_same(2))
    moreover have "length q \<le> 3" if "node_at toy_orphan q = Some Dir"
    proof -
      have "(q, Dir) \<in> set (nodes toy_orphan)"
        using that unfolding node_at_def by (rule map_of_SomeD)
      then show ?thesis by (auto simp: toy_paths toy_orphan_def)
    qed
    ultimately show ?thesis by fastforce
  qed
  then obtain report t where run: "execute_plan (toy_env False) ?options plan toy_orphan = (Inr report, t)"
    using quiet_execute_plan [where options = ?options, OF pd toy_orphan_same(3) _ _ _ toy_orphan_rewritable [OF pd]] by auto
  with plan execute_plan_done(2) [OF pd run] that show thesis
    by (simp add: sweep_def bindE_def)
qed

theorem orphan_replacement_lost_witness:
  "(\<exists>data. held (toy_env False) toy_orphan [''r''] (hash_of [1]) data) \<and> hash_of [1] \<in> toy_live \<and>
   (\<exists>report t. sweep (toy_env False) toy_live \<lparr>mode = Delete, rewrite_partial_packs = True\<rparr> toy_orphan = (Inr report, t) \<and>
      node_at t toy_pack_path = None \<and> node_at t toy_new = None)"
proof -
  obtain plan where plan: "plan_sweep toy_live toy_orphan = (Inr plan, toy_orphan)"
    and pd: "planned_disk toy_orphan toy_live toy_two plan"
    by (rule toy_orphan_plan)
  obtain report t where run: "sweep (toy_env False) toy_live \<lparr>mode = Delete, rewrite_partial_packs = True\<rparr> toy_orphan = (Inr report, t)"
    and same: "report_plan report = plan"
    by (rule toy_orphan_sweep [OF plan pd])
  have "hash_of [1] \<in> toy_live \<inter> (loose_set toy_orphan \<union> packed_set toy_orphan toy_two)"
    using toy_orphan_idx by (auto simp: toy_live_def packed_set_def)
  moreover have "hash_of [1] \<notin> loose_set toy_orphan"
    "hash_of [1] \<notin> packed_set toy_orphan (filter (healthy toy_orphan toy_live) toy_two)"
    using toy_orphan_idx by (auto simp: toy_orphan_loose packed_set_def healthy_def toy_live_def indexed_def)
  ultimately obtain rw where rw: "rw \<in> set (packs_to_rewrite plan)" "hash_of [1] \<in> set (keep rw)"
    using planned_diskD(3) [OF pd] unfolding planned_def by blast
  note one = toy_orphan_rewrite [OF pd rw(1)]
  have paths: "new_pack_paths (toy_env False) (pack_dir (self toy_orphan)) [(hash_of [1], [1])] =
      [toy_new, [''r'', ''objects'', ''pack'', toy_name @ ''.idx'']]"
    using one(3,4) by (simp add: replacement_paths_def)
  have orphan: "toy_new \<in> set (orphan_files (report_plan report))"
    using planned_diskD(3) [OF pd] toy_orphan_idx(4) by (simp add: planned_def same)
  have dir: "packs_at toy_orphan (pack_dir (self toy_orphan)) = Inr toy_two"
    using toy_orphan_packs by (simp add: toy_orphan_same(2))
  have lost: "node_at t toy_new = None \<and> (\<forall>p \<in> set toy_two.
      indexed toy_orphan p \<and> hash_of [1] \<in> pack_hashes toy_orphan p \<longrightarrow> node_at t p = None)"
    using orphan_replacement_lost [OF run _ toy_orphan_tidy _ _ one(3) paths orphan rw(2) dir] rw(1) same by simp
  have "is_pack_name (''p'' @ ''.pack'')"
    by code_simp
  then have "is_pack_path (pack_dir (self toy_orphan)) toy_pack_path"
    unfolding is_pack_path_def by (intro exI [of _ "''p''"]) (simp add: toy_pack_path_def toy_orphan_same(2))
  moreover have "pack_serves (toy_env False) toy_orphan toy_pack_path (hash_of [1]) [1]"
    using replacement_serves(2) [OF one(3)] one(1) by simp
  ultimately have "held (toy_env False) toy_orphan (root (self toy_orphan)) (hash_of [1]) [1]"
    by (rule held_pack)
  then have "held (toy_env False) toy_orphan [''r''] (hash_of [1]) [1]"
    by (simp add: toy_orphan_same(2))
  with run lost toy_orphan_idx(2,3) show ?thesis
    by (auto simp: toy_live_def)
qed

end
