(* ===== verification/Cli.thy ===== *)
theory Cli
  imports Gc
begin

text \<open>
  The command line of \<open>src/bin/cas-gc.rs\<close>: reading the roots file, running mark and sweep, and
  the two reports. The arguments as \<open>clap\<close> (a third-party crate) has parsed them are the record
  \<open>cli\<close>; what the operating system supplies besides the disk is the record \<open>host\<close>. What is
  printed on success is the result of \<open>run_gc\<close>. A \<open>str\<close> is its UTF-8 bytes, and Unicode white
  space is the list of its encodings.
\<close>

section \<open>Arguments\<close>

text \<open>\<open>mark ROOTS\<close> and \<open>sweep ROOTS --dry-run|--apply [--delete]\<close>.\<close>

record mode_args =
  dry_run :: bool
  apply_sweep :: bool

datatype command =
    MarkCmd string
  | SweepCmd string mode_args bool

record cli =
  cli_root :: string
  cli_json :: bool
  cli_command :: command

text \<open>
  \<open>resolve\<close>: the place on the disk that a path as typed names (from the working directory);
  \<open>stdin\<close>: the bytes of standard input.
\<close>

record host =
  resolve :: "string \<Rightarrow> path"
  stdin :: bytes

section \<open>The roots file\<close>

text \<open>\<open>BufRead::lines\<close> without the UTF-8 check: a line ends with LF or CR LF, the last one may not.\<close>

definition LF :: char where
  "LF = CHR 0x0A"

definition CR :: char where
  "CR = CHR 0x0D"

definition strip_cr :: "string \<Rightarrow> string" where
  "strip_cr l = (if l \<noteq> [] \<and> last l = CR then butlast l else l)"

function lines_of :: "string \<Rightarrow> string list" where
  "lines_of s =
     (if s = [] then []
      else
        let l = takeWhile (\<lambda>c. c \<noteq> LF) s; r = dropWhile (\<lambda>c. c \<noteq> LF) s
        in if r = [] then [l] else strip_cr l # lines_of (tl r))"
  by pat_completeness auto
termination
proof (relation "measure length", goal_cases)
  case (2 s l r)
  then have "length r \<le> length s"
    by (simp add: length_dropWhile_le)
  with 2 show ?case
    by (auto intro: less_le_trans [of _ "length (dropWhile (\<lambda>c. c \<noteq> LF) s)"] simp: length_greater_0_conv
        simp del: dropWhile_eq_Nil_conv)
qed simp

declare lines_of.simps [simp del]

text \<open>\<open>char::is_whitespace\<close>: the encodings of the characters with the property White_Space.\<close>

definition WHITE_SPACE :: "nat list list" where
  "WHITE_SPACE =
     map (\<lambda>b. [b]) [9, 10, 11, 12, 13, 32] @
     [[194, 133], [194, 160], [225, 154, 128]] @
     map (\<lambda>b. [226, 128, b]) ([128 ..< 139] @ [168, 169, 175]) @
     [[226, 129, 159], [227, 128, 128]]"

text \<open>Dropping the white space at the front, for encodings read forwards or backwards.\<close>

function drop_space :: "string list \<Rightarrow> string \<Rightarrow> string" where
  "drop_space ws s =
     (case find (\<lambda>w. w \<noteq> [] \<and> take (length w) s = w) ws of
        None \<Rightarrow> s
      | Some w \<Rightarrow> drop_space ws (drop (length w) s))"
  by pat_completeness auto
termination
proof (relation "measure (\<lambda>(ws, s). length s)", goal_cases)
  case (2 ws s w)
  then have w: "w \<noteq> []" "take (length w) s = w"
    by (auto simp: find_Some_iff)
  then have "s \<noteq> []" by auto
  with w(1) show ?case by simp
qed simp

declare drop_space.simps [simp del]

definition trim :: "string \<Rightarrow> string" where
  "trim s =
     (let ws = map (map char_of) WHITE_SPACE
      in rev (drop_space (map rev ws) (rev (drop_space ws s))))"

text \<open>The text of a line before a comment.\<close>

definition root_text :: "string \<Rightarrow> string" where
  "root_text line = trim (takeWhile (\<lambda>c. c \<noteq> CHR ''#'') line)"

text \<open>The loop of \<open>parse_roots\<close>; \<open>n\<close> is \<open>index\<close>.\<close>

fun parse_lines :: "string \<Rightarrow> nat \<Rightarrow> string list \<Rightarrow> hash set \<Rightarrow> string + hash set" where
  "parse_lines shown n [] roots = Inr roots"
| "parse_lines shown n (line # rest) roots =
     (if \<not> utf8_valid line
      then Inl ''cannot read roots file: stream did not contain valid UTF-8''
      else
        let t = root_text line
        in if t = [] then parse_lines shown (n + 1) rest roots
        else case from_hex t of
            Inl e \<Rightarrow> Inl (shown @ '':'' @ decimal (n + 1) @ '':'' @ '' '' @ hash_error_display e)
          | Inr h \<Rightarrow> parse_lines shown (n + 1) rest (insert h roots))"

text \<open>Comparing the argument with \<open>Path::new("-")\<close> ignores slashes and dots at the end.\<close>

fun split_slash :: "string \<Rightarrow> string list" where
  "split_slash [] = [[]]"
| "split_slash (c # cs) =
     (if c = CHR ''/'' then [] # split_slash cs
      else case split_slash cs of [] \<Rightarrow> [[c]] | x # xs \<Rightarrow> (c # x) # xs)"

definition names_stdin :: "string \<Rightarrow> bool" where
  "names_stdin s \<longleftrightarrow>
     (case split_slash s of
        [] \<Rightarrow> False
      | x # xs \<Rightarrow> x = ''-'' \<and> list_all (\<lambda>y. y = [] \<or> y = ''.'') xs)"

definition text_of :: "bytes \<Rightarrow> string" where
  "text_of bs = map (\<lambda>b. char_of (unat b)) bs"

text \<open>A directory can be opened, but not read.\<close>

definition parse_roots :: "env \<Rightarrow> host \<Rightarrow> string \<Rightarrow> (disk, string, hash set) prog" where
  "parse_roots E hst arg =
     (let shown = to_string_lossy arg in
      bindE
        (if names_stdin arg then returnE (stdin hst)
         else map_err (\<lambda>e.
             if e = IsADirectory then ''cannot read roots file: '' @ io_text E e
             else ''cannot open roots file '' @ shown @ '': '' @ io_text E e)
           (fs_read (resolve hst arg)))
        (\<lambda>content. liftE (parse_lines shown 0 (lines_of (text_of content)) {})))"

section \<open>Reports\<close>

definition println :: "string \<Rightarrow> string" where
  "println s = s @ [LF]"

text \<open>\<open>{:>9}\<close>.\<close>

definition pad9 :: "nat \<Rightarrow> string" where
  "pad9 n = (let d = decimal n in replicate (9 - length d) (CHR '' '') @ d)"

definition plural :: "nat \<Rightarrow> string" where
  "plural n = (if n = 1 then [] else ''s'')"

definition EM_DASH :: string where
  "EM_DASH = map char_of [226 :: nat, 128, 148]"

text \<open>
  \<open>human_bytes\<close>. A u64 as an f64 is rounded to 53 bits, ties to even; dividing by 1024 is exact,
  so the value after \<open>unit\<close> divisions is the fraction \<open>m / 1024 ^ unit\<close>; \<open>{:.1}\<close> rounds the
  exact value to tenths, ties to even.
\<close>

definition round_div :: "nat \<Rightarrow> nat \<Rightarrow> nat" where
  "round_div n d =
     (let q = n div d; r = n mod d
      in if d < 2 * r \<or> (2 * r = d \<and> odd q) then q + 1 else q)"

fun bit_count :: "nat \<Rightarrow> nat" where
  "bit_count n = (if n = 0 then 0 else Suc (bit_count (n div 2)))"

declare bit_count.simps [simp del]

definition f64_of_u64 :: "nat \<Rightarrow> nat" where
  "f64_of_u64 n = (let e = bit_count n - 53 in round_div n (2 ^ e) * 2 ^ e)"

definition UNITS :: "string list" where
  "UNITS = [''B'', ''KiB'', ''MiB'', ''GiB'', ''TiB'', ''PiB'']"

function unit_loop :: "nat \<Rightarrow> nat \<Rightarrow> nat" where
  "unit_loop m unit =
     (if 1024 * 1024 ^ unit \<le> m \<and> unit + 1 < length UNITS then unit_loop m (unit + 1) else unit)"
  by pat_completeness auto
termination
  by (relation "measure (\<lambda>(m, unit). length UNITS - unit)") auto

declare unit_loop.simps [simp del]

definition human_bytes :: "nat \<Rightarrow> string" where
  "human_bytes n =
     (let m = f64_of_u64 n; unit = unit_loop m 0 in
      if unit = 0 then decimal n @ '' B''
      else
        let tenths = round_div (10 * m) (1024 ^ unit)
        in decimal (tenths div 10) @ ''.'' @ decimal (tenths mod 10) @ '' '' @ UNITS ! unit)"

fun json_escape :: "string \<Rightarrow> string" where
  "json_escape [] = []"
| "json_escape (c # cs) =
     (if c = CHR 0x22 then [CHR 0x5C, CHR 0x22]
      else if c = CHR 0x5C then [CHR 0x5C, CHR 0x5C]
      else if c = LF then [CHR 0x5C, CHR ''n'']
      else if c = CR then [CHR 0x5C, CHR ''r'']
      else if c = CHR 0x09 then [CHR 0x5C, CHR ''t'']
      else if of_char c < (32 :: nat) then
        [CHR 0x5C, CHR ''u'', CHR ''0'', CHR ''0''] @ hex_of_byte (of_char c)
      else [c]) @ json_escape cs"

text \<open>\<open>Path::join\<close> and \<open>Path::display\<close> for a path under the root, which is shown as it was typed.\<close>

fun joined :: "string \<Rightarrow> path \<Rightarrow> string" where
  "joined base [] = base"
| "joined base (c # cs) =
     joined (if base = [] \<or> last base = CHR ''/'' then base @ c else base @ ''/'' @ c) cs"

definition shown_path :: "host \<Rightarrow> cli \<Rightarrow> path \<Rightarrow> string" where
  "shown_path hst args p =
     to_string_lossy (joined (cli_root args) (drop (length (resolve hst (cli_root args))) p))"

definition print_human :: "host \<Rightarrow> cli \<Rightarrow> string \<Rightarrow> sweep_report \<Rightarrow> live_set \<Rightarrow> string" where
  "print_human hst args cmd report ls =
     (let plan = report_plan report in
      println (''cas-gc '' @ cmd @ '' '' @ EM_DASH @ '' root: '' @ to_string_lossy (cli_root args)) @
      println (''scanned:  '' @ pad9 (scanned plan) @ '' objects (loose '' @ decimal (loose_present plan) @
        '', packed '' @ decimal (packed_present plan) @ '')'') @
      println (''live:     '' @ pad9 (live_present plan) @ '' (roots '' @ decimal (root_count ls) @
        '', missing '' @ decimal (length (missing ls)) @ '')'') @
      println (''garbage:  '' @ pad9 (garbage_count plan) @ '' (loose '' @ decimal (length (loose_garbage plan)) @
        '', packed in '' @ decimal (packs_with_garbage plan) @ '' pack'' @ plural (packs_with_garbage plan) @ '')'') @
      println (''reclaimable: '' @ human_bytes (bytes_reclaimable plan) @ '' (estimate; pack rewrites excluded)'') @
      (if unreadable_packs plan = [] then println ''unreadable packs: 0''
       else
         println (''unreadable packs: '' @ decimal (length (unreadable_packs plan)) @ '' '' @ EM_DASH @
           '' left untouched:'') @
         concat (map (\<lambda>p. println (''  '' @ shown_path hst args p)) (unreadable_packs plan))) @
      (if cmd = ''mark'' \<or> \<not> executed report then println ''mode:     dry run (nothing changed)''
       else
         println (''removed:  '' @ decimal (loose_removed report) @ '' loose object'' @ plural (loose_removed report) @
           '', '' @ decimal (packs_removed report) @ '' pack'' @ plural (packs_removed report) @ '' removed, '' @
           decimal (packs_rewritten report) @ '' pack'' @ plural (packs_rewritten report) @ '' rewritten'') @
         println (''reclaimed: '' @ human_bytes (bytes_reclaimed report)) @
         (case trash report of
            Some p \<Rightarrow> println (''trash:    '' @ shown_path hst args p @ '' (restore by moving files back)'')
          | None \<Rightarrow> println ''trash:    none (permanently deleted)'')))"

definition json_bool :: "bool \<Rightarrow> string" where
  "json_bool b = (if b then ''true'' else ''false'')"

text \<open>One key of the report, in double quotes and with its colon.\<close>

definition json_key :: "string \<Rightarrow> string" where
  "json_key k = [CHR 0x22] @ k @ [CHR 0x22] @ '':''"

definition print_json :: "host \<Rightarrow> cli \<Rightarrow> string \<Rightarrow> sweep_report \<Rightarrow> nat \<Rightarrow> string" where
  "print_json hst args cmd report missing_roots =
     (let plan = report_plan report;
          trash_text = (case trash report of
            Some p \<Rightarrow> [CHR 0x22] @ json_escape (shown_path hst args p) @ [CHR 0x22]
          | None \<Rightarrow> ''null'')
      in
      println (''{'' @ json_key ''command'' @ [CHR 0x22] @ cmd @ [CHR 0x22] @
        '','' @ json_key ''dry_run'' @ json_bool (report_mode report = DryRun) @
        '','' @ json_key ''scanned'' @ decimal (scanned plan) @
        '','' @ json_key ''live'' @ decimal (live_present plan) @
        '','' @ json_key ''garbage'' @ decimal (garbage_count plan) @
        '','' @ json_key ''missing_roots'' @ decimal missing_roots @
        '','' @ json_key ''loose_garbage'' @ decimal (length (loose_garbage plan)) @
        '','' @ json_key ''packed_garbage'' @ decimal (packed_garbage_objects plan) @
        '','' @ json_key ''packs_with_garbage'' @ decimal (packs_with_garbage plan) @
        '','' @ json_key ''packs_removed'' @ decimal (packs_removed report) @
        '','' @ json_key ''packs_rewritten'' @ decimal (packs_rewritten report) @
        '','' @ json_key ''orphan_files'' @ decimal (length (orphan_files plan)) @
        '','' @ json_key ''unreadable_packs'' @ decimal (length (unreadable_packs plan)) @
        '','' @ json_key ''bytes_reclaimable'' @ decimal (bytes_reclaimable plan) @
        '','' @ json_key ''bytes_reclaimed'' @ decimal (bytes_reclaimed report) @
        '','' @ json_key ''executed'' @ json_bool (executed report) @
        '','' @ json_key ''trash'' @ trash_text @ ''}''))"

section \<open>Running\<close>

text \<open>Running methods of a store on the disk it was opened on.\<close>

definition on_store :: "blob_store \<Rightarrow> (world, 'e, 'a) prog \<Rightarrow> (disk, 'e, 'a) prog" where
  "on_store st m d = (case m (disk.extend d (world.fields st)) of (r, w) \<Rightarrow> (r, disk.truncate w))"

text \<open>The command name, the roots file and the mode of a run.\<close>

definition sweep_mode_of :: "mode_args \<Rightarrow> bool \<Rightarrow> sweep_mode" where
  "sweep_mode_of args del = (if dry_run args then DryRun else if del then Delete else Trash)"

definition command_parts :: "command \<Rightarrow> string \<times> string \<times> sweep_mode" where
  "command_parts cmd =
     (case cmd of
        MarkCmd roots_file \<Rightarrow> (''mark'', roots_file, DryRun)
      | SweepCmd roots_file args del \<Rightarrow> (''sweep'', roots_file, sweep_mode_of args del))"

definition mark_and_sweep ::
  "env \<Rightarrow> hash set \<Rightarrow> sweep_mode \<Rightarrow> (live_set \<times> sweep_report) store_prog" where
  "mark_and_sweep E roots md =
     bindE (mark E roots) (\<lambda>ls.
     bindE (sweep E (live_hashes ls) \<lparr>mode = md, rewrite_partial_packs = True\<rparr>) (\<lambda>report.
     returnE (ls, report)))"

definition run_gc :: "env \<Rightarrow> host \<Rightarrow> cli \<Rightarrow> (disk, string, string) prog" where
  "run_gc E hst args =
     (let to_text = cas_error_display (io_text E) in
      bindE (map_err to_text (BlobStore_new (resolve hst (cli_root args)))) (\<lambda>st.
      case command_parts (cli_command args) of (cmd, roots_file, md) \<Rightarrow>
      bindE (parse_roots E hst roots_file) (\<lambda>roots.
      bindE (map_err to_text (on_store st (mark_and_sweep E roots md))) (\<lambda>(ls, report).
      returnE
        (if cli_json args then print_json hst args cmd report (length (missing ls))
         else print_human hst args cmd report ls)))))"

text \<open>The exit code, standard output and standard error of \<open>main\<close>.\<close>

definition main_gc :: "env \<Rightarrow> host \<Rightarrow> cli \<Rightarrow> disk \<Rightarrow> (nat \<times> string \<times> string) \<times> disk" where
  "main_gc E hst args d =
     (case run_gc E hst args d of
        (Inr out, t) \<Rightarrow> ((0, out, []), t)
      | (Inl err, t) \<Rightarrow> ((1, [], println (''error: '' @ err)), t))"

end
