(* ===== verification/CliSpec.thy ===== *)
theory CliSpec
  imports Toy Cli
begin

text \<open>
  The properties of the texts that \<open>cas-gc\<close> reads and writes: the roots file, JSON strings and
  byte counts.
\<close>

section \<open>The roots file\<close>

lemma lines_of_Nil [simp]: "lines_of [] = []"
  by (simp add: lines_of.simps)

lemma lines_of_line: "LF \<notin> set l \<Longrightarrow> lines_of (l @ LF # s) = strip_cr l # lines_of s"
  by (subst lines_of.simps) (auto simp: Let_def takeWhile_append dropWhile_append)

lemma lines_of_last: "LF \<notin> set l \<Longrightarrow> l \<noteq> [] \<Longrightarrow> lines_of l = [l]"
  by (subst lines_of.simps) (auto simp: Let_def takeWhile_eq_all_conv [THEN iffD2] dropWhile_eq_Nil_conv [THEN iffD2])

text \<open>A line that the loop of \<open>parse_roots\<close> stops at, and the message for it.\<close>

definition bad_line :: "string \<Rightarrow> bool" where
  "bad_line line \<longleftrightarrow>
     \<not> utf8_valid line \<or> (root_text line \<noteq> [] \<and> (\<exists>e. from_hex (root_text line) = Inl e))"

definition line_message :: "string \<Rightarrow> nat \<Rightarrow> string \<Rightarrow> string" where
  "line_message shown n line =
     (if \<not> utf8_valid line then ''cannot read roots file: stream did not contain valid UTF-8''
      else case from_hex (root_text line) of
          Inl e \<Rightarrow> shown @ '':'' @ decimal n @ '':'' @ '' '' @ hash_error_display e
        | Inr h \<Rightarrow> [])"

lemma parse_lines_good:
  "\<forall>line \<in> set ls. \<not> bad_line line \<Longrightarrow>
     parse_lines shown n ls roots =
       Inr (roots \<union> {h. \<exists>line \<in> set ls. root_text line \<noteq> [] \<and> from_hex (root_text line) = Inr h})"
proof (induction ls arbitrary: n roots)
  case (Cons line ls)
  show ?case
  proof (cases "root_text line = []")
    case True
    with Cons show ?thesis by (auto simp: bad_line_def)
  next
    case False
    with Cons.prems obtain h where "from_hex (root_text line) = Inr h" "utf8_valid line"
      by (cases "from_hex (root_text line)") (auto simp: bad_line_def)
    with False Cons show ?thesis by (auto simp: Let_def)
  qed
qed simp

lemma parse_lines_bad:
  "\<forall>line \<in> set ls. \<not> bad_line line \<Longrightarrow> bad_line line \<Longrightarrow>
     parse_lines shown n (ls @ line # rest) roots = Inl (line_message shown (n + length ls + 1) line)"
proof (induction ls arbitrary: n roots)
  case Nil
  then show ?case
    by (auto simp: bad_line_def line_message_def Let_def)
next
  case (Cons x ls)
  show ?case
  proof (cases "root_text x = []")
    case True
    with Cons show ?thesis by (auto simp: bad_line_def)
  next
    case False
    with Cons.prems(1) obtain h where "from_hex (root_text x) = Inr h" "utf8_valid x"
      by (cases "from_hex (root_text x)") (auto simp: bad_line_def)
    with False Cons show ?thesis by (auto simp: Let_def)
  qed
qed

text \<open>
  C33. Reading the roots file. If every line is valid and, without its comment and the white space
  around it, empty or a digest, the roots are the digests of the lines; otherwise the whole file
  is refused with a message that names the first bad line by its number. The disk is only read.
\<close>

theorem parse_roots_spec:
  assumes "\<not> names_stdin arg" and "node_at d (resolve hst arg) = Some (File content)"
    and "ls = lines_of (text_of content)"
  shows "((\<forall>line \<in> set ls. \<not> bad_line line) \<longrightarrow>
      parse_roots E hst arg d =
        (Inr {h. \<exists>line \<in> set ls. root_text line \<noteq> [] \<and> from_hex (root_text line) = Inr h}, d)) \<and>
    (\<forall>pre line post. ls = pre @ line # post \<and> (\<forall>x \<in> set pre. \<not> bad_line x) \<and> bad_line line \<longrightarrow>
      parse_roots E hst arg d = (Inl (line_message (to_string_lossy arg) (length pre + 1) line), d))"
proof -
  have run: "parse_roots E hst arg d = (parse_lines (to_string_lossy arg) 0 ls {}, d)"
    using assms by (simp add: parse_roots_def Let_def bindE_def map_err_def fs_read_def run_atoms)
  then show ?thesis
    using parse_lines_good [of ls "to_string_lossy arg" 0 "{}"] parse_lines_bad [of _ _ "to_string_lossy arg" 0 _ "{}"]
    by auto
qed

text \<open>Lower-case hexadecimal text has nothing to trim.\<close>

definition space_texts :: "string list" where
  "space_texts = map (map char_of) WHITE_SPACE"

lemma space_texts_plain: "list_all (\<lambda>w. w \<noteq> [] \<and> list_all (\<lambda>c. c \<notin> set HEX_CHARS) w) space_texts"
  by code_simp

lemma space_not_hex:
  assumes "w \<in> set space_texts" and "set s \<subseteq> set HEX_CHARS"
  shows "take (length w) s \<noteq> w" "take (length w) s \<noteq> rev w"
proof -
  obtain c where c: "c \<in> set w" "c \<notin> set HEX_CHARS"
  proof -
    have "w \<noteq> []" "\<forall>c \<in> set w. c \<notin> set HEX_CHARS"
      using assms(1) space_texts_plain by (auto simp: list_all_iff)
    with that [of "hd w"] show thesis by simp
  qed
  have "set (take (length w) s) \<subseteq> set HEX_CHARS"
    using set_take_subset assms(2) by (rule order_trans)
  with c(2) have "c \<notin> set (take (length w) s)"
    by blast
  with c(1) show "take (length w) s \<noteq> w" "take (length w) s \<noteq> rev w"
    by (metis, metis set_rev)
qed

lemma trim_hex: "set s \<subseteq> set HEX_CHARS \<Longrightarrow> trim s = s"
proof -
  assume s: "set s \<subseteq> set HEX_CHARS"
  have "find (\<lambda>w. w \<noteq> [] \<and> take (length w) s = w) space_texts = None"
    using space_not_hex(1) [OF _ s] unfolding find_None_iff by blast
  then have "drop_space space_texts s = s"
    by (subst drop_space.simps) simp
  moreover have "find (\<lambda>w. w \<noteq> [] \<and> take (length w) (rev s) = w) (map rev space_texts) = None"
  proof -
    have "take (length (rev w)) (rev s) \<noteq> rev w" if "w \<in> set space_texts" for w
      using space_not_hex(2) [OF that, of "rev s"] s by simp
    then show ?thesis
      unfolding find_None_iff set_map by blast
  qed
  then have "drop_space (map rev space_texts) (rev s) = rev s"
    by (subst drop_space.simps) simp
  ultimately show ?thesis
    by (simp add: trim_def Let_def space_texts_def [symmetric])
qed

lemma HEX_CHARS_plain: "c \<in> set HEX_CHARS \<Longrightarrow> c \<noteq> LF \<and> c \<noteq> CR \<and> c \<noteq> CHR ''#'' \<and> of_char c < (128 :: nat)"
proof -
  have "list_all (\<lambda>c. c \<noteq> LF \<and> c \<noteq> CR \<and> c \<noteq> CHR ''#'' \<and> of_char c < (128 :: nat)) HEX_CHARS"
    by code_simp
  then show "c \<in> set HEX_CHARS \<Longrightarrow> c \<noteq> LF \<and> c \<noteq> CR \<and> c \<noteq> CHR ''#'' \<and> of_char c < (128 :: nat)"
    by (simp add: list_all_iff)
qed

lemma hex_line:
  "utf8_valid (to_hex h)" "root_text (to_hex h) = to_hex h" "strip_cr (to_hex h) = to_hex h" "LF \<notin> set (to_hex h)"
  "to_hex h \<noteq> []"
proof -
  have plain: "c \<noteq> LF \<and> c \<noteq> CR \<and> c \<noteq> CHR ''#'' \<and> of_char c < (128 :: nat)" if "c \<in> set (to_hex h)" for c
    using HEX_CHARS_plain subsetD [OF set_to_hex that] .
  show "utf8_valid (to_hex h)"
    using plain by (intro utf8_valid_ascii) simp
  have "takeWhile (\<lambda>c. c \<noteq> CHR ''#'') (to_hex h) = to_hex h"
    using plain by (simp add: takeWhile_eq_all_conv)
  then show "root_text (to_hex h) = to_hex h"
    by (simp only: root_text_def trim_hex [OF set_to_hex])
  show nonempty: "to_hex h \<noteq> []"
    using length_to_hex [of h] by force
  show "strip_cr (to_hex h) = to_hex h"
    using plain [OF last_in_set [OF nonempty]] by (simp add: strip_cr_def)
  show "LF \<notin> set (to_hex h)"
    using plain by blast
qed

text \<open>
  The roots file round-trips: a file with the hexadecimal text of each digest on a line of
  its own, with either line ending, is read back as the set of those digests.
\<close>

theorem parse_roots_roundtrip:
  assumes "\<not> names_stdin arg" and "eol = [] \<or> eol = [CR]"
    and "node_at d (resolve hst arg) = Some (File content)"
    and "text_of content = concat (map (\<lambda>h. to_hex h @ eol @ [LF]) hs)"
  shows "parse_roots E hst arg d = (Inr (set hs), d)"
proof -
  have "lines_of (concat (map (\<lambda>h. to_hex h @ eol @ [LF]) gs)) = map to_hex gs" for gs
  proof (induction gs)
    case (Cons g gs)
    have "LF \<notin> set (to_hex g @ eol)"
      using assms(2) hex_line(4) by (auto simp: CR_def LF_def)
    moreover have "strip_cr (to_hex g @ eol) = to_hex g"
      using assms(2)
    proof
      assume "eol = [CR]"
      then show ?thesis by (simp add: strip_cr_def)
    qed (simp add: hex_line(3))
    ultimately show ?case
      using Cons lines_of_line [of "to_hex g @ eol"] by simp
  qed simp
  then have ls: "lines_of (text_of content) = map to_hex hs"
    by (simp add: assms(4))
  have "\<forall>line \<in> set (map to_hex hs). \<not> bad_line line"
    by (auto simp: bad_line_def hex_line)
  from parse_lines_good [OF this, of "to_string_lossy arg" 0 "{}"]
  have "parse_lines (to_string_lossy arg) 0 (map to_hex hs) {} = Inr (set hs)"
    by (auto simp: hex_line)
  with assms(1,3) ls show ?thesis
    by (simp add: parse_roots_def Let_def bindE_def map_err_def fs_read_def run_atoms)
qed

section \<open>JSON strings\<close>

text \<open>
  A reader of the inside of a JSON string (RFC 8259), up to the closing double quote: no control
  character may stand for itself, and an escape of a character below 128 stands for its byte.
\<close>

fun json_read :: "string \<Rightarrow> (string \<times> string) option" where
  "json_read [] = None"
| "json_read (c # cs) =
     (if c = CHR 0x22 then Some ([], cs)
      else if of_char c < (32 :: nat) then None
      else if c \<noteq> CHR 0x5C then map_option (\<lambda>(s, r). (c # s, r)) (json_read cs)
      else case cs of
          [] \<Rightarrow> None
        | e # es \<Rightarrow>
            (case map_of [(CHR 0x22, CHR 0x22), (CHR 0x5C, CHR 0x5C), (CHR ''/'', CHR ''/''), (CHR ''b'', CHR 0x08),
                          (CHR ''f'', CHR 0x0C), (CHR ''n'', CHR 0x0A), (CHR ''r'', CHR 0x0D), (CHR ''t'', CHR 0x09)] e of
               Some x \<Rightarrow> map_option (\<lambda>(s, r). (x # s, r)) (json_read es)
             | None \<Rightarrow>
                 (case es of
                    a # b # c' # d # rest \<Rightarrow>
                      if e = CHR ''u'' then
                        (case (hex_digit a, hex_digit b, hex_digit c', hex_digit d) of
                           (Some 0, Some 0, Some m, Some n) \<Rightarrow>
                             if m < 8 then map_option (\<lambda>(s, r). (char_of (16 * m + n) # s, r)) (json_read rest) else None
                         | _ \<Rightarrow> None)
                      else None
                  | _ \<Rightarrow> None)))"

lemma hex_digits_of_byte:
  "\<exists>a b. hex_of_byte w = [a, b] \<and> hex_digit a = Some (unat w div 16) \<and> hex_digit b = Some (unat w mod 16)"
  by (simp add: hex_of_byte_def hex_digit_HEX_CHARS unat_high_nibble unat_low_nibble nibbles_less)

lemma json_read_escape1:
  "json_read (json_escape [c] @ rest) = map_option (\<lambda>(s, r). (c # s, r)) (json_read rest)"
proof -
  consider "c \<in> {CHR 0x22, CHR 0x5C, LF, CR, CHR 0x09}"
    | (control) "c \<notin> {CHR 0x22, CHR 0x5C, LF, CR, CHR 0x09}" "of_char c < (32 :: nat)"
    | (plain) "c \<notin> {CHR 0x22, CHR 0x5C, LF, CR, CHR 0x09}" "\<not> of_char c < (32 :: nat)"
    by blast
  then show ?thesis
  proof cases
    case 1
    then show ?thesis by (auto simp: LF_def CR_def)
  next
    case control
    let ?w = "of_char c :: 8 word"
    have w: "unat ?w = of_char c"
      using control(2) by (simp add: unat_of_nat of_char_def)
    obtain a b where ab: "hex_of_byte ?w = [a, b]" "hex_digit a = Some (unat ?w div 16)" "hex_digit b = Some (unat ?w mod 16)"
      using hex_digits_of_byte by blast
    have "unat ?w div 16 < 8"
      using control(2) unfolding w by simp
    then show ?thesis
      using control ab by (simp add: w hex_digit_def [of "CHR ''0''"])
  next
    case plain
    then show ?thesis by simp
  qed
qed

lemma json_escape_Cons: "json_escape (c # cs) = json_escape [c] @ json_escape cs"
  by simp

text \<open>
  C34. \<open>json_escape\<close> writes a correct JSON string: between double quotes, its output is read back as
  exactly the text it was given, whatever quotes, backslashes and control characters that has,
  and the reader stops at the closing quote and nowhere before.
\<close>

theorem json_escape_roundtrip: "json_read (json_escape s @ CHR 0x22 # rest) = Some (s, rest)"
proof (induction s)
  case (Cons c s)
  have "json_read (json_escape (c # s) @ CHR 0x22 # rest) =
      json_read (json_escape [c] @ json_escape s @ CHR 0x22 # rest)"
    by (simp only: json_escape_Cons [of c s] append_assoc)
  also have "\<dots> = Some (c # s, rest)"
    unfolding json_read_escape1 Cons by simp
  finally show ?case .
qed simp

section \<open>Byte counts\<close>

text \<open>
  \<open>human_bytes\<close> takes the largest unit that the count reaches: the count, as a float, is at
  least one of that unit and, below PiB, less than 1024 of them. The unit loop ends.
\<close>

theorem unit_loop_largest:
  "unit_loop m 0 < length UNITS \<and> (unit_loop m 0 = 0 \<or> 1024 ^ unit_loop m 0 \<le> m) \<and>
   (m < 1024 * 1024 ^ unit_loop m 0 \<or> unit_loop m 0 = length UNITS - 1)"
proof -
  have "u \<le> unit_loop m u \<and> unit_loop m u < length UNITS \<and> (unit_loop m u = u \<or> 1024 ^ unit_loop m u \<le> m) \<and>
      (m < 1024 * 1024 ^ unit_loop m u \<or> unit_loop m u = length UNITS - 1)"
    if "u < length UNITS" for u
    using that
  proof (induction m u rule: unit_loop.induct)
    case (1 m u)
    show ?case
    proof (cases "1024 * 1024 ^ u \<le> m \<and> u + 1 < length UNITS")
      case True
      then have "unit_loop m u = unit_loop m (u + 1)"
        by (simp add: unit_loop.simps [of m u])
      with 1(1) [OF True] True show ?thesis by auto
    next
      case False
      then have "unit_loop m u = u"
        by (subst unit_loop.simps) (simp only: if_False)
      with False 1(2) show ?thesis by auto
    qed
  qed
  from this [of 0] show ?thesis
    by (simp add: UNITS_def)
qed

text \<open>
  The rounding to tenths comes after the choice of the unit, so a count just below the next
  unit is shown as 1024 of the smaller one.
\<close>

theorem human_bytes_1024: "human_bytes 1048575 = ''1024.0 KiB'' \<and> human_bytes 1048576 = ''1.0 MiB''"
proof -
  have "bit_count 1048575 = 20" "bit_count 1048576 = 21"
    by (simp_all add: bit_count.simps)
  then have float: "f64_of_u64 1048575 = 1048575" "f64_of_u64 1048576 = 1048576"
    by (simp_all add: f64_of_u64_def Let_def round_div_def)
  have "unit_loop 1048575 0 = 1" "unit_loop 1048576 0 = 2"
    by (simp_all add: unit_loop.simps UNITS_def)
  with float show ?thesis
    by (simp add: human_bytes_def Let_def round_div_def UNITS_def decimal.simps) (simp add: char_of_def bit_0)
qed

theorem parse_roots_spec_witness:
  "parse_roots (toy_env False) \<lparr>resolve = (\<lambda>a. [a]), stdin = []\<rparr> ''roots''
     \<lparr>nodes = [([''roots''], File (map (\<lambda>c. of_char c) (''  # only a comment'' @ [LF] @ ''zz'')))], pending = [], dir_len = 0\<rparr> =
   (Inl (line_message ''roots'' 2 ''zz''),
     \<lparr>nodes = [([''roots''], File (map (\<lambda>c. of_char c) (''  # only a comment'' @ [LF] @ ''zz'')))], pending = [], dir_len = 0\<rparr>)"
proof -
  let ?d = "\<lparr>nodes = [([''roots''], File (map (\<lambda>c. of_char c) (''  # only a comment'' @ [LF] @ ''zz'')))], pending = [], dir_len = 0\<rparr> :: disk"
  let ?hst = "\<lparr>resolve = (\<lambda>a. [a]), stdin = []\<rparr> :: host"
  have name: "\<not> names_stdin ''roots''" "to_string_lossy ''roots'' = ''roots''"
    by code_simp+
  have content: "node_at ?d (resolve ?hst ''roots'') = Some (File (map (\<lambda>c. of_char c) (''  # only a comment'' @ [LF] @ ''zz'')))"
    by (simp add: node_at_def)
  have ls: "[''  # only a comment''] @ ''zz'' # [] = lines_of (text_of (map (\<lambda>c. of_char c) (''  # only a comment'' @ [LF] @ ''zz'')))"
    by code_simp
  have "\<not> bad_line ''  # only a comment''"
  proof -
    have "utf8_valid ''  # only a comment''" "root_text ''  # only a comment'' = []"
      by code_simp+
    then show ?thesis by (simp add: bad_line_def)
  qed
  moreover have "bad_line ''zz''"
  proof -
    have "root_text ''zz'' = ''zz''" "from_hex ''zz'' = Inl (hash_error.InvalidLength 2)"
      by code_simp+
    then show ?thesis by (simp add: bad_line_def)
  qed
  ultimately show ?thesis
    using parse_roots_spec [OF name(1) content ls, of "toy_env False", THEN conjunct2, rule_format,
        of "[''  # only a comment'']" "''zz''" "[]"] name(2)
    by (simp add: numeral_2_eq_2)
qed

end
