(* ===== verification/TreeFacts.thy ===== *)
theory TreeFacts
  imports GcSweep
begin

text \<open>
  The shape of the disk: every path has one node, and everything below the root directory lies in
  a directory. Every operation of \<open>std::fs\<close> keeps it, a torn one too.
\<close>

definition tree :: "'z disk_scheme \<Rightarrow> bool" where
  "tree d \<longleftrightarrow> (\<forall>p n. node_at d p = Some n \<and> butlast p \<noteq> [] \<longrightarrow> node_at d (butlast p) = Some Dir)"

definition well_formed :: "'z disk_scheme \<Rightarrow> bool" where
  "well_formed d \<longleftrightarrow> wf_disk d \<and> tree d"

lemma treeD: "tree d \<Longrightarrow> node_at d (p @ [x]) = Some n \<Longrightarrow> p \<noteq> [] \<Longrightarrow> node_at d p = Some Dir"
  unfolding tree_def by fastforce

lemma tree_parent: "tree d \<Longrightarrow> node_at d p = Some n \<Longrightarrow> butlast p \<noteq> [] \<Longrightarrow> node_at d (butlast p) = Some Dir"
  unfolding tree_def by blast

lemma well_formed_nodes:
  assumes "nodes t = nodes d" and "well_formed d"
  shows "well_formed t"
  using assms(2) unfolding well_formed_def wf_disk_def tree_def node_at_def assms(1) .

text \<open>Nothing lies below a file or below nothing.\<close>

lemma tree_below:
  assumes "tree d" and "node_at d (p @ x # q) = Some n" and "p \<noteq> []"
  shows "node_at d p = Some Dir"
  using assms(2)
proof (induction q arbitrary: n rule: rev_induct)
  case Nil
  then show ?case using treeD [OF assms(1)] assms(3) by simp
next
  case (snoc y q)
  then show ?case using treeD [OF assms(1), of "p @ x # q" y] by auto
qed

lemma tree_child:
  assumes "tree d" and "node_at d (p @ x # q) = Some n"
  obtains m where "node_at d (p @ [x]) = Some m"
  using assms tree_below [of d "p @ [x]"] by (cases q) auto

section \<open>Writing and removing a file\<close>

lemma well_formed_next_fault: "keeps well_formed next_fault"
  by (auto intro!: upholdsI simp: next_fault_def elim!: well_formed_nodes [rotated] split: list.splits)

lemma tree_put:
  assumes "tree d" and "node_at d p \<noteq> Some Dir \<or> n = Dir"
    and "butlast p \<noteq> [] \<longrightarrow> node_at d (butlast p) = Some Dir"
  shows "tree (put_node p n d)"
  using assms by (auto simp: tree_def disk_nodes.look_put)

lemma tree_del: "tree d \<Longrightarrow> node_at d p \<noteq> Some Dir \<Longrightarrow> tree (del_node p d)"
  by (auto simp: tree_def disk_nodes.look_del)

lemma write_error_None: "write_error d p = None \<Longrightarrow> node_at d p \<noteq> Some Dir \<and> node_at d (butlast p) = Some Dir"
  by (auto simp: write_error_def split: if_splits option.splits node.splits)

lemma well_formed_fs_write: "keeps well_formed (fs_write p b)"
  unfolding fs_write_def
  by (rule keeping.resp_bind [OF well_formed_next_fault], rule upholdsI)
    (auto simp: well_formed_def intro!: tree_put dest: write_error_None split: if_splits option.splits io_fault.splits)

lemma well_formed_fs_remove_file: "keeps well_formed (fs_remove_file p)"
  unfolding fs_remove_file_def
  by (rule keeping.resp_bind [OF well_formed_next_fault], rule upholdsI)
    (auto simp: well_formed_def intro!: tree_del split: if_splits option.splits node.splits)

section \<open>Making directories\<close>

lemma tree_add_dirs:
  assumes "tree d" and "\<And>q. q \<in> set qs \<Longrightarrow> butlast q \<in> set qs \<or> node_at d (butlast q) = Some Dir \<or> butlast q = []"
  shows "tree (add_dirs qs d)"
  using assms by (auto simp: tree_def node_at_add_dirs)

lemma take_filter: "\<exists>j \<le> length xs. take k (filter P xs) = filter P (take j xs)"
proof (induction xs rule: rev_induct)
  case (snoc x xs)
  then obtain j where j: "j \<le> length xs" "take k (filter P xs) = filter P (take j xs)"
    by blast
  show ?case
  proof (cases "k \<le> length (filter P xs)")
    case True
    with j show ?thesis by (intro exI [of _ j]) simp
  next
    case False
    then have "take k (filter P (xs @ [x])) = filter P (xs @ [x])"
      by (intro take_all) simp
    then show ?thesis by (intro exI [of _ "Suc (length xs)"]) simp
  qed
qed simp

text \<open>A prefix of the missing directories is the missing ones of the shortest ancestors.\<close>

lemma set_missing_prefix:
  obtains j where "set (take k (missing_dirs d p)) = {q. \<exists>n < j. q = take n p \<and> node_at d q = None}"
proof -
  have all: "ancestors p @ [p] = map (\<lambda>n. take n p) [0..<Suc (length p)]"
    by (simp add: ancestors_def)
  obtain j where "j \<le> Suc (length p)"
    and eq: "take k (missing_dirs d p) = filter (\<lambda>q. node_at d q = None) (map (\<lambda>n. take n p) (take j [0..<Suc (length p)]))"
    using take_filter [of "map (\<lambda>n. take n p) [0..<Suc (length p)]" k "\<lambda>q. node_at d q = None"]
    unfolding missing_dirs_def all take_map length_map length_upt diff_zero by blast
  then have "take j [0..<Suc (length p)] = [0..<j]"
    using take_upt [of 0 j "Suc (length p)"] by simp
  then have "set (take k (missing_dirs d p)) = {q. \<exists>n < j. q = take n p \<and> node_at d q = None}"
    unfolding eq by auto
  then show thesis by (rule that)
qed

lemma tree_make_dirs:
  assumes "tree d" and "\<forall>q \<in> set (ancestors p). \<not> is_file_node (node_at d q)"
  shows "tree (add_dirs (take k (missing_dirs d p)) d)"
proof (rule tree_add_dirs [OF assms(1)])
  fix q
  obtain j where j: "set (take k (missing_dirs d p)) = {q. \<exists>n < j. q = take n p \<and> node_at d q = None}"
    by (rule set_missing_prefix)
  assume "q \<in> set (take k (missing_dirs d p))"
  then obtain m where m: "m < j" "q = take m p"
    using j by blast
  define n where "n = min m (length p)"
  have n: "n < j" "q = take n p" "n \<le> length p"
    using m by (auto simp: n_def min_def)
  have up: "butlast q = take (n - 1) p"
    using n by (simp add: butlast_take)
  consider "n = 0" | "node_at d (butlast q) = None" | "n > 0" "node_at d (butlast q) = Some Dir"
    | b where "n > 0" "node_at d (butlast q) = Some (File b)"
    by (cases n; cases "node_at d (butlast q)") (auto, metis node.exhaust)
  then show "butlast q \<in> set (take k (missing_dirs d p)) \<or> node_at d (butlast q) = Some Dir \<or> butlast q = []"
  proof cases
    case 1
    with n show ?thesis by simp
  next
    case 2
    with up n(1) show ?thesis unfolding j by (auto intro!: exI [of _ "n - 1"])
  next
    case 4
    then have "butlast q \<in> set (ancestors p)"
      using up n(3) by (auto simp: ancestors_def)
    with 4 assms(2) show ?thesis by (auto simp: is_file_node_def)
  qed simp
qed

lemma wf_add_dirs: "wf_disk d \<Longrightarrow> wf_disk (add_dirs qs d)"
  by (induction qs arbitrary: d) (auto simp: add_dirs_def)

lemma well_formed_make_dirs:
  assumes "well_formed d" and "absent_error d p \<noteq> NotADirectory"
  shows "well_formed (add_dirs (take k (missing_dirs d p)) d)" and "well_formed (add_dirs (missing_dirs d p) d)"
proof -
  show made: "well_formed (add_dirs (take k (missing_dirs d p)) d)" for k
    using assms tree_make_dirs [of d p k]
    by (auto simp: well_formed_def wf_add_dirs absent_error_def list_ex_iff split: if_splits)
  from made [of "length (missing_dirs d p)"] show "well_formed (add_dirs (missing_dirs d p) d)"
    by simp
qed

lemma well_formed_create_dir_all: "keeps well_formed (create_dir_all p)"
proof (rule upholdsI, rule impI)
  fix d :: "'z disk_scheme" and r :: "io_error + unit" and t
  assume run: "create_dir_all p d = (r, t)" and d: "well_formed d"
  show "well_formed t"
  proof (cases "node_at d p = None \<and> absent_error d p \<noteq> NotADirectory")
    case True
    then obtain f u where f: "next_fault d = (Inr f, u)"
      and rest: "(case f of
              Proceed \<Rightarrow> (Inr (), add_dirs (missing_dirs u p) u)
            | Refuse \<Rightarrow> (Inl OtherIo, u)
            | Tear k \<Rightarrow> (Inl OtherIo, add_dirs (take k (missing_dirs u p)) u)) = (r, t)"
      using run by (auto simp: create_dir_all_def bindE_eq next_fault_def split: list.splits)
    have "well_formed u" "absent_error u p = absent_error d p"
      using upholdsD [OF well_formed_next_fault f] d next_fault_node_at [OF f] by (simp_all add: absent_error_def)
    with rest True well_formed_make_dirs [of u p] show ?thesis
      by (auto split: io_fault.splits)
  next
    case False
    with run d show ?thesis
      by (auto simp: create_dir_all_def split: option.splits node.splits if_splits)
  qed
qed

section \<open>Renaming\<close>

text \<open>Where a directory is moved, every path below it gets the new front.\<close>

definition moved :: "path \<Rightarrow> path \<Rightarrow> path \<Rightarrow> path" where
  "moved src dst p = (if is_under src p then dst @ drop (length src) p else p)"

lemma moved_cases:
  obtains (under) q where "p = src @ q" and "moved src dst p = dst @ q"
  | (outside) "\<not> is_under src p" and "moved src dst p = p"
  by (cases "is_under src p") (auto simp: moved_def is_under_iff)

lemma nodes_move_dir:
  assumes "node_at d src = Some Dir"
  shows "nodes (move_node src dst d) = map (\<lambda>(p, n). (moved src dst p, n)) (filter (\<lambda>(p, n). p \<noteq> dst) (nodes d))"
  using assms by (simp add: move_node_def moved_def AList.delete_eq neq_commute)

text \<open>What an accepted rename of a directory finds at its destination: nothing below it.\<close>

definition can_move :: "path \<Rightarrow> path \<Rightarrow> 'z disk_scheme \<Rightarrow> bool" where
  "can_move src dst d \<longleftrightarrow>
     node_at d (butlast dst) = Some Dir \<and> \<not> is_under src dst \<and> (\<forall>x q. node_at d (dst @ x # q) = None)"

lemma rename_error_None:
  assumes "rename_error d src dst = None" and "node_at d src = Some Dir" and "well_formed d"
  shows "can_move src dst d"
proof -
  have parent: "node_at d (butlast dst) = Some Dir" and out: "\<not> is_under src dst"
    and empty: "node_at d dst = Some Dir \<Longrightarrow> children d dst = []"
    using assms(1,2) by (auto simp: rename_error_def split: option.splits node.splits if_splits)
  have "node_at d (dst @ x # q) = None" for x q
  proof (rule ccontr)
    assume "node_at d (dst @ x # q) \<noteq> None"
    then obtain n where n: "node_at d (dst @ x # q) = Some n" by blast
    have tr: "tree d" and wf: "wf_disk d"
      using assms(3) by (simp_all add: well_formed_def)
    obtain m where "node_at d (dst @ [x]) = Some m"
      by (rule tree_child [OF tr n])
    moreover have "node_at d dst = Some Dir"
      using parent tree_below [OF tr n] by (cases "dst = []") simp_all
    ultimately show False
      using empty mem_children [OF wf, of x m dst] by simp
  qed
  with parent out show ?thesis by (simp add: can_move_def)
qed

lemma inj_moved: "can_move src dst d \<Longrightarrow> inj_on (moved src dst) {p. node_at d p \<noteq> None \<and> p \<noteq> dst}"
proof (rule inj_onI)
  fix p q
  assume can: "can_move src dst d" and p: "p \<in> {p. node_at d p \<noteq> None \<and> p \<noteq> dst}"
    and q: "q \<in> {p. node_at d p \<noteq> None \<and> p \<noteq> dst}" and eq: "moved src dst p = moved src dst q"
  have off: "p \<noteq> dst @ r" if "node_at d p \<noteq> None" "p \<noteq> dst" for p r
    using can that by (cases r) (auto simp: can_move_def)
  show "p = q"
    using p q eq off by (cases rule: moved_cases [of p src dst]; cases rule: moved_cases [of q src dst]) auto
qed

lemma node_at_move_dir:
  assumes "wf_disk d" and "node_at d src = Some Dir" and "can_move src dst d"
  shows "wf_disk (move_node src dst d)"
    and "node_at (move_node src dst d) q = Some n \<longleftrightarrow>
      (\<exists>p. q = moved src dst p \<and> node_at d p = Some n \<and> p \<noteq> dst)"
proof -
  note wf = assms(1)
  let ?t = "move_node src dst d"
  have keys: "fst ` set (filter (\<lambda>(p, n). p \<noteq> dst) (nodes d)) = {p. node_at d p \<noteq> None \<and> p \<noteq> dst}"
    using node_at_iff [OF wf] by force
  have "map fst (nodes ?t) = map (moved src dst) (map fst (filter (\<lambda>(p, n). p \<noteq> dst) (nodes d)))"
    by (simp add: nodes_move_dir [OF assms(2)] case_prod_unfold comp_def)
  moreover have "distinct (map fst (filter (\<lambda>(p, n). p \<noteq> dst) (nodes d)))"
    using wf unfolding wf_disk_def by (rule distinct_map_filter)
  ultimately show wf': "wf_disk ?t"
    using inj_moved [OF assms(3)] keys by (simp only: wf_disk_def distinct_map [of "moved src dst"] set_map)
  show "node_at ?t q = Some n \<longleftrightarrow> (\<exists>p. q = moved src dst p \<and> node_at d p = Some n \<and> p \<noteq> dst)"
    unfolding node_at_iff [OF wf'] node_at_iff [OF wf] nodes_move_dir [OF assms(2)] by force
qed

lemma well_formed_move_dir:
  assumes "well_formed d" and "node_at d src = Some Dir" and "can_move src dst d"
  shows "well_formed (move_node src dst d)"
proof -
  have wf: "wf_disk d" and tr: "tree d"
    using assms(1) by (simp_all add: well_formed_def)
  let ?t = "move_node src dst d"
  note at = node_at_move_dir(2) [OF wf assms(2,3)]
  have "node_at ?t (butlast q) = Some Dir" if q: "node_at ?t q = Some n" "butlast q \<noteq> []" for q n
  proof -
    obtain p where p: "q = moved src dst p" "node_at d p = Some n" "p \<noteq> dst"
      using at q(1) by blast
    show ?thesis
    proof (cases rule: moved_cases [of p src dst])
      case (under r)
      show ?thesis
      proof (cases "r = []")
        case True
        then have q_dst: "q = dst" using p(1) under by simp
        then have "dst = butlast dst @ [last dst]"
          using q(2) by (metis append_butlast_last_id butlast.simps(1))
        then have "\<not> is_under src (butlast dst)" "butlast dst \<noteq> dst"
          using assms(3) unfolding can_move_def by (metis is_under_iff append_assoc, metis append_self_conv list.discI)
        with assms(3) q_dst show ?thesis
          unfolding at by (intro exI [of _ "butlast dst"]) (simp add: can_move_def moved_def)
      next
        case False
        then have up: "butlast p = src @ butlast r" "butlast q = moved src dst (butlast p)"
          using p(1) under by (simp_all add: butlast_append moved_def is_under_iff)
        have "butlast p \<noteq> dst"
          using up(1) assms(3) by (auto simp: can_move_def is_under_iff)
        moreover have "node_at d (butlast p) = Some Dir"
          using tree_parent [OF tr p(2)] up(1) assms(3) by (cases "src = []") (auto simp: can_move_def)
        ultimately show ?thesis
          unfolding at up(2) by blast
      qed
    next
      case outside
      then have "q = p" "node_at d (butlast p) = Some Dir"
        using p q(2) tree_parent [OF tr] by simp_all
      moreover from this q(2) have split: "p = butlast p @ [last p]"
        by (metis append_butlast_last_id butlast.simps(1))
      moreover have "\<not> is_under src (butlast p)"
        using outside(1) split is_under_trans by (metis is_under_iff)
      moreover have "butlast p \<noteq> dst"
        using p(2) split assms(3) unfolding can_move_def by (metis option.distinct(1))
      ultimately show ?thesis
        unfolding at by (intro exI [of _ "butlast p"]) (simp add: moved_def)
    qed
  qed
  then have "tree ?t" by (auto simp: tree_def)
  with node_at_move_dir(1) [OF wf assms(2,3)] show ?thesis by (simp add: well_formed_def)
qed

lemma well_formed_move_file:
  assumes "well_formed d" and "node_at d src = Some (File b)" and "node_at d (butlast dst) = Some Dir"
    and "node_at d dst \<noteq> Some Dir"
  shows "well_formed (move_node src dst d)"
proof -
  have "well_formed (del_node src d)"
    using assms(1,2) by (auto simp: well_formed_def intro: tree_del)
  then show ?thesis
    using assms(2-4) by (auto simp: well_formed_def move_node_def disk_nodes.look_del intro!: tree_put split: if_splits)
qed

lemma well_formed_fs_rename: "keeps well_formed (fs_rename src dst)"
  unfolding fs_rename_def
proof (rule keeping.resp_bind [OF well_formed_next_fault], rule upholdsI, rule impI)
  fix f r and d t :: "'z disk_scheme"
  assume run: "(if f \<noteq> Proceed then (Inl OtherIo, d)
       else case rename_error d src dst of
         Some e \<Rightarrow> (Inl e, d)
       | None \<Rightarrow> (Inr (), move_node src dst d)) = (r, t)" and d: "well_formed d"
  have "well_formed (move_node src dst d)" if ok: "rename_error d src dst = None"
  proof (cases "node_at d src")
    case (Some n)
    show ?thesis
    proof (cases n)
      case (File b)
      with Some ok d show ?thesis
        by (intro well_formed_move_file [of d src b]) (auto simp: rename_error_def split: option.splits node.splits if_splits)
    next
      case Dir
      with Some ok d show ?thesis
        by (simp add: well_formed_move_dir rename_error_None)
    qed
  qed (use ok in \<open>simp add: rename_error_def\<close>)
  with run d show "well_formed t"
    by (auto split: if_splits option.splits)
qed

end
