(* ===== verification/RunSpec.thy ===== *)
theory RunSpec
  imports SweepSpec CliSpec TreeFacts
begin

text \<open>
  The properties of a whole run of \<open>cas-gc\<close>: opening the store, reading the roots, mark and sweep.
\<close>

section \<open>Worlds with the same files\<close>

text \<open>What the collector computes depends on the files and the root of the store alone.\<close>

lemma node_at_same: "nodes t = nodes s \<Longrightarrow> node_at t = node_at s"
  by (simp add: node_at_def fun_eq_iff)

lemma children_same: "nodes t = nodes s \<Longrightarrow> children t = children s"
  by (simp add: children_def fun_eq_iff)

text \<open>Rewriting with \<open>unfolding\<close>, which goes under the branches of a \<open>case\<close>.\<close>

lemma lookups_same:
  assumes "nodes t = nodes s"
  shows "path_exists t = path_exists s" "packs_at t dir = packs_at s dir" "absent_error t = absent_error s"
    "has_idx t = has_idx s" "wf_disk t = wf_disk s"
  unfolding path_exists_def packs_at_cases absent_error_def has_idx_def wf_disk_def fun_eq_iff
    node_at_same [OF assms] children_same [OF assms] assms
  by simp_all

lemma reads_same:
  assumes "nodes t = nodes s"
  shows "index_at t = index_at s" "blob_in_pack E t = blob_in_pack E s"
  using node_at_same [OF assms] lookups_same(3) [OF assms]
  by (simp_all add: fun_eq_iff index_at_def PackIndex_load_def blob_in_pack_def PackFile_read_blob_def bindE_def
      map_err_def fs_read_def run_atoms split: option.split node.split)

lemma pack_facts_same:
  assumes "nodes t = nodes s"
  shows "indexed t = indexed s" "pack_hashes t = pack_hashes s" "packed_set t = packed_set s"
    "pack_serves E t = pack_serves E s" "loose_serves E t = loose_serves E s" "replacement E t = replacement E s"
    "loose_hashes t = loose_hashes s" "orphan_indices t = orphan_indices s" "held E t = held E s"
  unfolding indexed_def pack_hashes_def packed_set_def pack_serves_def loose_serves_def replacement_def
      loose_hashes_def loose_files_def bucket_files_def orphan_indices_def held_def idx_of_def fun_eq_iff
      node_at_same [OF assms] lookups_same [OF assms] reads_same [OF assms] children_same [OF assms]
  by simp_all

definition alike :: "world \<Rightarrow> world \<Rightarrow> bool" where
  "alike s t \<longleftrightarrow> nodes t = nodes s \<and> dir_len t = dir_len s \<and> root (self t) = root (self s)"

lemma alike_dirs:
  "alike s t \<Longrightarrow> pack_dir (self t) = pack_dir (self s) \<and> objects_dir (self t) = objects_dir (self s) \<and>
     loose_path (self t) h = loose_path (self s) h"
  by (simp add: alike_def pack_dir_def objects_dir_def loose_path_eq)

lemma alike_nodes: "alike s t \<Longrightarrow> nodes t = nodes s" "alike s t \<Longrightarrow> dir_len t = dir_len s"
  by (simp_all add: alike_def)

lemma alike_loose_set: "alike s t \<Longrightarrow> loose_set t = loose_set s"
  using alike_dirs [of s t] pack_facts_same(7) [OF alike_nodes(1), of s t] by (simp add: loose_set_def)

lemma alike_sound:
  assumes "alike s t" and "sound_store E live s"
  shows "sound_store E live t"
  using assms(2) alike_loose_set [OF assms(1)] alike_dirs [OF assms(1)]
    pack_facts_same [OF alike_nodes(1) [OF assms(1)]] lookups_same [OF alike_nodes(1) [OF assms(1)]] assms(1)
  by (simp add: sound_store_def alike_def)

lemma sound_mono: "sound_store E live s \<Longrightarrow> live' \<subseteq> live \<Longrightarrow> sound_store E live' s"
  unfolding sound_store_def by blast

lemma alike_fresh:
  assumes "alike s t" and "fresh_replacements E s plan"
  shows "fresh_replacements E t plan"
proof -
  have "replacement_paths E t = replacement_paths E s"
    unfolding replacement_paths_def fun_eq_iff pack_facts_same [OF alike_nodes(1) [OF assms(1)]] by simp
  with assms(2) show ?thesis
    unfolding fresh_replacements_def pack_facts_same [OF alike_nodes(1) [OF assms(1)]]
      lookups_same [OF alike_nodes(1) [OF assms(1)]] alike_dirs [OF assms(1), THEN conjunct1]
    by simp
qed

lemma node_len_same:
  assumes "nodes t = nodes s" and "dir_len t = dir_len s"
  shows "node_len t = node_len s"
  unfolding node_len_def fun_eq_iff node_at_same [OF assms(1)] assms(2) by simp

lemma alike_plan_of:
  assumes "alike s t"
  shows "plan_of t live ps n = plan_of s live ps n"
proof -
  note n = alike_nodes [OF assms]
  have "state_of t live = state_of s live"
    using node_len_same [OF n] by (simp add: state_of_def pack_facts_same(2) [OF n(1)] fun_eq_iff)
  moreover have "indexed t = indexed s" "has_idx t = has_idx s"
    by (simp_all add: pack_facts_same(1) [OF n(1)] lookups_same(4) [OF n(1)])
  ultimately show ?thesis
    using alike_loose_set [OF assms] alike_dirs [OF assms] pack_facts_same(2,3,8) [OF n(1)]
    by (simp add: plan_of_def pack_decisions_def Let_def)
qed

lemma alike_plan:
  assumes "alike s t" and "wf_disk s" and "plan_sweep live t = (Inr plan, t)"
  shows "plan_sweep live s = (Inr plan, s)"
proof -
  note n = alike_nodes [OF assms(1)] and dirs = alike_dirs [OF assms(1)] and loose = alike_loose_set [OF assms(1)]
  have wf: "wf_disk t"
    using assms(2) lookups_same(5) [OF n(1)] by simp
  obtain ps where ps: "packs_at t (pack_dir (self t)) = Inr ps"
    and there: "\<forall>h \<in> loose_set t - live. path_exists t (loose_path (self t) h)"
    and plan: "plan = plan_of t live ps
      (\<Sum>h \<leftarrow> sorted_list_of_set (loose_set t - live). node_len t (loose_path (self t) h))"
    by (rule plan_sweep_run [OF assms(3) wf])
  obtain hs u where "list_blobs t = (Inr hs, u)"
    using assms(3) by (auto simp: plan_sweep_def bindE_eq)
  then have "\<forall>b. node_at t (objects_dir (self t)) \<noteq> Some (File b)"
    by (auto simp: list_blobs_def each_loose_file_def bindE_eq map_err_eq run_atoms path_exists_def
        read_dir_def split: if_splits)
  then have list: "list_blobs s = (Inr (loose_hashes s (objects_dir (self s))), s)"
    using dirs by (intro list_blobs_eq [OF assms(2)]) (simp add: node_at_same [OF n(1)])
  have "packs_at s (pack_dir (self s)) = Inr ps"
    using ps dirs lookups_same(2) [OF n(1)] by simp
  note eq = plan_sweep_eq [OF assms(2) list this, of live]
  have "find (\<lambda>h. \<not> path_exists s (loose_path (self s) h)) (sorted_list_of_set (loose_set s - live)) = None"
    using there dirs loose lookups_same(1) [OF n(1)] by (auto simp: find_None_iff)
  with eq show ?thesis
    using plan alike_plan_of [OF assms(1)] loose dirs node_len_same [OF n] by simp
qed

section \<open>Opening, mark and sweep\<close>

text \<open>The world of a store that has just been opened.\<close>

definition opened :: "blob_store \<Rightarrow> disk \<Rightarrow> world" where
  "opened st d = disk.extend d (world.fields st)"

lemma opened_facts [simp]:
  "self (opened st d) = st" "nodes (opened st d) = nodes d" "pending (opened st d) = pending d"
  "dir_len (opened st d) = dir_len d" "node_at (opened st d) = node_at d"
  by (simp_all add: opened_def disk.extend_def world.fields_def node_at_def fun_eq_iff)

lemma truncate_facts [simp]: "nodes (disk.truncate w) = nodes w" "node_at (disk.truncate w) = node_at w"
  by (simp_all add: disk.truncate_def node_at_def fun_eq_iff)

lemma with_pack_cache_alike: "with_pack_cache f s = (q, u) \<Longrightarrow> alike s u"
proof -
  assume run: "with_pack_cache f s = (q, u)"
  have keep: "load_all dir s = (r, v) \<Longrightarrow> v = s" for dir r v
    using reads_load_all by (rule readsD)
  show ?thesis
    using run by (auto dest!: keep simp: with_pack_cache_def bindE_eq map_err_eq lock_eq run_atoms set_store_packs_def alike_def
        split: if_splits option.splits sum.splits)
qed

lemma mark_alike: "mark E roots s = (q, u) \<Longrightarrow> alike s u"
proof -
  assume run: "mark E roots s = (q, u)"
  have "list_blobs s = (r, v) \<Longrightarrow> v = s" for r v
    by (rule readsD [OF reads_list_blobs])
  moreover have "list_blobs_packed E s = (r, v) \<Longrightarrow> alike s v" for r v
    unfolding list_blobs_packed_def by (rule with_pack_cache_alike)
  moreover have "alike s s"
    by (simp add: alike_def)
  ultimately show ?thesis
    using run by (auto simp: mark_def bindE_eq run_atoms Let_def split: sum.splits)
qed

lemma reads_parse_roots: "reads (parse_roots E hst arg)"
proof -
  have "reads (fs_read p :: (disk, io_error, bytes) prog)" for p
    by (rule hoare)
  then show ?thesis
    unfolding parse_roots_def Let_def by (intro hoare)
qed

text \<open>The ways a run can go.\<close>

lemma run_gc_cases:
  assumes run: "run_gc E hst args d = (res, t)"
    and parts: "command_parts (cli_command args) = (cmd, roots_file, md)"
  obtains (unopened) e where "BlobStore_new (resolve hst (cli_root args)) d = (Inl e, t)"
      "res = Inl (cas_error_display (io_text E) e)"
  | (no_roots) st e where "BlobStore_new (resolve hst (cli_root args)) d = (Inr st, t)"
      "parse_roots E hst roots_file t = (Inl e, t)" "res = Inl e"
  | (failed) st d1 roots e u where "BlobStore_new (resolve hst (cli_root args)) d = (Inr st, d1)"
      "parse_roots E hst roots_file d1 = (Inr roots, d1)"
      "mark_and_sweep E roots md (opened st d1) = (Inl e, u)" "t = disk.truncate u"
      "res = Inl (cas_error_display (io_text E) e)"
  | (ran) st d1 roots ls report u where "BlobStore_new (resolve hst (cli_root args)) d = (Inr st, d1)"
      "parse_roots E hst roots_file d1 = (Inr roots, d1)"
      "mark_and_sweep E roots md (opened st d1) = (Inr (ls, report), u)" "t = disk.truncate u"
      "res = Inr (if cli_json args then print_json hst args cmd report (length (missing ls))
        else print_human hst args cmd report ls)"
proof -
  obtain q d1 where new: "BlobStore_new (resolve hst (cli_root args)) d = (q, d1)"
    by (cases "BlobStore_new (resolve hst (cli_root args)) d")
  note run = run [unfolded run_gc_def Let_def bindE_def map_err_def new parts on_store_def opened_def [symmetric]]
  show thesis
  proof (cases q)
    case (Inl e)
    with run new show thesis by (intro unopened [of e]) auto
  next
    case (Inr st)
    obtain p where roots: "parse_roots E hst roots_file d1 = (p, d1)"
      by (metis reads_parse_roots readsD surj_pair)
    show thesis
    proof (cases p)
      case (Inl e)
      with run new roots \<open>q = Inr st\<close> show thesis by (intro no_roots [of st e]) auto
    next
      case (Inr roots')
      obtain m u where ms: "mark_and_sweep E roots' md (opened st d1) = (m, u)"
        by (cases "mark_and_sweep E roots' md (opened st d1)")
      show thesis
      proof (cases m)
        case (Inl e)
        with run new roots ms Inr \<open>q = Inr st\<close> show thesis by (intro failed [of st d1 roots' e u]) auto
      next
        case (Inr x)
        obtain ls report where "x = (ls, report)" by (cases x)
        with run new roots ms Inr \<open>p = Inr roots'\<close> \<open>q = Inr st\<close> show thesis
          by (intro ran [of st d1 roots' ls report u]) (auto simp: run_atoms)
      qed
    qed
  qed
qed

lemma mark_and_sweep_cases:
  assumes "mark_and_sweep E roots md s = (res, t)"
  obtains (unmarked) e where "mark E roots s = (Inl e, t)" "res = Inl e"
  | (marked) ls u q where "mark E roots s = (Inr ls, u)"
      "sweep E (live_hashes ls) \<lparr>mode = md, rewrite_partial_packs = True\<rparr> u = (q, t)"
      "res = (case q of Inl e \<Rightarrow> Inl e | Inr report \<Rightarrow> Inr (ls, report))"
proof -
  obtain q u where mark: "mark E roots s = (q, u)"
    by (cases "mark E roots s")
  show thesis
  proof (cases q)
    case (Inl e)
    with assms mark show thesis by (intro unmarked [of e]) (auto simp: mark_and_sweep_def bindE_def)
  next
    case (Inr ls)
    obtain r v where "sweep E (live_hashes ls) \<lparr>mode = md, rewrite_partial_packs = True\<rparr> u = (r, v)"
      by (cases "sweep E (live_hashes ls) \<lparr>mode = md, rewrite_partial_packs = True\<rparr> u")
    with assms mark Inr show thesis
      by (intro marked [of ls u r]) (auto simp: mark_and_sweep_def bindE_def run_atoms split: sum.splits)
  qed
qed

lemma BlobStore_new_files: "BlobStore_new r d = (q, t) \<Longrightarrow> same_files {} d t"
proof -
  have "confined {} (BlobStore_new r)"
    unfolding BlobStore_new_def by (intro hoare confined_create_dir_all)
  then show "BlobStore_new r d = (q, t) \<Longrightarrow> same_files {} d t"
    by (rule upholdsD)
qed

section \<open>What \<open>mark\<close> and a dry run change\<close>

text \<open>
  C40. \<open>cas-gc mark\<close> and \<open>cas-gc sweep --dry-run\<close> change no file, whatever the result: every file has
  its bytes and its place, and no directory is gone (the one thing a run may add is the
  \<open>objects\<close> directory with the directories above it).
\<close>

theorem run_gc_dry_changes_nothing:
  assumes "command_parts (cli_command args) = (cmd, roots_file, DryRun)" and "run_gc E hst args d = (res, t)"
  shows "\<forall>q. (\<forall>b. node_at t q = Some (File b) \<longleftrightarrow> node_at d q = Some (File b)) \<and>
    (node_at d q = Some Dir \<longrightarrow> node_at t q = Some Dir)"
proof -
  have dry: "nodes u = nodes s" if run: "mark_and_sweep E roots DryRun s = (r, u)" for roots s r u
    using run
  proof (cases rule: mark_and_sweep_cases)
    case (unmarked e)
    from mark_alike [OF this(1)] show ?thesis by (simp add: alike_def)
  next
    case (marked ls v q)
    have "u = v"
      using marked(2) by (cases rule: sweep_cases) auto
    with mark_alike [OF marked(1)] show ?thesis by (simp add: alike_def)
  qed
  from assms(2,1) have "\<exists>d1 q. BlobStore_new (resolve hst (cli_root args)) d = (q, d1) \<and> node_at t = node_at d1"
  proof (cases rule: run_gc_cases)
    case (failed st d1 roots e u)
    then show ?thesis using node_at_same [OF dry [OF failed(3)]] by simp
  next
    case (ran st d1 roots ls report u)
    then show ?thesis using node_at_same [OF dry [OF ran(3)]] by simp
  qed auto
  then show ?thesis
    using BlobStore_new_files by (metis empty_iff same_files_def)
qed

theorem run_gc_dry_changes_nothing_witness:
  "\<forall>b. node_at (snd (run_gc (toy_env False)
      \<lparr>resolve = (\<lambda>a. [a]), stdin = []\<rparr> \<lparr>cli_root = ''r'', cli_json = True, cli_command = MarkCmd ''-''\<rparr>
      (disk.truncate toy_gc))) toy_pack_path = Some (File b) \<longleftrightarrow> toy_pd = b"
proof -
  let ?args = "\<lparr>cli_root = ''r'', cli_json = True, cli_command = MarkCmd ''-''\<rparr>"
  have "command_parts (cli_command ?args) = (''mark'', ''-'', DryRun)"
    by (simp add: command_parts_def)
  from run_gc_dry_changes_nothing [OF this prod.collapse [symmetric], of "toy_env False"
      "\<lparr>resolve = (\<lambda>a. [a]), stdin = []\<rparr>" "disk.truncate toy_gc"]
  show ?thesis
    by (simp add: toy_node_at)
qed

section \<open>A run loses no root\<close>

lemma loose_listed:
  assumes "tree s" and "wf_disk s" and "loose_serves E s (loose_at (root (self s)) h) h data"
  shows "h \<in> loose_set s"
proof -
  let ?dir = "objects_dir (self s)" and ?x = "take 2 (to_hex h)" and ?y = "drop 2 (to_hex h)"
  obtain b where file_at: "node_at s (?dir @ [?x, ?y]) = Some (File b)"
    using assms(3) by (auto simp: loose_serves_def loose_at_def objects_dir_def)
  then have bucket: "node_at s (?dir @ [?x]) = Some Dir"
    using treeD [OF assms(1), of "?dir @ [?x]" ?y] by simp
  then have dir: "node_at s ?dir = Some Dir"
    using treeD [OF assms(1), of ?dir ?x] by (simp add: objects_dir_def)
  have "is_file_node (node_at s (?dir @ [?x, ?y]))"
    by (simp add: file_at)
  then show ?thesis
    unfolding loose_set_def mem_loose_hashes [OF assms(2) dir]
    using bucket bucket_not_pack [of h] named_hash_canonical [of h] by blast
qed

lemma pack_listed:
  assumes "tree s" and "wf_disk s" and "packs_at s (pack_dir (self s)) = Inr ps"
    and "is_pack_name name" and "pack_serves E s (pack_dir (self s) @ [name]) h data"
  shows "h \<in> packed_set s ps"
proof -
  let ?p = "pack_dir (self s) @ [name]"
  have p: "path_exists s ?p" "indexed s ?p"
    using pack_serves_exists [OF assms(5)] by blast+
  then obtain n where "node_at s ?p = Some n"
    by (auto simp: path_exists_def)
  then have "node_at s (pack_dir (self s)) = Some Dir"
    using treeD [OF assms(1)] by (simp add: pack_dir_def)
  with p(1) assms(4) have "?p \<in> set ps"
    unfolding mem_packs_at [OF assms(2,3)] by blast
  with p(2) pack_serves_mem [OF assms(5)] show ?thesis
    by (auto simp: packed_set_def)
qed

text \<open>The live set of a store that has not read its packs yet.\<close>

lemma fresh_cache:
  assumes "with_pack_cache f s = (Inr x, u)" and "guarded (store_packs (self s)) = None"
  obtains ps cache where "packs_at s (pack_dir (self s)) = Inr ps" and "caches s ps cache" and "x = f cache"
proof -
  obtain cache v where load: "load_all (pack_dir (self s)) s = (Inr cache, v)" and x: "x = f cache"
    using assms by (auto simp: with_pack_cache_def bindE_eq map_err_eq lock_eq run_atoms split: if_splits option.splits)
  obtain ps where "packs_at s (pack_dir (self s)) = Inr ps" "caches s ps cache"
    by (rule load_all_ok [OF load])
  with x that show thesis by blast
qed

lemma mark_live:
  assumes run: "mark E roots s = (Inr ls, u)" and wf: "wf_disk s" and order: "map_order_ok E"
    and none: "guarded (store_packs (self s)) = None"
  obtains ps where "packs_at s (pack_dir (self s)) = Inr ps"
    and "live_hashes ls = {h \<in> roots. h \<in> loose_set s \<union> packed_set s ps}"
proof -
  obtain loose packed v where list: "list_blobs s = (Inr loose, s)" and packed: "list_blobs_packed E s = (Inr packed, v)"
    and live: "live_hashes ls = {h \<in> roots. h \<in> set loose \<union> set packed}"
    using run readsD [OF reads_list_blobs] by (fastforce simp: mark_def bindE_eq run_atoms Let_def)
  obtain ps cache where ps: "packs_at s (pack_dir (self s)) = Inr ps" "caches s ps cache" "packed = all_hashes E cache"
    using packed unfolding list_blobs_packed_def by (rule fresh_cache [OF _ none])
  with live caches_hashes [OF order ps(2)] list_blobs_ok(1) [OF wf list] that show thesis
    by (simp add: loose_set_def)
qed

lemma mark_and_sweep_keeps:
  assumes "mark_and_sweep E roots md (opened st d) = (q, u)"
    and "codec_ok E" and "map_order_ok E" and "tree d" and "guarded (store_packs st) = None"
    and "sound_store E roots (opened st d)"
    and "\<forall>ps plan. packs_at d (pack_dir st) = Inr ps \<and>
      plan_sweep {h \<in> roots. h \<in> loose_set (opened st d) \<union> packed_set d ps} (opened st d) = (Inr plan, opened st d) \<longrightarrow>
      fresh_replacements E (opened st d) plan"
    and "h \<in> roots" and "held E d (root st) h data"
  shows "\<exists>data'. held E u (root st) h data' \<and> hash_bytes E data' = h"
proof -
  let ?s = "opened st d"
  from assms(1) show ?thesis
  proof (cases rule: mark_and_sweep_cases)
    case (unmarked e)
    have "held E u (root st) h data"
      using assms(9) pack_facts_same(9) [of u d] mark_alike [OF unmarked(1)] by (simp add: alike_def)
    then show ?thesis
      using held_hash by blast
  next
    case (marked ls v r)
    have alike: "alike ?s v"
      by (rule mark_alike [OF marked(1)])
    have wf: "wf_disk ?s"
      using assms(6) by (simp add: sound_store_def)
    have none: "guarded (store_packs (self ?s)) = None"
      using assms(5) by simp
    obtain ps where ps: "packs_at ?s (pack_dir (self ?s)) = Inr ps"
      and live: "live_hashes ls = {h \<in> roots. h \<in> loose_set ?s \<union> packed_set ?s ps}"
      by (rule mark_live [OF marked(1) wf assms(3) none])
    have tree: "tree ?s"
      using assms(4) by (simp add: tree_def)
    have held: "held E ?s (root (self ?s)) h data"
      using assms(9) pack_facts_same(9) [of ?s d] by simp
    have "h \<in> loose_set ?s \<union> packed_set ?s ps"
      using held loose_listed [OF tree wf] pack_listed [OF tree wf ps]
      by (fastforce simp: held_def pack_dir_def)
    then have "h \<in> live_hashes ls"
      using live assms(8) by simp
    moreover have "live_hashes ls \<subseteq> roots"
      using live by blast
    moreover from this have "sound_store E (live_hashes ls) v"
      using alike_sound [OF alike] sound_mono assms(6) by blast
    moreover have "\<forall>plan. plan_sweep (live_hashes ls) v = (Inr plan, v) \<longrightarrow> fresh_replacements E v plan"
    proof (intro allI impI)
      fix plan
      assume "plan_sweep (live_hashes ls) v = (Inr plan, v)"
      then have "plan_sweep (live_hashes ls) ?s = (Inr plan, ?s)"
        by (rule alike_plan [OF alike wf])
      moreover have "packs_at d (pack_dir st) = Inr ps" "packed_set ?s = packed_set d"
        using ps lookups_same(2) [of ?s d] pack_facts_same(3) [of ?s d] by simp_all
      ultimately have "fresh_replacements E ?s plan"
        using assms(7) live by simp
      then show "fresh_replacements E v plan"
        by (rule alike_fresh [OF alike])
    qed
    moreover have "held E v (root (self v)) h data"
      using held pack_facts_same(9) [of v ?s] alike by (simp add: alike_def)
    ultimately show ?thesis
      using sweep_keeps_held [OF assms(2) _ _ _ _ marked(2)] alike by (simp add: alike_def)
  qed
qed

text \<open>
  C5. A whole run of \<open>cas-gc\<close> loses no root. On a disk with any faults, for every command and
  whether the run succeeds or fails, a blob that is named in the roots file and that the store
  held before is held after it.
\<close>

theorem run_gc_keeps_roots:
  assumes "codec_ok E" and "map_order_ok E" and "tree d"
    and "command_parts (cli_command args) = (cmd, roots_file, md)"
    and "BlobStore_new (resolve hst (cli_root args)) d = (Inr st, d)"
    and "parse_roots E hst roots_file d = (Inr roots, d)"
    and "sound_store E roots (opened st d)"
    and "\<forall>ps plan. packs_at d (pack_dir st) = Inr ps \<and>
      plan_sweep {h \<in> roots. h \<in> loose_set (opened st d) \<union> packed_set d ps} (opened st d) = (Inr plan, opened st d) \<longrightarrow>
      fresh_replacements E (opened st d) plan"
    and "h \<in> roots" and "held E d (root st) h data" and "run_gc E hst args d = (res, t)"
  shows "\<exists>data'. held E t (root st) h data' \<and> hash_bytes E data' = h"
proof -
  have "guarded (store_packs st) = None"
    using assms(5) by (auto simp: BlobStore_new_def bindE_eq map_err_eq run_atoms)
  note keep = mark_and_sweep_keeps [OF _ assms(1-3) this assms(7-10)]
  from assms(11,4) show ?thesis
  proof (cases rule: run_gc_cases)
    case (failed st' d1 roots' e u)
    with assms(5,6) keep [of md "Inl e" u] pack_facts_same(9) [of t u] show ?thesis by simp
  next
    case (ran st' d1 roots' ls report u)
    with assms(5,6) keep [of md "Inr (ls, report)" u] pack_facts_same(9) [of t u] show ?thesis by simp
  qed (use assms(5,6) in auto)
qed

text \<open>
  One pack index that cannot be read stops the command line tool. The planner reports such a
  pack as unreadable and leaves it alone, but \<open>cas-gc\<close> marks first, and mark reads the packs
  through the store's cache, which loads every index or none: the run ends with an error, and
  neither report with its list of unreadable packs is printed.
\<close>

theorem run_gc_fails_on_unreadable_index:
  assumes "command_parts (cli_command args) = (cmd, roots_file, md)"
    and "BlobStore_new (resolve hst (cli_root args)) d = (Inr st, d)"
    and "parse_roots E hst roots_file d = (Inr roots, d)" and "wf_disk d"
    and "packs_at d (pack_dir st) = Inr ps" and "p \<in> set ps" and "has_idx d p" and "idx_of d p = Inl e"
  shows "\<exists>e' t. run_gc E hst args d = (Inl (cas_error_display (io_text E) (Pack e')), t) \<and> node_at t = node_at d"
proof -
  let ?s = "opened st d"
  have none: "store_packs (self ?s) = Mutex False None" and dir: "node_at ?s (objects_dir (self ?s)) = Some Dir"
    using assms(2) create_dir_all_ok by (auto simp: BlobStore_new_def bindE_eq map_err_eq run_atoms objects_dir_def)
  have same: "nodes ?s = nodes d" by simp
  have facts: "packs_at ?s (pack_dir (self ?s)) = Inr ps" "has_idx ?s p" "idx_of ?s p = Inl e" "wf_disk ?s"
    using assms(4,5,7,8) lookups_same [OF same] reads_same(1) [OF same] by (simp_all add: idx_of_def)
  obtain e' where load: "load_all (pack_dir (self ?s)) ?s = (Inl e', ?s)"
    by (rule load_all_fails [OF facts(1) assms(6) facts(2,3)])
  have "mark E roots ?s = (Inl (Pack e'), ?s)"
    using none load dir
    by (simp add: mark_def bindE_def list_blobs_eq [OF facts(4)] list_blobs_packed_def with_pack_cache_def run_simps map_err_def)
  then have ms: "mark_and_sweep E roots md ?s = (Inl (Pack e'), ?s)"
    by (simp add: mark_and_sweep_def bindE_def)
  obtain r t where run: "run_gc E hst args d = (r, t)"
    by (cases "run_gc E hst args d")
  from run assms(1) have "r = Inl (cas_error_display (io_text E) (Pack e')) \<and> node_at t = node_at d"
  proof (cases rule: run_gc_cases)
    case (failed st' d1 roots' e u)
    with assms(2,3) ms show ?thesis by auto
  next
    case (ran st' d1 roots' ls report u)
    with assms(2,3) ms show ?thesis by auto
  qed (use assms(2,3) in auto)
  with run show ?thesis by blast
qed

text \<open>The tool started in the parent directory of the store, with the roots on standard input.\<close>

definition toy_host :: host where
  "toy_host = \<lparr>resolve = (\<lambda>a. [a]), stdin = map of_char (to_hex (hash_of [1]) @ [LF] @ to_hex (hash_of [3]) @ [LF])\<rparr>"

definition toy_sweep_args :: cli where
  "toy_sweep_args = \<lparr>cli_root = ''r'', cli_json = False,
     cli_command = SweepCmd ''-'' \<lparr>dry_run = False, apply_sweep = True\<rparr> True\<rparr>"

lemma toy_args: "command_parts (cli_command toy_sweep_args) = (''sweep'', ''-'', Delete)"
  "resolve toy_host (cli_root toy_sweep_args) = [''r'']"
  by (simp_all add: toy_sweep_args_def toy_host_def command_parts_def sweep_mode_of_def)

lemma toy_roots: "parse_roots E toy_host ''-'' d = (Inr {hash_of [1], hash_of [3]}, d)"
proof -
  have "names_stdin ''-''"
    by code_simp
  moreover have "lines_of (text_of (stdin toy_host)) = map to_hex [hash_of [1], hash_of [3]]"
    by code_simp
  moreover have "\<forall>line \<in> set (map to_hex [hash_of [1], hash_of [3]]). \<not> bad_line line"
    by (auto simp: bad_line_def hex_line)
  from parse_lines_good [OF this]
  have "parse_lines shown 0 (map to_hex [hash_of [1], hash_of [3]]) {} = Inr {hash_of [1], hash_of [3]}" for shown
    by (auto simp: hex_line)
  ultimately show ?thesis
    by (simp add: parse_roots_def Let_def bind_pure run_atoms)
qed

lemma toy_opening:
  assumes "node_at d [''r'', ''objects''] = Some Dir"
  obtains st where "BlobStore_new [''r''] d = (Inr st, d)" and "root st = [''r'']" and "pack_dir st = [''r'', ''objects'', ''pack'']"
  using assms by (simp add: BlobStore_new_def bindE_def map_err_def create_dir_all_def run_atoms pack_dir_def)

theorem run_gc_keeps_roots_witness:
  "\<exists>data. held (toy_env False) (snd (run_gc (toy_env False) toy_host toy_sweep_args (disk.truncate toy_gc)))
     [''r''] (hash_of [1]) data \<and> hash_bytes (toy_env False) data = hash_of [1]"
proof -
  let ?d = "disk.truncate toy_gc"
  have dir: "node_at ?d [''r'', ''objects''] = Some Dir"
    by (simp add: toy_node_at)
  obtain st where st: "BlobStore_new [''r''] ?d = (Inr st, ?d)" "root st = [''r'']" "pack_dir st = [''r'', ''objects'', ''pack'']"
    by (rule toy_opening [OF dir])
  have alike: "alike toy_gc (opened st ?d)" and alike': "alike (opened st ?d) toy_gc"
    using st(2) by (simp_all add: alike_def disk.truncate_def)
  have roots: "{hash_of [1], hash_of [3]} = toy_live"
    by (simp add: toy_live_def)
  have tree: "tree ?d"
    unfolding tree_def
  proof (intro allI impI)
    fix p n
    assume "node_at ?d p = Some n \<and> butlast p \<noteq> []"
    then have "(p, n) \<in> set (nodes toy_gc)" "butlast p \<noteq> []"
      using map_of_SomeD by (fastforce simp: node_at_def)+
    then have "butlast p \<in> {[''r''], [''r'', ''objects''], [''r'', ''objects'', ''pack''], [''r'', ''objects'', ''03''], [''r'', ''objects'', ''04'']}"
      by (auto simp: toy_paths)
    then show "node_at ?d (butlast p) = Some Dir"
      by (auto simp: node_at_def toy_paths)
  qed
  have fresh: "\<forall>ps plan. packs_at ?d (pack_dir st) = Inr ps \<and>
      plan_sweep {h \<in> {hash_of [1], hash_of [3]}. h \<in> loose_set (opened st ?d) \<union> packed_set ?d ps} (opened st ?d) =
        (Inr plan, opened st ?d) \<longrightarrow> fresh_replacements (toy_env False) (opened st ?d) plan"
  proof (intro allI impI, elim conjE)
    fix ps plan
    assume "packs_at ?d (pack_dir st) = Inr ps"
    then have "ps = [toy_pack_path]"
      using toy_packs lookups_same(2) [of ?d toy_gc] st(3) by simp
    then have "{h \<in> {hash_of [1], hash_of [3]}. h \<in> loose_set (opened st ?d) \<union> packed_set ?d ps} = toy_live"
      using alike_loose_set [OF alike] pack_facts_same(3) [of ?d toy_gc] toy_loose_set toy_packed_set
      by (auto simp: toy_live_def)
    moreover assume "plan_sweep {h \<in> {hash_of [1], hash_of [3]}. h \<in> loose_set (opened st ?d) \<union> packed_set ?d ps} (opened st ?d) =
        (Inr plan, opened st ?d)"
    ultimately have "plan_sweep toy_live toy_gc = (Inr plan, toy_gc)"
      using alike_plan [OF alike toy_gc_wf] by simp
    then show "fresh_replacements (toy_env False) (opened st ?d) plan"
      using toy_fresh alike_fresh [OF alike] by blast
  qed
  have sound: "sound_store (toy_env False) {hash_of [1], hash_of [3]} (opened st ?d)"
    using alike_sound [OF alike toy_sound] by (simp add: roots)
  have "pack_serves (toy_env False) toy_gc toy_pack_path (hash_of [1]) [1]"
    by (rule toy_pack_serves) (simp add: toy_objects_def)
  moreover have "is_pack_name (''p'' @ ''.pack'')"
    by code_simp
  ultimately have "held (toy_env False) toy_gc [''r''] (hash_of [1]) [1]"
    by (auto simp: held_def toy_pack_path_def)
  then have held: "held (toy_env False) ?d (root st) (hash_of [1]) [1]"
    using pack_facts_same(9) [of ?d toy_gc] st(2) by simp
  have new: "BlobStore_new (resolve toy_host (cli_root toy_sweep_args)) ?d = (Inr st, ?d)"
    by (simp add: toy_args st(1))
  from run_gc_keeps_roots [OF toy_codec toy_map_order tree toy_args(1) new toy_roots sound fresh _ held prod.collapse [symmetric]]
  show ?thesis by (simp add: st(2))
qed

end
