(* ===== verification/Machine.thy ===== *)
theory Machine
  imports RunSpec
begin

text \<open>
  The store as a state machine: any sequence of calls of its methods and of the collector, of
  switches of the verification of reads, and of any changes that others make to the files in
  between. Two relations are shown to be respected by every call: the invariant of the store object,
  and the shape of the disk.
\<close>

section \<open>Calls\<close>

datatype store_call =
    PutBlob bytes
  | PutBlobNew bytes
  | PutBlobWithHash bytes hash
  | GetBlob hash
  | HasBlob hash
  | DeleteBlob hash
  | BlobCount
  | TotalSize
  | ListBlobs
  | GetBlobPacked hash
  | HasBlobPacked hash
  | ListBlobsPacked
  | InvalidatePackCache
  | Repack nat
  | Mark "hash set"
  | PlanSweep "hash set"
  | Sweep "hash set" sweep_options

text \<open>The world after a call, whatever its result.\<close>

fun after :: "env \<Rightarrow> store_call \<Rightarrow> world \<Rightarrow> world" where
  "after E (PutBlob data) s = snd (put_blob E data s)"
| "after E (PutBlobNew data) s = snd (put_blob_new E data s)"
| "after E (PutBlobWithHash data h) s = snd (put_blob_with_hash E data h s)"
| "after E (GetBlob h) s = snd (get_blob E h s)"
| "after E (HasBlob h) s = snd (has_blob E h s)"
| "after E (DeleteBlob h) s = snd (delete_blob h s)"
| "after E BlobCount s = snd (blob_count s)"
| "after E TotalSize s = snd (total_size s)"
| "after E ListBlobs s = snd (list_blobs s)"
| "after E (GetBlobPacked h) s = snd (get_blob_packed E h s)"
| "after E (HasBlobPacked h) s = snd (has_blob_packed E h s)"
| "after E ListBlobsPacked s = snd (list_blobs_packed E s)"
| "after E InvalidatePackCache s = snd ((invalidate_pack_cache :: unit store_prog) s)"
| "after E (Repack threshold) s = snd (repack E threshold s)"
| "after E (Mark roots) s = snd (mark E roots s)"
| "after E (PlanSweep live) s = snd (plan_sweep live s)"
| "after E (Sweep live options) s = snd (sweep E live options s)"

text \<open>
  A history of a store object: it is opened; then its methods and the collector are called,
  \<open>set_verify_on_read\<close> switches the verification off or on, and the files and the coming faults are
  changed by anyone else: another process, a user, a crash that tore a write. The flag of
  \<open>reachable E r v s\<close> records whether verification has been on all the time: a store opens with
  verification on, and one switch to off makes the flag false for good.
\<close>

inductive reachable :: "env \<Rightarrow> path \<Rightarrow> bool \<Rightarrow> world \<Rightarrow> bool" for E r where
  initial: "BlobStore_new r d = (Inr st, d') \<Longrightarrow> reachable E r True (opened st d')"
| uncompressed: "new_uncompressed r d = (Inr st, d') \<Longrightarrow> reachable E r True (opened st d')"
| call: "reachable E r v s \<Longrightarrow> reachable E r v (after E c s)"
| switch: "reachable E r v s \<Longrightarrow> reachable E r (v \<and> on) (s\<lparr>self := set_verify_on_read on (self s)\<rparr>)"
| others: "reachable E r v s \<Longrightarrow> reachable E r v (s\<lparr>nodes := ns, pending := fs, dir_len := n\<rparr>)"

section \<open>Relations that every call respects\<close>

text \<open>
  A relation between states that the operations of \<open>std::fs\<close> respect is respected by everything that
  is built from them and does not touch the store's own fields: writing a pack and the four phases of a sweep.
  Rules of the shape \<open>upholds R m\<close> compose, so each operation is one line.
\<close>

locale disk_relation = state_preorder R for R :: "world \<Rightarrow> world \<Rightarrow> bool" +
  assumes rel_create_dir_all [hoare]: "upholds R (create_dir_all p)"
    and rel_fs_write [hoare]: "upholds R (fs_write p b)"
    and rel_fs_remove_file [hoare]: "upholds R (fs_remove_file p)"
    and rel_fs_rename [hoare]: "upholds R (fs_rename p q)"
begin

lemma rel_reads [hoare]:
  "upholds R (fs_read p)" "upholds R (metadata_len p)" "upholds R (read_dir p)" "upholds R (load_all p)"
  "upholds R (PackIndex_load p)" "upholds R (PackFile_read_blob E p index h)" "upholds R (lock field)"
  "upholds R (file_len p)" "upholds R list_blobs" "upholds R blob_count" "upholds R total_size"
  "upholds R (plan_sweep live)" "upholds R (pair_saving rw pair)"
  by (rule resp_reads, rule hoare)+

lemma rel_write_blob [hoare]: "upholds R (write_blob E p data)"
  unfolding write_blob_def by (intro hoare)

lemma rel_delete_blob [hoare]: "upholds R (delete_blob h)"
  unfolding delete_blob_def by (intro hoare)

lemma rel_PackFile_create [hoare]: "upholds R (PackFile_create E dir objects)"
  unfolding PackFile_create_def write_pack_pair_def Let_def by (intro hoare)

lemma rel_remove_or_trash [hoare]: "upholds R (remove_or_trash md trash_root p)"
  unfolding remove_or_trash_def by (cases md) (simp_all, (intro hoare)+)

lemma rel_rewrite_one [hoare]: "upholds R (rewrite_one E dir rw acc)"
  unfolding rewrite_one_def read_kept_def by (cases acc) (simp, intro hoare)

lemma rel_remove_pack [hoare]: "upholds R (remove_pack md trash_root p acc)"
  unfolding remove_pack_def remove_if_there_def by (cases acc) (simp, intro hoare)

lemma rel_phases [hoare]:
  "upholds R (rewrite_phase E options dir plan)" "upholds R (loose_phase md trash_root st plan n)"
  "upholds R (orphan_phase md trash_root plan n)" "upholds R (pack_phase md trash_root options plan n)"
  unfolding rewrite_phase_def loose_phase_def orphan_phase_def pack_phase_def by (intro hoare)+

end

text \<open>
  Every call is built from these, from the assignments to the guarded fields, and from \<open>get_blob\<close>.
\<close>

locale store_relation = disk_relation R for R :: "world \<Rightarrow> world \<Rightarrow> bool" +
  fixes E :: env
  assumes rel_set_known_dirs [hoare]: "upholds R (set_known_dirs k :: unit store_prog)"
    and rel_set_store_packs [hoare]: "upholds R (set_store_packs c :: unit store_prog)"
    and rel_get_blob [hoare]: "upholds R (get_blob E h)"
begin

lemma rel_ensure_parent_dir [hoare]: "upholds R (ensure_parent_dir p)"
  unfolding ensure_parent_dir_def by (intro hoare)

lemma rel_puts [hoare]:
  "upholds R (put_blob E data)" "upholds R (put_blob_new E data)" "upholds R (put_blob_with_hash E data h)"
  unfolding put_blob_def put_blob_new_def put_blob_with_hash_def by (intro hoare)+

lemma rel_pack_cache [hoare]: "upholds R (with_pack_cache f)" "upholds R invalidate_pack_cache"
  unfolding with_pack_cache_def invalidate_pack_cache_def by (intro hoare)+

lemma rel_queries [hoare]:
  "upholds R (get_blob_packed E h)" "upholds R (has_blob_packed E h)" "upholds R (list_blobs_packed E)"
  unfolding get_blob_packed_def has_blob_packed_def list_blobs_packed_def by (intro hoare)+

lemma rel_marks [hoare]: "upholds R (has_blob E h)" "upholds R (mark E roots)"
  unfolding has_blob_def mark_def by (intro hoare)+

lemma rel_repack [hoare]: "upholds R (repack E threshold)"
  unfolding repack_def by (intro hoare)

lemma rel_sweep [hoare]: "upholds R (sweep E live options)"
  unfolding sweep_def execute_plan_def Let_def by (intro hoare)

lemma rel_snd: "upholds R m \<Longrightarrow> R s (snd (m s))"
  using upholdsD [OF _ prod.collapse [symmetric]] .

lemma rel_after: "R s (after E c s)"
  by (cases c) (simp_all only: after.simps, (rule rel_snd, rule hoare)+)

end

section \<open>The invariant of the store object\<close>

text \<open>What holds of a store object, and what also holds while verification has been on.\<close>

definition store_inv :: "env \<Rightarrow> path \<Rightarrow> bool \<Rightarrow> blob_store \<Rightarrow> bool" where
  "store_inv E r v st \<longleftrightarrow>
     root st = r \<and>
     distinct (map fst (guarded (blob_cache st))) \<and> length (guarded (blob_cache st)) \<le> BLOB_CACHE_CAPACITY \<and>
     (v \<longrightarrow> verify_on_read st \<and> (\<forall>(h, data) \<in> set (guarded (blob_cache st)). hash_bytes E data = h))"

definition keeps_store :: "env \<Rightarrow> path \<Rightarrow> bool \<Rightarrow> world \<Rightarrow> world \<Rightarrow> bool" where
  "keeps_store E r v s t \<longleftrightarrow> (store_inv E r v (self s) \<longrightarrow> store_inv E r v (self t))"

lemma keeps_store_self: "preserves self m \<Longrightarrow> upholds (keeps_store E r v) m"
  by (erule upholds_mono) (simp add: keeps_store_def)

lemma store_inv_cache:
  "store_inv E r v (self s) \<longleftrightarrow> root (self s) = r \<and> cache_bounded s \<and> (v \<longrightarrow> cache_true E s)"
  by (auto simp: store_inv_def cache_true_def cache_bounded_def)

lemma keeps_store_get_blob: "upholds (keeps_store E r v) (get_blob E h)"
proof (rule upholdsI)
  fix s q t
  assume run: "get_blob E h s = (q, t)"
  have "same_config (self s) (self t)"
    using upholdsD [OF changes_only_get_blob [of "{}"] run] by (rule store_step_config)
  then show "keeps_store E r v s t"
    using upholdsD [OF keeps_cache_true_get_blob run] upholdsD [OF keeps_cache_bounded_get_blob run]
    by (simp add: keeps_store_def store_inv_cache same_config_def)
qed

lemma preserves_self_rename: "preserves self (fs_rename p q :: (world, io_error, unit) prog)"
  by (rule upholds_mono [OF frames_fs_rename]) (auto simp: touches_def dest: more_self)

interpretation self_kept: disk_relation "\<lambda>s t. self t = self s"
  by unfold_locales (auto intro: preserves_self_rename preserves_self_disk [of UNIV] hoare)

interpretation invariant: store_relation "keeps_store E r v" E for E r v
proof unfold_locales
  show "upholds (keeps_store E r v) (set_known_dirs k :: unit store_prog)"
    "upholds (keeps_store E r v) (set_store_packs c :: unit store_prog)" for k c
    by (auto intro!: upholdsI simp: set_known_dirs_def set_store_packs_def run_atoms keeps_store_def store_inv_def)
qed (auto simp: keeps_store_def intro!: keeps_store_self keeps_store_get_blob preserves_self_rename
    preserves_self_disk [of "UNIV"] hoare)

section \<open>Every reachable state\<close>

lemma opened_inv:
  "BlobStore_new r d = (Inr st, d') \<Longrightarrow> store_inv E r v st"
  "new_uncompressed r d = (Inr st, d') \<Longrightarrow> store_inv E r v st"
  by (auto simp: new_uncompressed_def BlobStore_new_def bindE_eq map_err_eq run_atoms store_inv_def BLOB_CACHE_CAPACITY_def)

lemma reachable_inv: "reachable E r v s \<Longrightarrow> store_inv E r v (self s)"
proof (induction rule: reachable.induct)
  case (call v s c)
  then show ?case
    using invariant.rel_after [of E r v s c] by (simp add: keeps_store_def)
next
  case (switch v s on)
  then show ?case
    by (cases on) (auto simp: store_inv_def set_verify_on_read_def)
qed (simp_all add: opened_inv)

text \<open>
  Where wrong data can come from: with verification on, only from the cache.
\<close>

lemma get_blob_source:
  assumes "get_blob E h s = (Inr data, t)"
  shows "hash_bytes E data = h \<or> \<not> verify_on_read (self s) \<or> cached s h = Some data"
  using assms
proof (cases rule: get_blob_cases)
  case (miss u)
  then show ?thesis
    using get_blob_miss_hash by blast
qed auto

text \<open>
  C4. The invariant of a store object, over every history. However the calls of the store and of
  the collector are ordered, whatever faults they meet, whatever anyone else does to the files
  between them, and however verification is switched: the store keeps its root, its cache holds at
  most 1024 blobs and no digest twice. If verification has never been switched off, every cached
  blob has its own digest and every \<open>get_blob\<close> that returns data returns data of the digest asked
  for. In every other history that can only fail while verification is off, or, when it is on
  again, for bytes that are still in the cache (\<open>unverified_read_lingers\<close>).
\<close>

theorem reachable_reads_verified:
  assumes "reachable E r v s"
  shows "store_inv E r v (self s) \<and>
    (\<forall>h data t. get_blob E h s = (Inr data, t) \<longrightarrow>
       (v \<longrightarrow> hash_bytes E data = h) \<and>
       (hash_bytes E data = h \<or> \<not> verify_on_read (self s) \<or> cached s h = Some data))"
  using reachable_inv [OF assms] get_blob_hash get_blob_source store_inv_cache by blast

text \<open>A history: open, put, damage of the file by someone else.\<close>

lemma toy_history:
  obtains t where "reachable (toy_env True) [''r''] True t" and "nodes t = []"
proof -
  let ?d = "disk.truncate (toy_world True [])"
  obtain st where "BlobStore_new [''r''] ?d = (Inr st, ?d)"
    by (simp add: BlobStore_new_def bindE_def map_err_def create_dir_all_def node_at_def toy_dirs_def run_atoms
        disk.truncate_def toy_world_def)
  then have "reachable (toy_env True) [''r''] True (opened st ?d)"
    by (rule reachable.initial)
  then have "reachable (toy_env True) [''r''] True (after (toy_env True) (PutBlob [7]) (opened st ?d))" (is "reachable _ _ _ ?u")
    by (rule reachable.call)
  then have "reachable (toy_env True) [''r''] True (?u\<lparr>nodes := [], pending := [], dir_len := 0\<rparr>)"
    by (rule reachable.others)
  then show thesis by (rule that) simp
qed

theorem reachable_reads_verified_witness:
  "\<exists>t. reachable (toy_env True) [''r''] True t \<and> verify_on_read (self t) \<and>
     length (guarded (blob_cache (self t))) \<le> 1024"
proof -
  obtain t where t: "reachable (toy_env True) [''r''] True t"
    by (rule toy_history)
  from reachable_reads_verified [OF this] t show ?thesis
    by (auto simp: store_inv_def BLOB_CACHE_CAPACITY_def)
qed

text \<open>
  Bytes that were read while verification was off stay in the cache and are returned for the digest
  after it has been switched on again: a hit is not verified.
\<close>

lemma unverified_read_lingers:
  assumes "\<not> verify_on_read (self s)" and "\<not> poisoned (blob_cache (self s))" and "cached s h = None"
    and "node_at s (blob_path (self s) h) = Some (File raw)" and "unpack_loose E raw = Inr data"
  shows "\<exists>t u. get_blob E h s = (Inr data, t) \<and>
    get_blob E h (t\<lparr>self := set_verify_on_read True (self t)\<rparr>) = (Inr data, u)"
proof -
  let ?t = "s\<lparr>self := (self s)\<lparr>blob_cache := Mutex False (cache_insert h data (guarded (blob_cache (self s))))\<rparr>\<rparr>"
  let ?u = "?t\<lparr>self := set_verify_on_read True (self ?t)\<rparr>"
  have "get_blob E h s = (Inr data, ?t)"
    using assms by (simp add: get_blob_unhit get_blob_miss_there path_exists_def get_blob_loose_eq bindE_def
        cache_blob_eq run_simps)
  moreover have "cached ?u h = Some data" and "\<not> poisoned (blob_cache (self ?u))"
    by (simp_all add: cached_def cache_insert_def set_verify_on_read_def)
  then obtain v where "get_blob E h ?u = (Inr data, v)"
    using get_blob_hit by metis
  ultimately show ?thesis by blast
qed

section \<open>The disk stays a tree\<close>

lemma well_formed_sets:
  "keeps well_formed (set_known_dirs k :: unit store_prog)" "keeps well_formed (set_store_packs c :: unit store_prog)"
  "keeps well_formed (set_blob_cache b :: unit store_prog)"
  by (auto intro!: upholdsI simp: set_known_dirs_def set_store_packs_def set_blob_cache_def run_atoms
      elim!: well_formed_nodes [rotated])

lemma well_formed_reads:
  "keeps well_formed (fs_read p)" "keeps well_formed (load_all p)" "keeps well_formed (PackIndex_load p)"
  "keeps well_formed (PackFile_read_blob E p index h)" "keeps well_formed (lock field)"
  by (rule keeping.resp_reads, rule hoare)+

lemma well_formed_get_blob: "keeps well_formed (get_blob E h)"
  unfolding get_blob_def get_blob_miss_def get_blob_loose_def get_blob_packed_def with_pack_cache_def cache_blob_def Let_def
  by (intro hoare well_formed_sets well_formed_reads)

interpretation shape: store_relation "\<lambda>s t. well_formed s \<longrightarrow> well_formed t" E for E
  by unfold_locales (rule well_formed_create_dir_all well_formed_fs_write well_formed_fs_remove_file
      well_formed_fs_rename well_formed_sets well_formed_get_blob)+

lemma toy_tree: "tree toy_gc"
  by (auto simp: tree_def node_at_def toy_paths split: if_splits)

end
