(* ===== verification/Refinement.thy ===== *)
theory Refinement
  imports StoreSpec ReadSpec
begin

text \<open>
  What the store promises, as a map: the loose files stand for a finite map from digests to data,
  and putting, getting and deleting refine its update, lookup and removal.
\<close>

section \<open>The abstraction\<close>

definition contents :: "env \<Rightarrow> world \<Rightarrow> hash \<Rightarrow> bytes option" where
  "contents E s h =
     (case node_at s (blob_path (self s) h) of
        Some (File raw) \<Rightarrow>
          (case unpack_loose E raw of
             Inl e \<Rightarrow> None
           | Inr data \<Rightarrow> if hash_bytes E data = h then Some data else None)
      | _ \<Rightarrow> None)"

lemma contents_serves: "contents E s h = Some data \<longleftrightarrow> loose_serves E s (blob_path (self s) h) h data"
  by (auto simp: contents_def loose_serves_def split: option.splits node.splits sum.splits)

lemma contents_absent: "node_at s (blob_path (self s) h) = None \<Longrightarrow> contents E s h = None"
  by (simp add: contents_def)

lemma option_ext: "(\<And>y. a = Some y \<longleftrightarrow> b = Some y) \<Longrightarrow> a = b"
  by (cases a; cases b) auto

lemma contents_step:
  assumes "store_step S s t" and "blob_path (self s) g \<notin> S"
  shows "contents E t g = contents E s g"
proof (rule option_ext)
  fix data
  have "blob_path (self t) g = blob_path (self s) g"
    using store_step_config [OF assms(1)] by (simp add: same_config_def blob_path_loose_at)
  then show "contents E t g = Some data \<longleftrightarrow> contents E s g = Some data"
    using loose_serves_cong [OF store_step_at [OF assms]] by (simp add: contents_serves)
qed

lemma contents_others:
  "store_step {blob_path (self s) h} s t \<Longrightarrow> g \<noteq> h \<Longrightarrow> contents E t g = contents E s g"
  by (erule contents_step) (simp add: blob_path_loose_at)

lemma contents_update:
  assumes "store_step {blob_path (self s) h} s t" and "contents E t h = v"
  shows "contents E t = (contents E s)(h := v)"
  using contents_others [OF assms(1)] assms(2) by (auto simp: fun_eq_iff)

lemma get_blob_loose_source:
  assumes "get_blob_loose E h s = (Inr data, t)"
  obtains raw where "node_at s (blob_path (self s) h) = Some (File raw)"
  using assms by (auto simp: get_blob_loose_def bind_pure bindE_eq map_err_eq fs_read_def
      split: option.splits node.splits)

section \<open>The operations\<close>

text \<open>
  C2. \<open>put_blob\<close> refines the update of a map. Where no damaged or colliding file is in the way,
  a success means that the store's content is the old one with the data under its digest, and an
  error means that the digest was absent and no other blob has changed, whatever faults occurred.
\<close>

theorem put_blob_refines:
  assumes "codec_ok E" and "storable E (self s) data"
    and "path_exists s (blob_path (self s) (hash_bytes E data)) \<longrightarrow> contents E s (hash_bytes E data) = Some data"
    and "put_blob E data s = (r, t)"
  shows "case r of
      Inr h \<Rightarrow> h = hash_bytes E data \<and> contents E t = (contents E s)(h \<mapsto> data)
    | Inl e \<Rightarrow> contents E s (hash_bytes E data) = None \<and>
        (\<forall>g. g \<noteq> hash_bytes E data \<longrightarrow> contents E t g = contents E s g)"
proof (cases r)
  case (Inl e)
  then have "\<not> path_exists s (blob_path (self s) (hash_bytes E data))"
    using assms(4) by (auto simp: put_blob_there)
  then show ?thesis
    using Inl contents_others [OF put_blob_step [OF assms(4)]] contents_absent by (simp add: path_exists_def)
next
  case (Inr h)
  have h: "h = hash_bytes E data"
    using assms(4) put_blob_fresh(1) [of E data s h t] Inr
    by (cases "path_exists s (blob_path (self s) (hash_bytes E data))") (auto simp: put_blob_there)
  have "loose_serves E t (blob_path (self t) h) h data"
    by (rule put_blob_leaves(3) [OF assms(1,2)]) (use assms(3,4) Inr h in \<open>simp_all add: contents_serves\<close>)
  then have "contents E t = (contents E s)(h := Some data)"
    using put_blob_step [OF assms(4)] h by (intro contents_update) (simp_all add: contents_serves)
  with Inr h show ?thesis by simp
qed

theorem put_blob_refines_witness:
  "\<exists>t. put_blob (toy_env True) [7] (toy_world True []) = (Inr (hash_of [7]), t) \<and>
     contents (toy_env True) t = (contents (toy_env True) (toy_world True []))(hash_of [7] \<mapsto> [7])"
proof -
  obtain t where put: "put_blob (toy_env True) [7] (toy_world True []) = (Inr (hash_of [7]), t)"
    by (rule toy_put)
  have "storable (toy_env True) (self (toy_world True [])) [7]"
    using toy_storable by (simp add: toy_world_def)
  from put_blob_refines [OF toy_codec this _ put] put show ?thesis
    by (simp add: path_exists_def toy_absent)
qed

text \<open>
  C19. \<open>delete_blob\<close> refines the removal from the map: a success leaves exactly the map without the
  digest, and an error leaves the map as it was.
\<close>

theorem delete_blob_refines:
  assumes "delete_blob h s = (r, t)"
  shows "contents E t = (case r of Inr u \<Rightarrow> (contents E s)(h := None) | Inl e \<Rightarrow> contents E s)"
proof -
  obtain q where run: "fs_remove_file (blob_path (self s) h) s = (q, t)" and q: "isl r \<longleftrightarrow> isl q"
    using assms by (cases "fs_remove_file (blob_path (self s) h) s") (auto simp: delete_blob_eq split: sum.splits)
  have same: "self t = self s"
    by (rule preserves_self_remove [OF run])
  show ?thesis
  proof (cases r)
    case (Inl e)
    with q run same show ?thesis
      by (cases q) (auto simp: contents_def fun_eq_iff dest!: fs_remove_err)
  next
    case (Inr u)
    then have "contents E t h = None"
      using q run same by (cases q) (auto intro!: contents_absent dest: fs_remove_ok)
    with Inr contents_update [OF delete_blob_step [OF assms], of E None] show ?thesis by simp
  qed
qed

theorem delete_blob_refines_witness:
  "\<exists>t. delete_blob (hash_of [3]) toy_gc = (Inr (), t) \<and>
     contents (toy_env False) t = (contents (toy_env False) toy_gc)(hash_of [3] := None)"
proof -
  have "node_at toy_gc (blob_path (self toy_gc) (hash_of [3])) = Some (File [3])"
    by (simp add: blob_path_loose_at toy_loose_at) (simp add: node_at_def toy_paths)
  then obtain t where t: "delete_blob (hash_of [3]) toy_gc = (Inr (), t)"
    by (simp add: delete_blob_eq quiet_remove)
  from delete_blob_refines [OF t, of "toy_env False"] t show ?thesis by auto
qed

text \<open>
  C20. \<open>get_blob\<close> refines the lookup. It never changes the map; a digest that the cache does not
  hold and the map does is answered with the map's data; and a file that is there is the only
  source of an answer: with verification on, data returned for it is the map's data.
\<close>

theorem get_blob_refines:
  assumes "get_blob E h s = (r, t)"
  shows "contents E t = contents E s \<and>
    (cached s h = None \<and> \<not> poisoned (blob_cache (self s)) \<longrightarrow>
       (\<forall>data. contents E s h = Some data \<longrightarrow> r = Inr data) \<and>
       (verify_on_read (self s) \<and> path_exists s (blob_path (self s) h) \<longrightarrow>
          (\<forall>data. r = Inr data \<longrightarrow> contents E s h = Some data)))"
proof (intro conjI impI allI)
  show "contents E t = contents E s"
    using upholdsD [OF changes_only_get_blob [of "{}"] assms] by (auto intro: contents_step)
next
  fix data
  assume "cached s h = None \<and> \<not> poisoned (blob_cache (self s))" and "contents E s h = Some data"
  then show "r = Inr data"
    using get_blob_serves_loose [of E s h data] assms by (simp add: contents_serves)
next
  fix data
  assume "cached s h = None \<and> \<not> poisoned (blob_cache (self s))"
    and on: "verify_on_read (self s) \<and> path_exists s (blob_path (self s) h)" and "r = Inr data"
  with assms have run: "get_blob_loose E h s = (Inr data, s)"
    by (auto simp: get_blob_unhit get_blob_miss_there bindE_eq cache_blob_eq run_atoms dest: readsD [OF reads_get_blob_loose])
  from run show "contents E s h = Some data"
    by (rule get_blob_loose_source) (use run on in \<open>auto simp: get_blob_loose_eq contents_def split: sum.splits if_splits\<close>)
qed

theorem get_blob_refines_witness:
  "\<exists>t. get_blob (toy_env False) (hash_of [3]) toy_gc = (Inr [3], t) \<and>
     contents (toy_env False) t = contents (toy_env False) toy_gc"
proof -
  have "contents (toy_env False) toy_gc (hash_of [3]) = Some [3]"
    using toy_loose_serves by (simp add: contents_serves blob_path_loose_at)
  with get_blob_refines [where E = "toy_env False" and h = "hash_of [3]" and s = toy_gc, OF prod.collapse [symmetric]]
  show ?thesis
    by (simp add: cached_def prod_eq_iff)
qed

end
