(* ===== verification/FileStore.thy ===== *)
theory FileStore
  imports Cli
begin

text \<open>
  The program \<open>examples/file_store.rs\<close>: a client of the store that adds files, fetches a blob into a
  file, lists the addresses, and demonstrates that a damaged blob is noticed. What a subcommand
  prints is kept beside the world, since lines printed before an error stay printed; \<open>host\<close>
  supplies where a path as typed lies.
\<close>

section \<open>Programs that print\<close>

type_synonym 'a file_prog = "(world \<times> string, cas_error, 'a) prog"

text \<open>The outcome of a subcommand: its result, the disk it leaves and what it printed.\<close>

type_synonym outcome = "(cas_error + unit) \<times> disk \<times> string"

definition on_world :: "'a store_prog \<Rightarrow> 'a file_prog" where
  "on_world m = (\<lambda>(w, out). case m w of (r, v) \<Rightarrow> (r, (v, out)))"

definition print_line :: "string \<Rightarrow> unit file_prog" where
  "print_line s = modifyE (\<lambda>(w, out). (w, out @ println s))"

text \<open>The store that the rest of a subcommand works on.\<close>

definition with_store :: "path \<Rightarrow> unit file_prog \<Rightarrow> disk \<Rightarrow> outcome" where
  "with_store r body d =
     (case BlobStore_new r d of
        (Inl e, t) \<Rightarrow> (Inl e, t, [])
      | (Inr st, t) \<Rightarrow>
          (case body (disk.extend t (world.fields st), []) of
             (res, w, out) \<Rightarrow> (res, disk.truncate w, out)))"

section \<open>The subcommands\<close>

text \<open>One turn of the loop of \<open>add\<close>.\<close>

definition add_file :: "env \<Rightarrow> host \<Rightarrow> string \<Rightarrow> unit file_prog" where
  "add_file E hst p =
     bindE (on_world (map_err Io (fs_read (resolve hst p)))) (\<lambda>data.
     let h = hash_bytes E data in
     bindE (on_world (has_blob E h)) (\<lambda>duplicate.
     bindE (on_world (put_blob E data)) (\<lambda>stored.
       print_line (hash_display stored @ ''  <- '' @ p @ ''  ('' @ decimal (length data) @ '' bytes, '' @
         (if duplicate then ''stored once (deduplicated)'' else ''new'') @ '')''))))"

definition file_add :: "env \<Rightarrow> host \<Rightarrow> string \<Rightarrow> string list \<Rightarrow> disk \<Rightarrow> outcome" where
  "file_add E hst root_arg ps =
     with_store (resolve hst root_arg) (foldE (\<lambda>p u. add_file E hst p) ps ())"

definition file_get :: "env \<Rightarrow> host \<Rightarrow> string \<Rightarrow> string \<Rightarrow> string \<Rightarrow> disk \<Rightarrow> outcome" where
  "file_get E hst root_arg hex dest =
     with_store (resolve hst root_arg)
       (bindE (map_err (\<lambda>e. InvalidPath (hash_error_display e)) (liftE (from_hex hex))) (\<lambda>h.
        bindE (on_world (get_blob E h)) (\<lambda>data.
        bindE (on_world (map_err Io (fs_write (resolve hst dest) data))) (\<lambda>_.
          print_line (hash_display h @ '' -> '' @ dest @ '' ('' @ decimal (length data) @
            '' bytes, hash verified on read)'')))))"

text \<open>The order of a \<open>HashSet\<close> is the argument \<open>order\<close>.\<close>

definition file_list :: "env \<Rightarrow> host \<Rightarrow> (hash set \<Rightarrow> hash list) \<Rightarrow> string \<Rightarrow> disk \<Rightarrow> outcome" where
  "file_list E hst order root_arg =
     with_store (resolve hst root_arg)
       (bindE (on_world list_blobs) (\<lambda>loose.
        bindE (on_world (list_blobs_packed E)) (\<lambda>packed.
          foldE (\<lambda>h u. print_line (hash_display h)) (order (set loose \<union> set packed)) ())))"

section \<open>The demonstration\<close>

definition overwrite_first_byte :: "path \<Rightarrow> (world, io_error, unit) prog" where
  "overwrite_first_byte p =
     bindE (fs_read p) (\<lambda>content.
       fs_write p (case content of [] \<Rightarrow> [] | b # bs \<Rightarrow> (b + 1) # bs))"

definition corrupt_loose_blob :: "hash \<Rightarrow> (world, io_error, unit) prog" where
  "corrupt_loose_blob h =
     (let hex = to_hex h in
      bindE (getsE (\<lambda>s. objects_dir (self s) @ [take 2 hex, drop 2 hex])) overwrite_first_byte)"

text \<open>A call on another store object, which has caches of its own, on the same disk.\<close>

definition on_other :: "blob_store \<Rightarrow> 'a store_prog \<Rightarrow> 'a store_prog" where
  "on_other st m s = (case m (s\<lparr>self := st\<rparr>) of (r, v) \<Rightarrow> (r, v\<lparr>self := self s\<rparr>))"

definition demo_content :: bytes where
  "demo_content = map of_char ''The quick brown fox jumps over the lazy dog.''"

text \<open>
  What the tempfile crate does is an argument: \<open>tempdir\<close> makes the directory, \<open>drop_dir\<close> removes
  it when the function returns. So is \<open>debug\<close>, the \<open>Debug\<close> form of a \<open>str\<close>, with its tables of printable characters.
\<close>

record demo_host =
  tempdir :: "disk \<Rightarrow> (io_error + path) \<times> disk"
  drop_dir :: "path \<Rightarrow> disk \<Rightarrow> disk"
  debug :: "string \<Rightarrow> string"

definition demo_report :: "env \<Rightarrow> (cas_error + bytes) \<Rightarrow> unit file_prog" where
  "demo_report E r =
     (case r of
        Inl (HashMismatch expected actual) \<Rightarrow>
          bindE (print_line (''corruption detected: address '' @ expected @ '' held bytes hashing to '' @ actual)) (\<lambda>_.
            print_line (''verify-on-read failed closed '' @ EM_DASH @ '' exactly the guarantee you want''))
      | Inl e \<Rightarrow> print_line (''corruption detected: '' @ cas_error_display (io_text E) e)
      | Inr data \<Rightarrow> print_line ''WARNING: corrupted blob was served without complaint'')"

definition demo_body :: "env \<Rightarrow> demo_host \<Rightarrow> path \<Rightarrow> unit file_prog" where
  "demo_body E dh r =
     bindE (on_world (put_blob E demo_content)) (\<lambda>h1.
     bindE (on_world (put_blob E demo_content)) (\<lambda>h2.
     bindE (print_line (''first  put -> '' @ hash_display h1)) (\<lambda>_.
     bindE (print_line (''second put -> '' @ hash_display h2)) (\<lambda>_.
     bindE (on_world blob_count) (\<lambda>n.
     bindE (print_line (''same address = same content; blobs on disk: '' @ decimal n)) (\<lambda>_.
     bindE (on_world (get_blob E h1)) (\<lambda>read_back.
     bindE (print_line (''verified read: '' @ debug dh (utf8_lossy read_back))) (\<lambda>_.
     bindE (on_world (map_err Io (corrupt_loose_blob h1))) (\<lambda>_.
     bindE (on_world (BlobStore_new r)) (\<lambda>reopened.
     bindE (attemptE (on_world (on_other reopened (get_blob E h1)))) (demo_report E)))))))))))"

definition file_demo :: "env \<Rightarrow> demo_host \<Rightarrow> disk \<Rightarrow> outcome" where
  "file_demo E dh d =
     (case tempdir dh d of
        (Inl e, t) \<Rightarrow> (Inl (Io e), t, [])
      | (Inr r, t) \<Rightarrow> (case with_store r (demo_body E dh r) t of (res, u, out) \<Rightarrow> (res, drop_dir dh r u, out)))"

section \<open>The program\<close>

text \<open>The two texts for wrong arguments, which go to standard error and count as success.\<close>

definition usage :: "string \<Rightarrow> string" where
  "usage cmd = println (''missing arguments '' @ EM_DASH @ '' usage: file_store '' @ cmd)"

definition usage_other :: "demo_host \<Rightarrow> string \<Rightarrow> string" where
  "usage_other dh cmd =
     println (''unknown subcommand '' @ debug dh cmd @ '' '' @ EM_DASH @ '' expected demo, add, get, or list'')"

text \<open>The arguments after the program's name select a subcommand, or a text for standard error.\<close>

definition select :: "env \<Rightarrow> host \<Rightarrow> demo_host \<Rightarrow> (hash set \<Rightarrow> hash list) \<Rightarrow> string list \<Rightarrow> string + (disk \<Rightarrow> outcome)" where
  "select E hst dh order args =
     (case args of
        [] \<Rightarrow> Inr (file_demo E dh)
      | cmd # rest \<Rightarrow>
          if cmd = ''demo'' then Inr (file_demo E dh)
          else if cmd = ''add'' then
            (case rest of r # p # ps \<Rightarrow> Inr (file_add E hst r (p # ps)) | _ \<Rightarrow> Inl (usage ''add <ROOT> <FILE>...''))
          else if cmd = ''get'' then
            (case rest of r # hex # dest # _ \<Rightarrow> Inr (file_get E hst r hex dest)
             | _ \<Rightarrow> Inl (usage ''get <ROOT> <HASH> <DEST>''))
          else if cmd = ''list'' then
            (case rest of r # _ \<Rightarrow> Inr (file_list E hst order r) | [] \<Rightarrow> Inl (usage ''list <ROOT>''))
          else Inl (usage_other dh cmd))"

text \<open>The exit code, standard output and standard error.\<close>

definition main_file_store ::
  "env \<Rightarrow> host \<Rightarrow> demo_host \<Rightarrow> (hash set \<Rightarrow> hash list) \<Rightarrow> string list \<Rightarrow> disk \<Rightarrow> (nat \<times> string \<times> string) \<times> disk" where
  "main_file_store E hst dh order args d =
     (case select E hst dh order args of
        Inl complaint \<Rightarrow> ((0, [], complaint), d)
      | Inr run \<Rightarrow>
          (case run d of
             (Inr u, t, out) \<Rightarrow> ((0, out, []), t)
           | (Inl e, t, out) \<Rightarrow> ((1, out, println (''error: '' @ cas_error_display (io_text E) e)), t)))"

end
