(* ===== verification/FileStoreSpec.thy ===== *)
theory FileStoreSpec
  imports FileStore Refinement RunSpec
begin

text \<open>
  The properties of the file store program: what it adds it gives back, and what it prints it
  does not take.
\<close>

section \<open>Running on a store\<close>

lemma run_on_world [run_simps]: "on_world m (w, out) = (case m w of (r, v) \<Rightarrow> (r, (v, out)))"
  by (simp add: on_world_def)

lemma run_print_line [run_simps]: "print_line s (w, out) = (Inr (), (w, out @ println s))"
  by (simp add: print_line_def run_atoms)

lemma on_world_eq: "on_world m (w, out) = (r, (v, out')) \<longleftrightarrow> m w = (r, v) \<and> out' = out"
  by (auto simp: run_on_world split: prod.splits)

lemma with_store_eq:
  "with_store r body d = (res, t, out) \<longleftrightarrow>
     (\<exists>e. BlobStore_new r d = (Inl e, t) \<and> res = Inl e \<and> out = []) \<or>
     (\<exists>st u w. BlobStore_new r d = (Inr st, u) \<and> body (opened st u, []) = (res, (w, out)) \<and> t = disk.truncate w)"
  by (auto simp: with_store_def opened_def split: prod.splits sum.splits)

text \<open>A store that has just been opened.\<close>

lemma BlobStore_new_ok:
  assumes "BlobStore_new r d = (Inr st, t)"
  shows "root st = r" "compress st" "compression_level st = DEFAULT_COMPRESSION_LEVEL" "verify_on_read st"
    "blob_cache st = Mutex False []" "store_packs st = Mutex False None" "known_dirs st = Mutex False {}"
    "node_at t (r @ [''objects'']) = Some Dir"
  using assms create_dir_all_ok by (auto simp: BlobStore_new_def bindE_eq map_err_eq run_atoms)

lemma BlobStore_new_again:
  assumes "node_at d (r @ [''objects'']) = Some Dir"
  obtains st where "BlobStore_new r d = (Inr st, d)"
  using assms by (simp add: BlobStore_new_def bindE_def map_err_def create_dir_all_def run_atoms)

section \<open>Adding files\<close>

text \<open>The data that a store opened with the default settings can give back.\<close>

definition addable :: "env \<Rightarrow> bytes \<Rightarrow> bool" where
  "addable E data \<longleftrightarrow>
     (if feature_zstd E then length data \<le> MAX_DECOMPRESSED_SIZE else \<not> is_zstd_compressed E data)"

lemma addable_storable: "compress st \<Longrightarrow> storable E st data \<longleftrightarrow> addable E data"
  by (simp add: addable_def storable_def)

text \<open>No damaged or colliding file is in the way of a blob.\<close>

definition way_clear :: "env \<Rightarrow> path \<Rightarrow> 'z disk_scheme \<Rightarrow> bytes \<Rightarrow> bool" where
  "way_clear E r d data \<longleftrightarrow>
     (path_exists d (loose_at r (hash_bytes E data)) \<longrightarrow>
      loose_serves E d (loose_at r (hash_bytes E data)) (hash_bytes E data) data)"

lemma put_blob_far:
  assumes "put_blob E data s = (res, t)" and "q \<noteq> blob_path (self s) (hash_bytes E data)"
    and "length (blob_path (self s) (hash_bytes E data)) \<le> length q"
  shows "node_at t q = node_at s q"
proof -
  let ?p = "blob_path (self s) (hash_bytes E data)"
  have far: "preserves (\<lambda>s. node_at s q) (ensure_parent_dir (butlast ?p))"
    using assms(3) by (intro upholdsI ensure_parent_dir_far) (auto simp: blob_path_loose_at loose_at_def)
  have "preserves (\<lambda>s. node_at s q) (fs_write ?p b :: (world, io_error, unit) prog)" for b
    using upholdsD [OF frames_fs_write [OF singletonI]] touches_at assms(2) by (intro upholdsI) fastforce
  then have "preserves (\<lambda>s. node_at s q) (write_blob E ?p data)"
    unfolding write_blob_def by (intro hoare)
  with far have "preserves (\<lambda>s. node_at s q) (bindE (ensure_parent_dir (butlast ?p)) (\<lambda>_. bindE (write_blob E ?p data) (\<lambda>_. returnE h)))" for h
    by (intro hoare)
  note tail = upholdsD [OF this]
  show ?thesis
    using assms(1) tail by (auto simp: put_blob_def Let_def bind_pure run_atoms split: if_splits)
qed

lemma loose_at_under [simp]: "is_under (r @ [''objects'']) (loose_at r h)"
  by (simp add: loose_at_def is_under_iff)

text \<open>What an \<open>add\<close> of one file leaves: its blob, every blob there was, and all other files.\<close>

definition added :: "env \<Rightarrow> path \<Rightarrow> bytes \<Rightarrow> world \<Rightarrow> world \<Rightarrow> bool" where
  "added E r data s t \<longleftrightarrow>
     store_step {loose_at r (hash_bytes E data)} s t \<and>
     loose_serves E t (loose_at r (hash_bytes E data)) (hash_bytes E data) data \<and>
     (path_exists s (loose_at r (hash_bytes E data)) \<longrightarrow> node_at t = node_at s) \<and>
     (\<forall>g. g \<noteq> hash_bytes E data \<longrightarrow> node_at t (loose_at r g) = node_at s (loose_at r g))"

lemma keeps_nodes_has_blob: "preserves node_at (has_blob E h)"
proof -
  have "preserves node_at (load_all p)" "preserves node_at (lock f)" for p and f :: "blob_store \<Rightarrow> 'b mutex"
    by (rule preserving.resp_reads, rule hoare)+
  moreover have "preserves node_at (set_store_packs c)" for c
    by (auto intro!: upholdsI simp: set_store_packs_def run_atoms node_at_def fun_eq_iff)
  ultimately show ?thesis
    unfolding has_blob_def has_blob_packed_def with_pack_cache_def by (intro hoare)
qed

lemma add_file_adds:
  assumes "codec_ok E" and "add_file E hst p (s, out) = (Inr u, (t, out'))"
    and "root (self s) = r" and "compress (self s)" and "node_at s (resolve hst p) = Some (File data)"
    and "addable E data" and "way_clear E r s data"
  shows "added E r data s t"
proof -
  let ?h = "hash_bytes E data"
  obtain b v h where has: "has_blob E ?h s = (Inr b, v)" and put: "put_blob E data v = (Inr h, t)"
    using assms(2,5)
    by (auto simp: add_file_def Let_def bindE_eq on_world_eq map_err_eq fs_read_def run_print_line)
  have step: "store_step {} s v" and same: "node_at v = node_at s"
    by (rule upholdsD [OF changes_only_has_blob has], rule upholdsD [OF keeps_nodes_has_blob has])
  then have cfg: "root (self v) = r" "compress (self v)"
    using assms(3,4) store_step_config by (fastforce simp: same_config_def)+
  have path: "blob_path (self v) ?h = loose_at r ?h"
    using cfg(1) by (simp add: blob_path_loose_at)
  have put_step: "store_step {loose_at r ?h} v t"
    using put_blob_step [OF put] path by simp
  have clear: "path_exists v (blob_path (self v) ?h) \<longrightarrow> loose_serves E v (blob_path (self v) ?h) ?h data"
    using assms(7) same path by (simp add: way_clear_def path_exists_def loose_serves_def)
  have h: "h = ?h"
    using put put_blob_fresh(1) [OF put] by (cases "path_exists v (blob_path (self v) ?h)") (auto simp: put_blob_there)
  have "loose_serves E t (blob_path (self t) ?h) ?h data"
    using put_blob_leaves(3) [OF assms(1) _ put] clear h addable_storable [OF cfg(2)] assms(6) by simp
  moreover have "root (self t) = r"
    using store_step_config [OF put_step] cfg(1) by (simp add: same_config_def)
  moreover have "node_at t = node_at s" if "path_exists s (loose_at r ?h)"
    using that put same path by (simp add: path_exists_def put_blob_there)
  moreover have "store_step {loose_at r ?h} s t"
    using storing.related_trans [OF store_step_mono [OF step] put_step] by simp
  moreover have "node_at t (loose_at r g) = node_at s (loose_at r g)" if "g \<noteq> ?h" for g
    using put_blob_far [OF put, of "loose_at r g"] that path same by simp
  ultimately show ?thesis
    by (simp add: added_def blob_path_loose_at)
qed

lemma added_keeps:
  assumes "added E r data s t" and "loose_serves E s (loose_at r g) g x"
  shows "loose_serves E t (loose_at r g) g x"
proof (cases "g = hash_bytes E data")
  case True
  then have "node_at t = node_at s"
    using assms by (auto simp: added_def loose_serves_def path_exists_def)
  with assms(2) show ?thesis by (simp add: loose_serves_def)
next
  case False
  with assms show ?thesis by (simp add: added_def loose_serves_def)
qed

lemma added_config: "added E r data s t \<Longrightarrow> root (self t) = root (self s) \<and> compress (self t) = compress (self s)"
  using store_step_config by (fastforce simp: added_def same_config_def)

text \<open>The files to add: what each holds, and that none lies where the store writes blobs.\<close>

definition sources :: "env \<Rightarrow> host \<Rightarrow> path \<Rightarrow> (string \<Rightarrow> bytes) \<Rightarrow> string list \<Rightarrow> 'z disk_scheme \<Rightarrow> bool" where
  "sources E hst r content ps d \<longleftrightarrow>
     (\<forall>p \<in> set ps. node_at d (resolve hst p) = Some (File (content p)) \<and>
        \<not> is_under (r @ [''objects'']) (resolve hst p) \<and> addable E (content p) \<and> way_clear E r d (content p)) \<and>
     (\<forall>p \<in> set ps. \<forall>q \<in> set ps. hash_bytes E (content p) = hash_bytes E (content q) \<longrightarrow> content p = content q)"

lemma sourcesD:
  assumes "sources E hst r content ps d" and "p \<in> set ps"
  shows "node_at d (resolve hst p) = Some (File (content p))" "resolve hst p \<noteq> loose_at r h"
    "addable E (content p)" "way_clear E r d (content p)"
    "q \<in> set ps \<Longrightarrow> hash_bytes E (content p) = hash_bytes E (content q) \<Longrightarrow> content p = content q"
    "\<not> is_under (r @ [''objects'']) (resolve hst p)"
proof -
  show "resolve hst p \<noteq> loose_at r h"
    using assms loose_at_under unfolding sources_def by metis
qed (use assms in \<open>simp_all add: sources_def\<close>)

lemma BlobStore_new_far:
  assumes "BlobStore_new r d = (q, t)" and "length r + 1 < length p"
  shows "node_at t p = node_at d p"
proof -
  have "length x \<le> length r + 1" if "x \<in> insert (r @ [''objects'']) (set (ancestors (r @ [''objects''])))" for x
    using that by (auto simp: ancestors_def)
  then have out: "p \<notin> insert (r @ [''objects'']) (set (ancestors (r @ [''objects''])))"
    using assms(2) by fastforce
  obtain u where "create_dir_all (r @ [''objects'']) d = (u, t)"
    using assms(1) by (auto simp: BlobStore_new_def bindE_eq map_err_eq run_atoms)
  show ?thesis
    by (rule touches_at [OF create_dir_all_touches [OF \<open>create_dir_all (r @ [''objects'']) d = (u, t)\<close>]]) (use out in simp)
qed

lemma sources_opened:
  assumes "sources E hst r content ps d" and "BlobStore_new r d = (Inr st, t)"
  shows "sources E hst r content ps (opened st t)"
proof -
  have "node_at t q = Some (File b) \<longleftrightarrow> node_at d q = Some (File b)" for q b
    using same_files_at [OF BlobStore_new_files [OF assms(2)]] by simp
  moreover have "node_at t (loose_at r h) = node_at d (loose_at r h)" for h
    using BlobStore_new_far [OF assms(2)] by simp
  ultimately show ?thesis
    using assms(1) by (simp add: sources_def way_clear_def path_exists_def loose_serves_def)
qed

lemma sources_added:
  assumes "sources E hst r content (p # ps) s" and "added E r (content p) s t"
  shows "sources E hst r content ps t"
  unfolding sources_def
proof (intro conjI ballI)
  fix q
  assume q: "q \<in> set ps"
  then have q': "q \<in> set (p # ps)" by simp
  note src = sourcesD [OF assms(1) q']
  show "node_at t (resolve hst q) = Some (File (content q))"
    using assms(2) src(1,2) store_step_at [of "{loose_at r (hash_bytes E (content p))}" s t] by (simp add: added_def)
  show "\<not> is_under (r @ [''objects'']) (resolve hst q)"
    by (rule src(6))
  show "addable E (content q)" by (rule src(3))
  show "way_clear E r t (content q)"
  proof (cases "content q = content p")
    case True
    with assms(2) show ?thesis by (simp add: way_clear_def added_def)
  next
    case False
    then have "hash_bytes E (content q) \<noteq> hash_bytes E (content p)"
      using src(5) [of p] by auto
    then have "node_at t (loose_at r (hash_bytes E (content q))) = node_at s (loose_at r (hash_bytes E (content q)))"
      using assms(2) by (simp add: added_def)
    with src(4) show ?thesis
      by (simp add: way_clear_def path_exists_def loose_serves_def)
  qed
  show "hash_bytes E (content q) = hash_bytes E (content x) \<longrightarrow> content q = content x" if "x \<in> set ps" for x
    using src(5) [of x] that by simp
qed

lemma add_files:
  assumes "codec_ok E" and "foldE (\<lambda>p u. add_file E hst p) ps () (s, out) = (Inr (), (t, out'))"
    and "root (self s) = r" and "compress (self s)" and "sources E hst r content ps s"
  shows "(\<forall>p \<in> set ps. loose_serves E t (loose_at r (hash_bytes E (content p))) (hash_bytes E (content p)) (content p)) \<and>
    (\<forall>g x. loose_serves E s (loose_at r g) g x \<longrightarrow> loose_serves E t (loose_at r g) g x) \<and>
    (\<forall>q. node_at s q = Some Dir \<and> \<not> (\<exists>h. q = loose_at r h) \<longrightarrow> node_at t q = Some Dir)"
  using assms(2-)
proof (induction ps arbitrary: s out)
  case Nil
  then show ?case by (simp add: run_atoms)
next
  case (Cons p ps)
  obtain v out1 where one: "add_file E hst p (s, out) = (Inr (), (v, out1))"
    and rest: "foldE (\<lambda>p u. add_file E hst p) ps () (v, out1) = (Inr (), (t, out'))"
    using Cons.prems(1) by (auto simp: bindE_eq)
  note src = sourcesD [OF Cons.prems(4), of p, simplified]
  have add: "added E r (content p) s v"
    by (rule add_file_adds [OF assms(1) one Cons.prems(2,3) src(1,3,4)])
  have "root (self v) = r" "compress (self v)"
    using added_config [OF add] Cons.prems(2,3) by simp_all
  note IH = Cons.IH [OF rest this sources_added [OF Cons.prems(4) add]]
  have "loose_serves E v (loose_at r (hash_bytes E (content p))) (hash_bytes E (content p)) (content p)"
    and "\<And>q. node_at s q = Some Dir \<Longrightarrow> \<forall>h. q \<noteq> loose_at r h \<Longrightarrow> node_at v q = Some Dir"
    using add by (auto simp: added_def store_step_def)
  with IH added_keeps [OF add] show ?case by auto
qed

section \<open>Getting a file back\<close>

lemma file_get_serves:
  assumes "loose_serves E d (loose_at (resolve hst root_arg) h) h data"
    and "node_at d (resolve hst root_arg @ [''objects'']) = Some Dir"
    and "pending d = []" and "write_error d (resolve hst dest) = None"
  obtains u out where "file_get E hst root_arg (to_hex h) dest d = (Inr (), u, out)"
    and "node_at u (resolve hst dest) = Some (File data)"
proof -
  obtain st where st: "BlobStore_new (resolve hst root_arg) d = (Inr st, d)"
    by (rule BlobStore_new_again [OF assms(2)])
  note fresh = BlobStore_new_ok [OF st]
  let ?s = "opened st d"
  let ?t = "?s\<lparr>self := st\<lparr>blob_cache := Mutex False (cache_insert h data [])\<rparr>\<rparr>"
  have "loose_serves E ?s (blob_path (self ?s) h) h data"
    using assms(1) fresh(1) by (simp add: loose_serves_def blob_path_loose_at)
  then have get: "get_blob E h ?s = (Inr data, ?t)"
    using get_blob_serves_loose [of E ?s h data] fresh(5) by (simp add: cached_def)
  have "write_error ?t (resolve hst dest) = write_error d (resolve hst dest)"
    unfolding write_error_def absent_error_def by simp
  then have "fs_write (resolve hst dest) data ?t = (Inr (), put_node (resolve hst dest) (File data) ?t)"
    using assms(3,4) by (intro quiet_write) simp_all
  then show thesis
    using that st get
    by (simp add: file_get_def with_store_def opened_def [symmetric] bindE_def run_simps map_err_def
        disk_nodes.look_put)
qed

text \<open>
  C31. What the program adds it gives back. After an \<open>add\<close> of any number of files that succeeded,
  on a disk with any faults, a \<open>get\<close> with the full address of any of them writes exactly the
  bytes of that file to its destination: for every file that the store can hold, with no two
  different ones of the same digest, no damaged blob in the way, and a destination that can be
  written.
\<close>

theorem file_store_roundtrip:
  assumes "codec_ok E" and "sources E hst (resolve hst root_arg) content ps d"
    and "file_add E hst root_arg ps d = (Inr (), t, out)" and "p \<in> set ps"
    and "pending t = []" and "write_error t (resolve hst dest) = None"
  shows "\<exists>u out'. file_get E hst root_arg (to_hex (hash_bytes E (content p))) dest t = (Inr (), u, out') \<and>
    node_at u (resolve hst dest) = Some (File (content p))"
proof -
  obtain st v w where new: "BlobStore_new (resolve hst root_arg) d = (Inr st, v)"
    and run: "foldE (\<lambda>p u. add_file E hst p) ps () (opened st v, []) = (Inr (), (w, out))" and t: "t = disk.truncate w"
    using assms(3) by (auto simp: file_add_def with_store_eq)
  note fresh = BlobStore_new_ok [OF new]
  have "sources E hst (resolve hst root_arg) content ps (opened st v)"
    by (rule sources_opened [OF assms(2) new])
  from add_files [OF assms(1) run _ _ this] fresh(1,2)
  have adds: "loose_serves E w (loose_at (resolve hst root_arg) (hash_bytes E (content p))) (hash_bytes E (content p)) (content p)"
    and dirs: "\<And>q. node_at v q = Some Dir \<Longrightarrow> \<forall>h. q \<noteq> loose_at (resolve hst root_arg) h \<Longrightarrow> node_at w q = Some Dir"
    using assms(4) by auto
  have "node_at t (resolve hst root_arg @ [''objects'']) = Some Dir"
    using dirs [OF fresh(8)] t by (simp add: loose_at_def)
  moreover have "loose_serves E t (loose_at (resolve hst root_arg) (hash_bytes E (content p))) (hash_bytes E (content p)) (content p)"
    using adds t by (simp add: loose_serves_def)
  ultimately show ?thesis
    using file_get_serves [of E t hst root_arg] assms(5,6) by metis
qed

text \<open>A store that has the blob 3, and a file with its content.\<close>

definition toy_files :: disk where
  "toy_files = \<lparr>nodes = nodes toy_gc @ [([''s''], Dir), ([''s'', ''a''], File [3])], pending = [], dir_len = 0\<rparr>"

definition toy_names :: host where
  "toy_names = \<lparr>resolve = (\<lambda>p. if p = ''/r'' then [''r''] else [''s'', p]), stdin = []\<rparr>"

lemma toy_add: "\<exists>out. file_add (toy_env False) toy_names ''/r'' [''a''] toy_files = (Inr (), toy_files, out)"
proof -
  have at: "node_at toy_files [''r'', ''objects''] = Some Dir" "node_at toy_files [''s'', ''a''] = Some (File [3])"
    "node_at toy_files (loose_at [''r''] (hash_of [3])) = Some (File [3])"
    by (simp_all add: toy_files_def node_at_def toy_paths toy_loose_at)
  obtain st where st: "BlobStore_new [''r''] toy_files = (Inr st, toy_files)"
    using BlobStore_new_again [of toy_files "[''r'']"] at(1) by auto
  have "blob_path st (hash_of [3]) = loose_at [''r''] (hash_of [3])"
    using BlobStore_new_ok(1) [OF st] by (simp add: blob_path_loose_at)
  then have there: "path_exists (opened st toy_files) (blob_path st (hash_of [3]))"
    by (simp add: path_exists_def at)
  then have "put_blob (toy_env False) [3] (opened st toy_files) = (Inr (hash_of [3]), opened st toy_files)"
    "has_blob (toy_env False) (hash_of [3]) (opened st toy_files) = (Inr True, opened st toy_files)"
    using put_blob_there [of "opened st toy_files" "toy_env False" "[3]"] by (simp_all add: has_blob_def run_simps)
  moreover have "fs_read [''s'', ''a''] (opened st toy_files) = (Inr [3], opened st toy_files)"
    by (simp add: fs_read_def at)
  moreover have "disk.truncate (opened st toy_files) = toy_files"
    by (simp add: opened_def disk.defs)
  ultimately show ?thesis
    using st by (simp add: file_add_def with_store_def opened_def [symmetric] toy_names_def add_file_def
        bindE_def run_simps map_err_def)
qed

theorem file_store_roundtrip_witness:
  "\<exists>t u out out'. file_add (toy_env False) toy_names ''/r'' [''a''] toy_files = (Inr (), t, out) \<and>
     file_get (toy_env False) toy_names ''/r'' (to_hex (hash_of [3])) ''b'' t = (Inr (), u, out') \<and>
     node_at u [''s'', ''b''] = Some (File [3])"
proof -
  obtain out where add: "file_add (toy_env False) toy_names ''/r'' [''a''] toy_files = (Inr (), toy_files, out)"
    using toy_add by blast
  have "sources (toy_env False) toy_names (resolve toy_names ''/r'') (\<lambda>p. [3]) [''a''] toy_files"
    by (simp add: sources_def toy_names_def addable_def is_zstd_compressed_def way_clear_def loose_serves_def
        unpack_loose_def toy_loose_at) (simp add: node_at_def toy_files_def toy_paths)
  moreover have "write_error toy_files (resolve toy_names ''b'') = None"
    by (simp add: write_error_def toy_names_def) (simp add: node_at_def toy_files_def toy_paths)
  ultimately show ?thesis
    using file_store_roundtrip [OF toy_codec _ add, of "\<lambda>p. [3]" "''a''" "''b''"] add
    by (simp add: toy_files_def toy_names_def)
qed

section \<open>What is printed\<close>

text \<open>
  C32. No address that the program prints can be given back to it. The printed form of a digest
  is cut to twelve characters and an ellipsis; \<open>get\<close> refuses it as too short, having read and
  written nothing beyond opening the store.
\<close>

theorem printed_address_unusable:
  "file_get E hst root_arg (hash_display h) dest d =
     (case BlobStore_new (resolve hst root_arg) d of
        (Inl e, t) \<Rightarrow> (Inl e, t, [])
      | (Inr st, t) \<Rightarrow> (Inl (InvalidPath ''invalid hash length: expected 64 hex chars, got 15''), t, []))"
proof -
  have "length (hash_display h) = 15"
    by (simp add: hash_display_def)
  then have "from_hex (hash_display h) = Inl (InvalidLength 15)"
    by (simp add: from_hex_def)
  moreover have "hash_error_display (InvalidLength 15) = ''invalid hash length: expected 64 hex chars, got 15''"
    by code_simp
  moreover have "disk.truncate (opened st t) = t" for st t
    by (simp add: opened_def disk.defs)
  ultimately show ?thesis
    by (simp add: file_get_def with_store_def opened_def [symmetric] bindE_def map_err_def run_simps
        split: prod.split sum.split)
qed

end
