(* ===== verification/StaleCache.thy ===== *)
theory StaleCache
  imports Machine Refinement
begin

text \<open>
  The pack cache after a sweep that fails: the sweep returns before the line that drops the
  cache, and the store goes on reading packs that are no longer there.
\<close>

lemma invalidate_result: "invalidate_pack_cache s = (r, t) \<Longrightarrow> \<exists>u. r = Inr u"
  using invalidate_ok [of s] by auto

lemma failed_sweep_self:
  assumes "sweep E live options s = (Inl e, t)"
  shows "self t = self s"
proof -
  have plan: "plan_sweep live s = (r, u) \<Longrightarrow> u = s" for r u
    by (rule readsD) (rule hoare)
  show ?thesis
    using assms
    by (auto simp: sweep_def execute_plan_def Let_def bindE_eq run_atoms split: if_splits prod.splits
        dest!: plan invalidate_result upholdsD [OF self_kept.rel_phases(1)] upholdsD [OF self_kept.rel_phases(2)]
          upholdsD [OF self_kept.rel_phases(3)] upholdsD [OF self_kept.rel_phases(4)])
qed

text \<open>Looking a blob up with a loaded cache that places it in a pack without index.\<close>

lemma stale_lookup:
  assumes "guarded (store_packs (self t)) = Some cache" and "\<not> poisoned (store_packs (self t))"
    and "PackCache_find E cache h = Some (p, off)" and "node_at t (with_extension p ''idx'') = None"
    and "\<not> path_exists t (blob_path (self t) h)"
  shows "get_blob_miss E h t = (Inl (Pack (PackIo (absent_error t (with_extension p ''idx'')))), t)"
    and "has_blob E h t = (Inr True, t)"
  using assms
  by (simp_all add: get_blob_miss_def get_blob_packed_def has_blob_def has_blob_packed_def with_pack_cache_def
      run_simps bindE_def attemptE_def map_err_def PackIndex_load_def fs_read_def)

text \<open>
  C12. A sweep that fails half way leaves blobs unreadable that it was to keep. It returns at the first
  I/O error, without dropping the pack cache; a blob that the cache places in a pack whose index
  this sweep has already removed cannot be read through this store any more, however often it is
  tried and whatever other pack holds it, although \<open>has_blob\<close> affirms it.
\<close>

theorem failed_sweep_hides_blobs:
  assumes "sweep E live options s = (Inl e, t)"
    and "guarded (store_packs (self s)) = Some cache" and "\<not> poisoned (store_packs (self s))"
    and "PackCache_find E cache h = Some (p, off)" and "node_at t (with_extension p ''idx'') = None"
    and "\<not> path_exists t (blob_path (self s) h)"
    and "cached s h = None" and "\<not> poisoned (blob_cache (self s))"
  shows "(\<exists>x. get_blob E h t = (Inl (Pack (PackIo x)), t)) \<and> has_blob E h t = (Inr True, t)"
proof -
  have same: "self t = self s"
    by (rule failed_sweep_self [OF assms(1)])
  note lookup = stale_lookup [of t, unfolded same, OF assms(2-6)]
  show ?thesis
    using lookup assms(7,8) same by (simp add: get_blob_unhit cached_def bindE_def)
qed

section \<open>Two packs and a refused removal\<close>

text \<open>
  The pack \<open>p\<close> holds the blobs 1 and 2 and the pack \<open>q\<close> the blob 1 alone; 1 is live. The sweep is to
  remove \<open>p\<close>; it removes \<open>p.idx\<close>, and the removal of \<open>p.pack\<close> is refused.
\<close>

definition toy_q_path :: path where
  "toy_q_path = [''r'', ''objects'', ''pack'', ''q.pack'']"

definition toy_q_ies :: "pack_index_entry list" where
  "toy_q_ies = [\<lparr>entry_hash = hash_of [1], entry_offset = 12\<rparr>]"

definition toy_pair :: world where
  "toy_pair = (toy_world False
     [(toy_pack_path, File toy_pd), (toy_idx_path, File (serialize_index toy_ies)),
      (toy_q_path, File (pack_header [(hash_of [1], [1])] @ object_bytes (hash_of [1]) [1] [1])),
      ([''r'', ''objects'', ''pack'', ''q.idx''], File (serialize_index toy_q_ies))])
    \<lparr>pending := [Proceed, Refuse],
     self := (toy_store False)\<lparr>store_packs := Mutex False (Some
       \<lparr>indices = [(toy_pack_path, \<lparr>entries = toy_ies\<rparr>), (toy_q_path, \<lparr>entries = toy_q_ies\<rparr>)]\<rparr>)\<rparr>\<rparr>"

abbreviation toy_deleting :: sweep_options where
  "toy_deleting \<equiv> \<lparr>mode = Delete, rewrite_partial_packs = True\<rparr>"

lemma toy_pair_plan:
  "case fst (plan_sweep {hash_of [1]} toy_pair) of
     Inl e \<Rightarrow> False
   | Inr plan \<Rightarrow> packs_to_remove plan = [toy_pack_path] \<and> packs_to_rewrite plan = [] \<and>
       loose_garbage plan = [] \<and> orphan_files plan = []"
  by code_simp

lemma delete_proceeds:
  "pending s = Proceed # fs \<Longrightarrow> node_at s p = Some (File b) \<Longrightarrow>
     remove_or_trash Delete trash_root p s = (Inr (length b), del_node p (s\<lparr>pending := fs\<rparr>))"
  by (simp add: remove_or_trash_def file_len_def metadata_len_def bindE_def map_err_def fs_remove_file_def
      next_fault_def run_atoms)

lemma delete_refused:
  "pending s = Refuse # fs \<Longrightarrow> node_at s p = Some (File b) \<Longrightarrow>
     remove_or_trash Delete trash_root p s = (Inl (Io OtherIo), s\<lparr>pending := fs\<rparr>)"
  by (simp add: remove_or_trash_def file_len_def metadata_len_def bindE_def map_err_def fs_remove_file_def
      next_fault_def run_atoms)

lemma toy_pair_fields:
  "node_at toy_pair toy_pack_path = Some (File toy_pd)" "node_at toy_pair toy_idx_path = Some (File (serialize_index toy_ies))"
  "pending toy_pair = [Proceed, Refuse]"
  by (simp_all add: toy_pair_def node_at_def toy_world_def toy_paths)

lemma toy_pair_sweep:
  "sweep (toy_env False) {hash_of [1]} toy_deleting toy_pair =
     (Inl (Io OtherIo), (del_node toy_idx_path (toy_pair\<lparr>pending := [Refuse]\<rparr>))\<lparr>pending := []\<rparr>)"
proof -
  obtain plan where "fst (plan_sweep {hash_of [1]} toy_pair) = Inr plan"
    and plan: "packs_to_remove plan = [toy_pack_path]" "packs_to_rewrite plan = []" "loose_garbage plan = []"
      "orphan_files plan = []"
    using toy_pair_plan by (auto split: sum.splits)
  moreover have "snd (plan_sweep {hash_of [1]} toy_pair) = toy_pair"
    by (rule readsD [OF _ prod.collapse [symmetric]]) (rule hoare)
  ultimately have run: "plan_sweep {hash_of [1]} toy_pair = (Inr plan, toy_pair)"
    by (simp add: prod_eq_iff)
  have ne: "toy_pack_path \<noteq> toy_idx_path"
    by (simp add: toy_pack_path_def toy_idx_path_def)
  let ?u = "del_node toy_idx_path (toy_pair\<lparr>pending := [Refuse]\<rparr>)"
  have first: "remove_or_trash Delete tr toy_idx_path toy_pair = (Inr (length (serialize_index toy_ies)), ?u)" for tr
    using toy_pair_fields by (intro delete_proceeds) simp_all
  have second: "remove_or_trash Delete tr toy_pack_path ?u = (Inl (Io OtherIo), ?u\<lparr>pending := []\<rparr>)" for tr
    using toy_pair_fields ne by (intro delete_refused [where b = toy_pd]) (simp_all add: disk_nodes.look_del)
  have "path_exists toy_pair toy_idx_path" "path_exists ?u toy_pack_path"
    using toy_pair_fields ne by (simp_all add: path_exists_def disk_nodes.look_del)
  with first second have pair: "foldE (remove_if_there Delete tr) [toy_idx_path, toy_pack_path] n toy_pair =
      (Inl (Io OtherIo), ?u\<lparr>pending := []\<rparr>)" for tr n
    by (simp add: remove_if_there_def bindE_def run_atoms)
  then have pack: "remove_pack Delete tr toy_pack_path acc toy_pair = (Inl (Io OtherIo), ?u\<lparr>pending := []\<rparr>)" for tr acc
    by (cases acc) (simp add: remove_pack_def toy_pack_with_idx bindE_def del: foldE.simps)
  show ?thesis
    using plan
    by (simp add: sweep_def run bindE_def execute_plan_def Let_def rewrite_phase_def loose_phase_def
        orphan_phase_def pack_phase_def removals_def pack run_atoms)
qed

lemma toy_pair_after:
  defines "t \<equiv> (del_node toy_idx_path (toy_pair\<lparr>pending := [Refuse]\<rparr>))\<lparr>pending := []\<rparr>"
  shows "node_at t toy_idx_path = None" "\<not> path_exists t (blob_path (toy_store False) (hash_of [1]))"
    "pack_serves (toy_env False) t toy_q_path (hash_of [1]) [1]"
proof -
  show "node_at t toy_idx_path = None"
    by (simp add: t_def disk_nodes.look_del)
  have "take 2 (to_hex (hash_of [1])) = ''01''" by code_simp
  then show "\<not> path_exists t (blob_path (toy_store False) (hash_of [1]))"
    by (simp add: t_def path_exists_def blob_path_loose_at loose_at_def disk_nodes.look_del)
      (simp add: toy_pair_def node_at_def toy_world_def toy_paths toy_q_path_def)
  have q: "with_extension toy_q_path ''idx'' = [''r'', ''objects'', ''pack'', ''q.idx'']"
    using pack_to_idx [of "''q''" "[''r'', ''objects'', ''pack'']"] by (simp add: toy_q_path_def)
  have "node_at t toy_q_path = Some (File (pack_header [(hash_of [1], [1])] @ object_bytes (hash_of [1]) [1] [1]))"
    "node_at t [''r'', ''objects'', ''pack'', ''q.idx''] = Some (File (serialize_index toy_q_ies))"
    by (simp_all add: t_def disk_nodes.look_del toy_idx_path_def toy_q_path_def)
      (simp_all add: toy_pair_def node_at_def toy_world_def toy_paths toy_q_path_def)
  then show "pack_serves (toy_env False) t toy_q_path (hash_of [1]) [1]"
    using q by (intro pack_files_serve [OF _ toy_single(1), where pd = "pack_header [(hash_of [1], [1])] @ object_bytes (hash_of [1]) [1] [1]"
          and ies = toy_q_ies]) (simp_all add: toy_q_ies_def)
qed

lemma toy_pair_find:
  "PackCache_find (toy_env False) \<lparr>indices = [(toy_pack_path, \<lparr>entries = toy_ies\<rparr>), (toy_q_path, \<lparr>entries = toy_q_ies\<rparr>)]\<rparr>
     (hash_of [1]) = Some (toy_pack_path, 12)"
  by code_simp

theorem failed_sweep_hides_blobs_witness:
  "\<exists>t. sweep (toy_env False) {hash_of [1]} toy_deleting toy_pair = (Inl (Io OtherIo), t) \<and>
     (\<exists>x. get_blob (toy_env False) (hash_of [1]) t = (Inl (Pack (PackIo x)), t)) \<and>
     pack_serves (toy_env False) t toy_q_path (hash_of [1]) [1]"
proof -
  note after = toy_pair_after
  have "self toy_pair = (toy_store False)\<lparr>store_packs := Mutex False (Some
      \<lparr>indices = [(toy_pack_path, \<lparr>entries = toy_ies\<rparr>), (toy_q_path, \<lparr>entries = toy_q_ies\<rparr>)]\<rparr>)\<rparr>"
    by (simp add: toy_pair_def)
  with failed_sweep_hides_blobs [OF toy_pair_sweep, of _ "hash_of [1]" toy_pack_path 12] after toy_pair_find toy_pair_sweep
  show ?thesis
    by (simp add: toy_pack_with_idx blob_path_loose_at cached_def)
qed

end
