(* ===== verification/Threads.thy ===== *)
theory Threads
  imports Refinement
begin

text \<open>
  Threads that share one store (\<open>Arc<BlobStore>\<close>). \<open>put_blob\<close>, \<open>put_blob_new\<close> and \<open>get_blob\<close> are cut
  where another thread can come in between: at every operation of the file system and at every section under
  a mutex. \<open>fs::write\<close> is \<open>File::create\<close>, which truncates, followed by any number of partial
  writes, each at the offset of its own file descriptor; a write past the end fills the gap with
  zeros. The disk works and nothing else removes files meanwhile. One reading of a blob from the disk
  is one step.
\<close>

section \<open>Threads and their steps\<close>

text \<open>
  Where a thread stands in \<open>put_blob data\<close>, in \<open>put_blob_new data\<close> or in \<open>get_blob h\<close>; the two puts
  differ in what they do with a file that is there.
\<close>

datatype thread =
    PutStart bytes
  | PutNewStart bytes
  | PutDir bytes
  | PutMake bytes
  | PutNote bytes
  | PutWrite bytes
  | PutWriting bytes bytes nat
  | PutDone bytes "cas_error + hash"
  | GetStart hash
  | GetMiss hash
  | GetKeep hash bytes
  | GetDone hash "cas_error + bytes"

text \<open>The path that a put of the data writes, and \<open>write(2)\<close> at an offset.\<close>

definition put_path :: "env \<Rightarrow> world \<Rightarrow> bytes \<Rightarrow> path" where
  "put_path E s data = blob_path (self s) (hash_bytes E data)"

definition write_at :: "nat \<Rightarrow> bytes \<Rightarrow> bytes \<Rightarrow> bytes" where
  "write_at off bs c =
     take off (c @ replicate (off - length c) 0) @ bs @ drop (off + length bs) c"

text \<open>The second half of \<open>ensure_parent_dir\<close>.\<close>

definition note_dir :: "path \<Rightarrow> unit store_prog" where
  "note_dir parent = bindE (lock known_dirs) (\<lambda>known. set_known_dirs (insert parent known))"

inductive thread_step :: "env \<Rightarrow> world \<Rightarrow> thread \<Rightarrow> world \<Rightarrow> thread \<Rightarrow> bool" for E where
  put_there: "path_exists s (put_path E s data) \<Longrightarrow>
    thread_step E s (PutStart data) s (PutDone data (Inr (hash_bytes E data)))"
| put_absent: "\<not> path_exists s (put_path E s data) \<Longrightarrow> thread_step E s (PutStart data) s (PutDir data)"
| put_new_there: "path_exists s (put_path E s data) \<Longrightarrow>
    thread_step E s (PutNewStart data) s (PutDone data (Inl (AlreadyExists (to_hex (hash_bytes E data)))))"
| put_new_absent: "\<not> path_exists s (put_path E s data) \<Longrightarrow> thread_step E s (PutNewStart data) s (PutDir data)"
| put_poisoned: "lock known_dirs s = (Inl e, s) \<Longrightarrow> thread_step E s (PutDir data) s (PutDone data (Inl e))"
| put_known: "lock known_dirs s = (Inr known, s) \<Longrightarrow> butlast (put_path E s data) \<in> known \<Longrightarrow>
    thread_step E s (PutDir data) s (PutWrite data)"
| put_unknown: "lock known_dirs s = (Inr known, s) \<Longrightarrow> butlast (put_path E s data) \<notin> known \<Longrightarrow>
    thread_step E s (PutDir data) s (PutMake data)"
| put_made: "create_dir_all (butlast (put_path E s data)) s = (Inr u, t) \<Longrightarrow>
    thread_step E s (PutMake data) t (PutNote data)"
| put_unmade: "create_dir_all (butlast (put_path E s data)) s = (Inl e, t) \<Longrightarrow>
    thread_step E s (PutMake data) t (PutDone data (Inl (Io e)))"
| put_noted: "note_dir (butlast (put_path E s data)) s = (Inr u, t) \<Longrightarrow>
    thread_step E s (PutNote data) t (PutWrite data)"
| put_unnoted: "note_dir (butlast (put_path E s data)) s = (Inl e, t) \<Longrightarrow>
    thread_step E s (PutNote data) t (PutDone data (Inl e))"
| put_uncompressed: "blob_image E (self s) data = Inl e \<Longrightarrow>
    thread_step E s (PutWrite data) s (PutDone data (Inl e))"
| put_refused: "blob_image E (self s) data = Inr raw \<Longrightarrow> write_error s (put_path E s data) = Some e \<Longrightarrow>
    thread_step E s (PutWrite data) s (PutDone data (Inl (Io e)))"
| put_opened: "blob_image E (self s) data = Inr raw \<Longrightarrow> write_error s (put_path E s data) = None \<Longrightarrow>
    thread_step E s (PutWrite data) (put_node (put_path E s data) (File []) s) (PutWriting data raw 0)"
| put_chunk: "0 < n \<Longrightarrow> off + n \<le> length raw \<Longrightarrow> node_at s (put_path E s data) = Some (File c) \<Longrightarrow>
    thread_step E s (PutWriting data raw off)
      (put_node (put_path E s data) (File (write_at off (take n (drop off raw)) c)) s)
      (PutWriting data raw (off + n))"
| put_finished: "off = length raw \<Longrightarrow>
    thread_step E s (PutWriting data raw off) s (PutDone data (Inr (hash_bytes E data)))"
| get_poisoned: "lock blob_cache s = (Inl e, s) \<Longrightarrow> thread_step E s (GetStart h) s (GetDone h (Inl e))"
| get_hit: "cached s h \<noteq> None \<Longrightarrow> get_blob E h s = (r, t) \<Longrightarrow> \<not> poisoned (blob_cache (self s)) \<Longrightarrow>
    thread_step E s (GetStart h) t (GetDone h r)"
| get_missed: "cached s h = None \<Longrightarrow> \<not> poisoned (blob_cache (self s)) \<Longrightarrow>
    thread_step E s (GetStart h) s (GetMiss h)"
| get_failed: "get_blob_miss E h s = (Inl e, t) \<Longrightarrow> thread_step E s (GetMiss h) t (GetDone h (Inl e))"
| get_read: "get_blob_miss E h s = (Inr data, t) \<Longrightarrow> thread_step E s (GetMiss h) t (GetKeep h data)"
| get_kept: "cache_blob h data s = (r, t) \<Longrightarrow> thread_step E s (GetKeep h data) t (GetDone h (Inr data))"

inductive_cases thread_stepE: "thread_step E s th t th'"

text \<open>A pool of threads: one of them makes a step.\<close>

inductive pool_step :: "env \<Rightarrow> world \<times> thread list \<Rightarrow> world \<times> thread list \<Rightarrow> bool" for E where
  turn: "i < length ts \<Longrightarrow> thread_step E s (ts ! i) t th \<Longrightarrow> pool_step E (s, ts) (t, ts[i := th])"

abbreviation runs_to :: "env \<Rightarrow> world \<times> thread list \<Rightarrow> world \<times> thread list \<Rightarrow> bool" where
  "runs_to E \<equiv> rtranclp (pool_step E)"

lemma runs_to_invariant:
  assumes "runs_to E (s, ts) (t, us)" and "P s ts"
    and "\<And>s ts i t th. P s ts \<Longrightarrow> i < length ts \<Longrightarrow> thread_step E s (ts ! i) t th \<Longrightarrow> P t (ts[i := th])"
  shows "P t us"
proof -
  have "runs_to E x y \<Longrightarrow> P (fst x) (snd x) \<Longrightarrow> P (fst y) (snd y)" for x y
    by (induction rule: rtranclp_induct) (auto elim!: pool_step.cases dest: assms(3))
  from this [OF assms(1)] assms(2) show ?thesis by simp
qed

section \<open>A thread alone is the sequential call\<close>

lemma alone: "thread_step E s th t th' \<Longrightarrow> pool_step E (s, [th]) (t, [th'])"
  using turn [of 0 "[th]"] by simp

lemma alone_then:
  assumes "thread_step E s th t th'" and "runs_to E (t, [th']) q"
  shows "runs_to E (s, [th]) q"
  using alone [OF assms(1)] assms(2) by (rule converse_rtranclp_into_rtranclp)

lemma update_again: "AList.update k v (AList.update k w al) = AList.update k v al"
  by (induction al) auto

lemma put_node_again: "put_node p n (put_node p m s) = put_node p n s"
  by (simp add: put_node_def update_again)

lemma write_whole: "write_at 0 raw [] = raw"
  by (simp add: write_at_def)

lemma put_tail_runs:
  assumes "pending s = []" and "write_blob E (put_path E s data) data s = (r, t)"
  shows "runs_to E (s, [PutWrite data]) (t, [PutDone data (case r of Inl e \<Rightarrow> Inl e | Inr u \<Rightarrow> Inr (hash_bytes E data))])"
proof -
  let ?p = "put_path E s data"
  consider (image) e where "blob_image E (self s) data = Inl e"
    | (refused) raw e where "blob_image E (self s) data = Inr raw" "write_error s ?p = Some e"
    | (written) raw where "blob_image E (self s) data = Inr raw" "write_error s ?p = None"
    by (metis not_None_eq sum.exhaust)
  then show ?thesis
  proof cases
    case image
    with assms(2) have "r = Inl e" "t = s" by (simp_all add: write_blob_eq)
    with put_uncompressed [OF image] show ?thesis by (auto intro: alone_then)
  next
    case refused
    with assms have "r = Inl (Io e)" "t = s"
      by (simp_all add: write_blob_eq map_err_def fs_write_def bindE_def run_simps)
    with put_refused [OF refused] show ?thesis by (auto intro: alone_then)
  next
    case written
    with assms have rt: "r = Inr ()" "t = put_node ?p (File raw) s"
      by (simp_all add: write_blob_eq map_err_def quiet_write)
    let ?u = "put_node ?p (File []) s"
    have path: "put_path E ?u data = ?p"
      by (simp add: put_path_def put_node_def)
    have "runs_to E (?u, [PutWriting data raw 0]) (t, [PutWriting data raw (length raw)])"
    proof (cases "raw = []")
      case False
      then have "thread_step E ?u (PutWriting data raw 0)
          (put_node (put_path E ?u data) (File (write_at 0 (take (length raw) (drop 0 raw)) [])) ?u)
          (PutWriting data raw (0 + length raw))"
        by (intro put_chunk) (simp_all add: path disk_nodes.look_put)
      then show ?thesis
        using rt(2) by (auto simp: path put_node_again write_whole intro: alone_then)
    qed (use rt(2) in simp)
    then have "runs_to E (?u, [PutWriting data raw 0]) (t, [PutDone data (Inr (hash_bytes E data))])"
      by (rule rtranclp.rtrancl_into_rtrancl) (rule alone [OF put_finished [OF refl]])
    with put_opened [OF written] rt(1) show ?thesis by (auto intro: alone_then)
  qed
qed

lemma made_dir:
  assumes "create_dir_all dir s = (Inr u, v)" and "\<not> poisoned (known_dirs (self s))"
    and "dir \<notin> guarded (known_dirs (self s))"
  obtains w where "self v = self s" and "note_dir dir v = (Inr (), w)" and "ensure_parent_dir dir s = (Inr (), w)"
proof -
  have same: "self v = self s"
    using upholdsD [OF preserves_self_disk [OF confined_create_dir_all] assms(1)] by simp
  obtain w where noted: "note_dir dir v = (Inr (), w)"
    using assms(2) same by (simp add: note_dir_def run_simps set_known_dirs_def)
  then have "ensure_parent_dir dir s = (Inr (), w)"
    using assms by (simp add: ensure_parent_dir_def note_dir_def run_simps bindE_def map_err_def)
  with same noted show thesis by (rule that)
qed

lemma make_dir_runs:
  assumes "\<not> poisoned (known_dirs (self s))" and "butlast (put_path E s data) \<notin> guarded (known_dirs (self s))"
    and "create_dir_all (butlast (put_path E s data)) s = (Inr u, v)"
    and "note_dir (butlast (put_path E s data)) v = (Inr (), w)" and "self v = self s"
  shows "runs_to E (s, [PutDir data]) (w, [PutWrite data])"
proof -
  have "put_path E v data = put_path E s data"
    using assms(5) by (simp add: put_path_def)
  then have "thread_step E v (PutNote data) w (PutWrite data)"
    using assms(4) by (intro put_noted) simp
  moreover have "thread_step E s (PutMake data) v (PutNote data)"
    using assms(3) by (intro put_made)
  moreover have "thread_step E s (PutDir data) s (PutMake data)"
    using assms(1,2) by (intro put_unknown) (simp_all add: lock_eq)
  ultimately show ?thesis
    by (blast intro: alone_then)
qed

lemma pending_make_dir: "create_dir_all p d = (r, t) \<Longrightarrow> pending d = [] \<Longrightarrow> pending t = []"
  by (auto simp: create_dir_all_def bindE_eq quiet_next_fault split: option.splits node.splits if_splits)

lemma pending_note_dir: "note_dir p s = (r, t) \<Longrightarrow> pending t = pending s"
  by (auto simp: note_dir_def run_simps set_known_dirs_def run_atoms split: if_splits)

lemma pending_parent_dir: "ensure_parent_dir p s = (r, t) \<Longrightarrow> pending s = [] \<Longrightarrow> pending t = []"
  by (auto simp: ensure_parent_dir_def run_simps bindE_eq map_err_eq set_known_dirs_def run_atoms
      pending_make_dir split: if_splits)

lemma parent_dir_path: "ensure_parent_dir p s = (r, t) \<Longrightarrow> put_path E t data = put_path E s data"
  using store_step_config [OF upholdsD [OF changes_only_ensure_parent_dir [of "{}"]]]
  by (fastforce simp: same_config_def put_path_def blob_path_loose_at)

lemma parent_dir_image: "ensure_parent_dir p s = (r, t) \<Longrightarrow> blob_image E (self t) data = blob_image E (self s) data"
  using store_step_config [OF upholdsD [OF changes_only_ensure_parent_dir [of "{}"]]]
  by (fastforce simp: same_config_def blob_image_def)

lemma parent_dir_runs:
  assumes "ensure_parent_dir (butlast (put_path E s data)) s = (r, t)"
  shows "runs_to E (s, [PutDir data]) (t, [case r of Inl e \<Rightarrow> PutDone data (Inl e) | Inr u \<Rightarrow> PutWrite data])"
proof -
  let ?dir = "butlast (put_path E s data)"
  consider (poisoned) "poisoned (known_dirs (self s))"
    | (known) "\<not> poisoned (known_dirs (self s))" "?dir \<in> guarded (known_dirs (self s))"
    | (unmade) e v where "\<not> poisoned (known_dirs (self s))" "?dir \<notin> guarded (known_dirs (self s))"
        "create_dir_all ?dir s = (Inl e, v)"
    | (made) u v where "\<not> poisoned (known_dirs (self s))" "?dir \<notin> guarded (known_dirs (self s))"
        "create_dir_all ?dir s = (Inr u, v)"
    by (metis obj_sumE surj_pair)
  then show ?thesis
  proof cases
    case poisoned
    then have "thread_step E s (PutDir data) s (PutDone data (Inl (LockPoisoned poison_text)))"
      by (intro put_poisoned) (simp add: lock_eq)
    with poisoned assms show ?thesis
      by (auto simp: ensure_parent_dir_def run_simps intro: alone_then)
  next
    case known
    then have "thread_step E s (PutDir data) s (PutWrite data)"
      by (intro put_known) (simp_all add: lock_eq)
    with known assms show ?thesis
      by (auto simp: ensure_parent_dir_def run_simps intro: alone_then)
  next
    case unmade
    then have "thread_step E s (PutDir data) s (PutMake data)"
      by (intro put_unknown) (simp_all add: lock_eq)
    moreover have "thread_step E s (PutMake data) v (PutDone data (Inl (Io e)))"
      using unmade(3) by (rule put_unmade)
    moreover have "r = Inl (Io e)" "t = v"
      using unmade assms by (simp_all add: ensure_parent_dir_def run_simps bindE_def map_err_def)
    ultimately show ?thesis by (auto intro: alone_then)
  next
    case made
    obtain w where w: "self v = self s" "note_dir ?dir v = (Inr (), w)" "ensure_parent_dir ?dir s = (Inr (), w)"
      by (rule made_dir [OF made(3,1,2)])
    with assms make_dir_runs [OF made w(2,1)] show ?thesis by auto
  qed
qed

lemma put_blob_absent_eq:
  assumes "\<not> path_exists s (put_path E s data)"
  shows "put_blob E data s =
    bindE (ensure_parent_dir (butlast (put_path E s data))) (\<lambda>_.
      bindE (write_blob E (put_path E s data) data) (\<lambda>_. returnE (hash_bytes E data))) s"
    and "put_blob_new E data s = put_blob E data s"
  using assms by (simp_all add: put_blob_def put_blob_new_def put_path_def Let_def run_simps)

lemmas put_blob_new_found = put_blob_new_there [folded put_path_def]

text \<open>Once the file was found absent.\<close>

lemma put_absent_runs:
  assumes "pending s = []" and "put_blob E data s = (r, t)" and "\<not> path_exists s (put_path E s data)"
  shows "runs_to E (s, [PutDir data]) (t, [PutDone data r])"
proof -
  let ?p = "put_path E s data"
  obtain q v where dir: "ensure_parent_dir (butlast ?p) s = (q, v)"
    by (cases "ensure_parent_dir (butlast ?p) s")
  have "runs_to E (v, [case q of Inl e \<Rightarrow> PutDone data (Inl e) | Inr u \<Rightarrow> PutWrite data]) (t, [PutDone data r])"
  proof (cases q)
    case (Inl e)
    with assms(2,3) dir show ?thesis by (simp add: put_blob_absent_eq bindE_def)
  next
    case (Inr u)
    obtain w x where wr: "write_blob E (put_path E v data) data v = (w, x)"
      by (cases "write_blob E (put_path E v data) data v")
    then have "x = t" "r = (case w of Inl e \<Rightarrow> Inl e | Inr u \<Rightarrow> Inr (hash_bytes E data))"
      using assms(2,3) dir Inr
      by (auto simp: put_blob_absent_eq bindE_def parent_dir_path [OF dir] run_atoms split: sum.splits)
    with put_tail_runs [OF pending_parent_dir [OF dir assms(1)] wr] Inr show ?thesis by simp
  qed
  then show ?thesis
    using parent_dir_runs [OF dir] by (rule rtranclp_trans [rotated])
qed

lemma put_runs:
  assumes "pending s = []"
  shows "put_blob E data s = (r, t) \<Longrightarrow> runs_to E (s, [PutStart data]) (t, [PutDone data r])"
    and "put_blob_new E data s = (r, t) \<Longrightarrow> runs_to E (s, [PutNewStart data]) (t, [PutDone data r])"
proof -
  note absent = put_absent_runs [OF assms]
  show "runs_to E (s, [PutStart data]) (t, [PutDone data r])" if "put_blob E data s = (r, t)"
  proof (cases "path_exists s (put_path E s data)")
    case True
    with put_there [OF this] that show ?thesis
      by (auto simp: put_path_def put_blob_there intro: alone_then)
  next
    case False
    with absent [OF that False] put_absent [OF False] show ?thesis by (blast intro: alone_then)
  qed
  show "runs_to E (s, [PutNewStart data]) (t, [PutDone data r])" if "put_blob_new E data s = (r, t)"
  proof (cases "path_exists s (put_path E s data)")
    case True
    with put_new_there [OF this] that show ?thesis
      by (auto simp: put_blob_new_found intro: alone_then)
  next
    case False
    with that have "put_blob E data s = (r, t)"
      by (simp add: put_blob_absent_eq(2))
    from absent [OF this False] put_new_absent [OF False] show ?thesis by (blast intro: alone_then)
  qed
qed

text \<open>Conversely, how far the call has come where the thread stands.\<close>

definition put_call :: "bool \<Rightarrow> env \<Rightarrow> bytes \<Rightarrow> hash store_prog" where
  "put_call new = (if new then put_blob_new else put_blob)"

lemma put_call_absent:
  "\<not> path_exists s (put_path E s data) \<Longrightarrow> put_call new E data s =
    bindE (ensure_parent_dir (butlast (put_path E s data))) (\<lambda>_.
      bindE (write_blob E (put_path E s data) data) (\<lambda>_. returnE (hash_bytes E data))) s"
  by (simp add: put_call_def put_blob_absent_eq)

definition put_progress :: "bool \<Rightarrow> env \<Rightarrow> world \<Rightarrow> bytes \<Rightarrow> world \<Rightarrow> thread \<Rightarrow> bool" where
  "put_progress new E s data t th \<longleftrightarrow>
     (let p = put_path E s data; fresh = (\<not> path_exists s p); dir = ensure_parent_dir (butlast p) s in
      case th of
        PutStart d \<Rightarrow> d = data \<and> t = s \<and> \<not> new
      | PutNewStart d \<Rightarrow> d = data \<and> t = s \<and> new
      | PutDir d \<Rightarrow> d = data \<and> t = s \<and> fresh
      | PutMake d \<Rightarrow> d = data \<and> t = s \<and> fresh \<and> \<not> poisoned (known_dirs (self s)) \<and>
          butlast p \<notin> guarded (known_dirs (self s))
      | PutNote d \<Rightarrow> d = data \<and> fresh \<and> \<not> poisoned (known_dirs (self s)) \<and>
          butlast p \<notin> guarded (known_dirs (self s)) \<and> create_dir_all (butlast p) s = (Inr (), t)
      | PutWrite d \<Rightarrow> d = data \<and> fresh \<and> dir = (Inr (), t)
      | PutWriting d raw off \<Rightarrow> d = data \<and> fresh \<and> off \<le> length raw \<and> blob_image E (self s) data = Inr raw \<and>
          (\<exists>u. dir = (Inr (), u) \<and> write_error u p = None \<and> t = put_node p (File (take off raw)) u)
      | PutDone d r \<Rightarrow> d = data \<and> put_call new E data s = (r, t)
      | _ \<Rightarrow> False)"

lemma write_chunk: "off + n \<le> length raw \<Longrightarrow> write_at off (take n (drop off raw)) (take off raw) = take (off + n) raw"
  by (simp add: write_at_def take_add)

lemma put_progress_step:
  assumes "pending s = []" and "put_progress new E s data t th" and "thread_step E t th u th'"
  shows "put_progress new E s data u th'"
  using assms(3)
proof (cases rule: thread_step.cases)
  case (put_there d)
  then show ?thesis
    using assms(2) by (auto simp: put_progress_def Let_def put_path_def put_blob_there put_call_def)
next
  case (put_new_there d)
  then show ?thesis
    using assms(2) by (auto simp: put_progress_def Let_def put_blob_new_found put_call_def)
next
  case (put_new_absent d)
  then show ?thesis
    using assms(2) by (auto simp: put_progress_def Let_def)
next
  case (put_absent d)
  then show ?thesis
    using assms(2) by (auto simp: put_progress_def Let_def)
next
  case (put_poisoned e d)
  then show ?thesis
    using assms(2) by (auto simp: put_progress_def Let_def put_call_absent ensure_parent_dir_def bindE_def)
next
  case (put_known known d)
  then show ?thesis
    using assms(2) by (auto simp: put_progress_def Let_def ensure_parent_dir_def lock_eq run_simps split: if_splits)
next
  case (put_unknown known d)
  then show ?thesis
    using assms(2) by (auto simp: put_progress_def Let_def lock_eq split: if_splits)
next
  case (put_made d x)
  then show ?thesis
    using assms(2) by (auto simp: put_progress_def Let_def)
next
  case (put_unmade d e)
  then show ?thesis
    using assms(2)
    by (auto simp: put_progress_def Let_def put_call_absent ensure_parent_dir_def bindE_def map_err_def lock_eq)
next
  case (put_noted d x)
  then have made: "d = data" "\<not> path_exists s (put_path E s data)" "\<not> poisoned (known_dirs (self s))"
      "butlast (put_path E s data) \<notin> guarded (known_dirs (self s))"
      "create_dir_all (butlast (put_path E s data)) s = (Inr (), t)"
    using assms(2) by (simp_all add: put_progress_def Let_def)
  obtain w where "self t = self s" "note_dir (butlast (put_path E s data)) t = (Inr (), w)"
      "ensure_parent_dir (butlast (put_path E s data)) s = (Inr (), w)"
    by (rule made_dir [OF made(5,3,4)])
  with put_noted made show ?thesis
    by (simp add: put_progress_def Let_def put_path_def)
next
  case (put_unnoted d e)
  then have made: "d = data" "\<not> poisoned (known_dirs (self s))"
      "butlast (put_path E s data) \<notin> guarded (known_dirs (self s))"
      "create_dir_all (butlast (put_path E s data)) s = (Inr (), t)"
    using assms(2) by (simp_all add: put_progress_def Let_def)
  obtain w where "self t = self s" "note_dir (butlast (put_path E s data)) t = (Inr (), w)"
    by (rule made_dir [OF made(4,2,3)])
  with put_unnoted made(1) show ?thesis
    by (simp add: put_path_def)
next
  case (put_uncompressed d e)
  then have dir: "d = data" "\<not> path_exists s (put_path E s data)"
      "ensure_parent_dir (butlast (put_path E s data)) s = (Inr (), t)"
    using assms(2) by (simp_all add: put_progress_def Let_def)
  with put_uncompressed show ?thesis
    by (simp add: put_progress_def Let_def put_call_absent bindE_def write_blob_eq)
next
  case (put_refused d raw e)
  then have dir: "d = data" "\<not> path_exists s (put_path E s data)"
      "ensure_parent_dir (butlast (put_path E s data)) s = (Inr (), t)"
    using assms(2) by (simp_all add: put_progress_def Let_def)
  with put_refused parent_dir_path [OF dir(3)] pending_parent_dir [OF dir(3) assms(1)] show ?thesis
    by (simp add: put_progress_def Let_def put_call_absent bindE_def write_blob_eq map_err_def
        fs_write_def quiet_next_fault)
next
  case (put_opened d raw)
  then have dir: "d = data" "\<not> path_exists s (put_path E s data)"
      "ensure_parent_dir (butlast (put_path E s data)) s = (Inr (), t)"
    using assms(2) by (simp_all add: put_progress_def Let_def)
  with put_opened parent_dir_path [OF dir(3)] parent_dir_image [OF dir(3)] show ?thesis
    by (auto simp: put_progress_def Let_def)
next
  case (put_chunk n off raw d c)
  then obtain v where dir: "d = data" "\<not> path_exists s (put_path E s data)" "blob_image E (self s) data = Inr raw"
      "ensure_parent_dir (butlast (put_path E s data)) s = (Inr (), v)" "write_error v (put_path E s data) = None"
      "t = put_node (put_path E s data) (File (take off raw)) v"
    using assms(2) by (auto simp: put_progress_def Let_def)
  have "put_path E t data = put_path E s data"
    using parent_dir_path [OF dir(4)] dir(6) by (simp add: put_path_def put_node_def)
  with put_chunk dir show ?thesis
    by (auto simp: put_progress_def Let_def disk_nodes.look_put write_chunk put_node_again)
next
  case (put_finished off raw d)
  then obtain v where dir: "d = data" "\<not> path_exists s (put_path E s data)" "blob_image E (self s) data = Inr raw"
      "ensure_parent_dir (butlast (put_path E s data)) s = (Inr (), v)" "write_error v (put_path E s data) = None"
      "t = put_node (put_path E s data) (File raw) v"
    using assms(2) by (auto simp: put_progress_def Let_def)
  with put_finished parent_dir_image [OF dir(4)] pending_parent_dir [OF dir(4) assms(1)] show ?thesis
    by (simp add: put_progress_def Let_def put_call_absent bindE_def write_blob_eq map_err_def quiet_write
        run_atoms)
qed (use assms(2) in \<open>auto simp: put_progress_def Let_def\<close>)

text \<open>The same for a get; its reading of the disk is one step.\<close>

definition get_progress :: "env \<Rightarrow> world \<Rightarrow> hash \<Rightarrow> world \<Rightarrow> thread \<Rightarrow> bool" where
  "get_progress E s h t th \<longleftrightarrow>
     (case th of
        GetStart g \<Rightarrow> g = h \<and> t = s
      | GetMiss g \<Rightarrow> g = h \<and> t = s \<and> cached s h = None \<and> \<not> poisoned (blob_cache (self s))
      | GetKeep g data \<Rightarrow> g = h \<and> cached s h = None \<and> \<not> poisoned (blob_cache (self s)) \<and>
          get_blob_miss E h s = (Inr data, t)
      | GetDone g r \<Rightarrow> g = h \<and> get_blob E h s = (r, t)
      | _ \<Rightarrow> False)"

lemma get_progress_step:
  assumes "get_progress E s h t th" and "thread_step E t th u th'"
  shows "get_progress E s h u th'"
  using assms(2)
proof (cases rule: thread_step.cases)
  case (get_kept g data r)
  then show ?thesis
    using assms(1) by (auto simp: get_progress_def get_blob_unhit bindE_def cache_blob_eq run_atoms)
qed (use assms(1) in \<open>auto simp: get_progress_def get_blob_poisoned get_blob_unhit bindE_def lock_eq split: if_splits\<close>)

lemma get_runs:
  assumes "get_blob E h s = (r, t)"
  shows "runs_to E (s, [GetStart h]) (t, [GetDone h r])"
proof -
  consider (poisoned) "poisoned (blob_cache (self s))"
    | (hit) "\<not> poisoned (blob_cache (self s))" "cached s h \<noteq> None"
    | (failed) e u where "\<not> poisoned (blob_cache (self s))" "cached s h = None" "get_blob_miss E h s = (Inl e, u)"
    | (read) data u where "\<not> poisoned (blob_cache (self s))" "cached s h = None" "get_blob_miss E h s = (Inr data, u)"
    by (metis obj_sumE surj_pair)
  then show ?thesis
  proof cases
    case poisoned
    with assms get_poisoned [of s "LockPoisoned poison_text"] show ?thesis
      by (auto simp: get_blob_poisoned lock_eq intro: alone_then)
  next
    case hit
    with get_hit [OF hit(2) assms] show ?thesis by (auto intro: alone_then)
  next
    case failed
    with assms have "r = Inl e" "t = u"
      by (simp_all add: get_blob_unhit bindE_def)
    with get_missed [OF failed(2,1)] get_failed [OF failed(3)] show ?thesis by (auto intro: alone_then)
  next
    case read
    obtain x v where keep: "cache_blob h data u = (x, v)"
      by (cases "cache_blob h data u")
    with read assms have "r = Inr data" "t = v"
      by (auto simp: get_blob_unhit bindE_def cache_blob_eq run_atoms)
    with get_missed [OF read(2,1)] get_read [OF read(3)] get_kept [OF keep] show ?thesis
      by (blast intro: alone_then rtranclp.rtrancl_refl)
  qed
qed

end
