(* ===== verification/ThreadSpec.thy ===== *)
theory ThreadSpec
  imports Threads
begin

text \<open>
  Threads that put and get blobs of one store at the same time: when the files of the puts are
  complete, and that every get returns verified data.
\<close>

section \<open>What a step changes\<close>

fun put_data :: "thread \<Rightarrow> bytes option" where
  "put_data (PutStart d) = Some d"
| "put_data (PutNewStart d) = Some d"
| "put_data (PutDir d) = Some d"
| "put_data (PutMake d) = Some d"
| "put_data (PutNote d) = Some d"
| "put_data (PutWrite d) = Some d"
| "put_data (PutWriting d raw off) = Some d"
| "put_data (PutDone d r) = Some d"
| "put_data _ = None"

fun target :: "thread \<Rightarrow> bytes option" where
  "target (PutWrite d) = Some d"
| "target (PutWriting d raw off) = Some d"
| "target _ = None"

text \<open>The calls a pool starts with, and the data they put.\<close>

fun starting :: "thread \<Rightarrow> bool" where
  "starting (PutStart d) = True"
| "starting (PutNewStart d) = True"
| "starting (GetStart h) = True"
| "starting _ = False"

definition puts :: "thread list \<Rightarrow> bytes set" where
  "puts ts = {d. \<exists>th \<in> set ts. put_data th = Some d}"

lemma puts_simps [simp]:
  "puts [] = {}" "puts (th # ts) = (case put_data th of None \<Rightarrow> puts ts | Some d \<Rightarrow> insert d (puts ts))"
  by (auto simp: puts_def split: option.split)

lemma step_put_data: "thread_step E s th t th' \<Longrightarrow> put_data th' = put_data th"
  by (cases rule: thread_step.cases) auto

lemma config_get_miss: "get_blob_miss E h s = (r, t) \<Longrightarrow> same_config (self s) (self t)"
  using store_step_config [OF upholdsD [OF changes_only_get_blob_miss [of "{}"]]] by blast

lemma config_get: "get_blob E h s = (r, t) \<Longrightarrow> same_config (self s) (self t)"
  using store_step_config [OF upholdsD [OF changes_only_get_blob [of "{}"]]] by blast

lemma config_cache: "cache_blob h data s = (r, t) \<Longrightarrow> same_config (self s) (self t)"
  using store_step_config [OF upholdsD [OF changes_only_cache_blob [of "{}"]]] by blast

lemma self_make_dir: "create_dir_all p (s :: world) = (r, t) \<Longrightarrow> self t = self s"
  using upholdsD [OF preserves_self_disk [OF confined_create_dir_all]] by blast

lemma same_config_refl [simp]: "same_config st st"
  by (simp add: same_config_def)

lemma config_note: "note_dir p s = (r, t) \<Longrightarrow> same_config (self s) (self t)"
  by (auto simp: note_dir_def run_simps set_known_dirs_def run_atoms same_config_def split: if_splits)

lemma step_config: "thread_step E s th t th' \<Longrightarrow> same_config (self s) (self t)"
  by (cases rule: thread_step.cases)
    (auto dest: config_get_miss config_get config_cache config_note self_make_dir simp: put_node_def)

text \<open>The nodes that a step can change are directories above the blobs, and its target.\<close>

lemma nodes_get_miss: "get_blob_miss E h s = (r, t) \<Longrightarrow> node_at t = node_at s"
  using upholdsD [OF preserves_get_blob_miss, of E h s r t] by (auto simp: node_at_def)

lemma nodes_cache: "cache_blob h data s = (r, t) \<Longrightarrow> node_at t = node_at s"
  by (auto simp: cache_blob_eq node_at_def)

lemma nodes_get: "get_blob E h s = (r, t) \<Longrightarrow> node_at t = node_at s"
  by (erule get_blob_cases) (auto simp: fun_eq_iff dest!: nodes_get_miss split: sum.splits)

lemma nodes_note: "note_dir p s = (r, t) \<Longrightarrow> node_at t = node_at s"
  by (auto simp: note_dir_def run_simps set_known_dirs_def run_atoms node_at_def split: if_splits)

lemma length_put_path [simp]: "length (put_path E s d) = length (root (self s)) + 3"
  by (simp add: put_path_def blob_path_loose_at)

lemma step_far:
  assumes "thread_step E s th t th'" and "length (root (self s)) + 3 \<le> length q"
    and "\<forall>d. target th = Some d \<longrightarrow> q \<noteq> put_path E s d"
  shows "node_at t q = node_at s q"
  using assms(1)
proof (cases rule: thread_step.cases)
  case (put_made d u)
  then show ?thesis using create_dir_all_far [OF put_made(3)] assms(2) by simp
next
  case (put_unmade d e)
  then show ?thesis using create_dir_all_far [OF put_unmade(3)] assms(2) by simp
qed (use assms(3) in \<open>auto simp: disk_nodes.look_put dest: nodes_get_miss nodes_cache nodes_get nodes_note\<close>)

section \<open>Partly written files\<close>

text \<open>
  A byte of the file is right, or a thread whose offset is not past it still writes the file.
\<close>

definition covered :: "bytes \<Rightarrow> bytes \<Rightarrow> nat set \<Rightarrow> bool" where
  "covered raw c offs \<longleftrightarrow>
     length c \<le> length raw \<and>
     (\<forall>i < length raw. i < length c \<and> c ! i = raw ! i \<or> (\<exists>off \<in> offs. off \<le> i))"

lemma covered_mono: "covered raw c offs \<Longrightarrow> offs \<subseteq> offs' \<Longrightarrow> covered raw c offs'"
  by (auto simp: covered_def)

lemma covered_opened: "covered raw [] (insert 0 offs)"
  by (simp add: covered_def)

lemma covered_complete:
  assumes "covered raw c {}"
  shows "c = raw"
proof (rule nth_equalityI)
  have "\<not> length c < length raw"
    using assms by (auto simp: covered_def)
  then show "length c = length raw"
    using assms by (simp add: covered_def)
  then show "i < length c \<Longrightarrow> c ! i = raw ! i" for i
    using assms by (simp add: covered_def)
qed

lemma covered_finished: "covered raw c (insert (length raw) offs) \<Longrightarrow> covered raw c offs"
  by (auto simp: covered_def)

lemma length_write_at: "length (write_at off bs c) = max (length c) (off + length bs)"
  by (auto simp: write_at_def)

lemma nth_write_at:
  assumes "i < max (length c) (off + length bs)"
  shows "write_at off bs c ! i =
    (if off \<le> i \<and> i < off + length bs then bs ! (i - off) else if i < length c then c ! i else 0)"
  using assms by (auto simp: write_at_def nth_append nth_Cons' min_def)

lemma covered_chunk:
  assumes "covered raw c (insert off offs)" and "off + n \<le> length raw"
  shows "covered raw (write_at off (take n (drop off raw)) c) (insert (off + n) offs)"
proof -
  have "length (take n (drop off raw)) = n"
    using assms(2) by simp
  moreover have "length (write_at off (take n (drop off raw)) c) = max (length c) (off + n)"
    using assms(2) by (simp add: length_write_at)
  ultimately show ?thesis
    using assms by (auto simp: covered_def nth_write_at not_less)
qed

section \<open>The invariant of a pool\<close>

definition offsets :: "bytes \<Rightarrow> thread list \<Rightarrow> nat set" where
  "offsets d ts = {off. \<exists>raw. PutWriting d raw off \<in> set ts}"

lemma set_update_iff: "i < length ts \<Longrightarrow> set ts \<subseteq> insert (ts ! i) (set (ts[i := th]))"
  by (auto simp: in_set_conv_nth) (metis length_list_update nth_list_update_neq)

lemma offsets_step:
  assumes "i < length ts"
  shows "offsets d ts \<subseteq> offsets d [ts ! i] \<union> offsets d (ts[i := th])"
    and "offsets d [th] \<subseteq> offsets d (ts[i := th])"
  using set_update_iff [OF assms, of th] set_update_memI [OF assms, of th] by (auto simp: offsets_def)

text \<open>What is known of a thread, and of the file of the data \<open>d\<close>, since the pool started in \<open>s0\<close>.\<close>

definition thread_ok :: "env \<Rightarrow> world \<Rightarrow> world \<Rightarrow> thread \<Rightarrow> bool" where
  "thread_ok E s0 s th \<longleftrightarrow>
     (case th of
        PutDir d \<Rightarrow> \<not> path_exists s0 (put_path E s0 d)
      | PutMake d \<Rightarrow> \<not> path_exists s0 (put_path E s0 d)
      | PutNote d \<Rightarrow> \<not> path_exists s0 (put_path E s0 d)
      | PutWrite d \<Rightarrow> \<not> path_exists s0 (put_path E s0 d)
      | PutWriting d raw off \<Rightarrow> \<not> path_exists s0 (put_path E s0 d) \<and>
          blob_image E (self s0) d = Inr raw \<and> off \<le> length raw \<and> path_exists s (put_path E s0 d)
      | PutDone d (Inr h) \<Rightarrow> h = hash_bytes E d \<and> path_exists s (put_path E s0 d)
      | _ \<Rightarrow> True)"

definition file_ok :: "env \<Rightarrow> world \<Rightarrow> world \<Rightarrow> bytes \<Rightarrow> nat set \<Rightarrow> bool" where
  "file_ok E s0 s d offs \<longleftrightarrow>
     (let p = put_path E s0 d in
      if path_exists s0 p then node_at s p = node_at s0 p
      else node_at s p = None \<or>
        (\<exists>raw c. blob_image E (self s0) d = Inr raw \<and> node_at s p = Some (File c) \<and> covered raw c offs))"

definition pool_inv :: "env \<Rightarrow> bytes set \<Rightarrow> world \<Rightarrow> world \<Rightarrow> thread list \<Rightarrow> bool" where
  "pool_inv E D s0 s ts \<longleftrightarrow>
     same_config (self s0) (self s) \<and> (\<forall>th \<in> set ts. \<forall>d. put_data th = Some d \<longrightarrow> d \<in> D) \<and>
     (\<forall>th \<in> set ts. thread_ok E s0 s th) \<and> (\<forall>d \<in> D. file_ok E s0 s d (offsets d ts))"

lemma pool_inv_start:
  assumes "\<forall>th \<in> set ts. starting th"
  shows "pool_inv E (puts ts) s s ts"
proof -
  have "thread_ok E s s th" if "th \<in> set ts" for th
    using assms that by (cases th) (auto simp: thread_ok_def)
  moreover have "put_data th = Some d \<Longrightarrow> d \<in> puts ts" if "th \<in> set ts" for th d
    using that by (auto simp: puts_def)
  moreover have "file_ok E s s d offs" for d offs
    by (auto simp: file_ok_def Let_def path_exists_def)
  ultimately show ?thesis
    by (simp add: pool_inv_def)
qed

text \<open>A step that leaves the blobs alone keeps what is known of the files and the other threads.\<close>

lemma thread_ok_mono:
  assumes "thread_ok E s0 s th" and "\<And>d. path_exists s (put_path E s0 d) \<Longrightarrow> path_exists t (put_path E s0 d)"
  shows "thread_ok E s0 t th"
  using assms by (auto simp: thread_ok_def split: thread.splits sum.splits)

lemma file_ok_mono:
  assumes "file_ok E s0 s d offs" and "node_at t (put_path E s0 d) = node_at s (put_path E s0 d)" and "offs \<subseteq> offs'"
  shows "file_ok E s0 t d offs'"
  using assms covered_mono [of _ _ offs offs'] by (auto simp: file_ok_def Let_def)

text \<open>One thread takes its turn; the file of its own target is treated apart.\<close>

lemma pool_inv_turn:
  assumes "pool_inv E D s0 s ts" and "i < length ts" and "thread_step E s (ts ! i) t th"
    and "thread_ok E s0 t th"
    and "\<And>d. path_exists s (put_path E s0 d) \<Longrightarrow> path_exists t (put_path E s0 d)"
    and "\<And>d. d \<in> D \<Longrightarrow> file_ok E s0 s d (offsets d ts) \<Longrightarrow> file_ok E s0 t d (offsets d (ts[i := th]))"
  shows "pool_inv E D s0 t (ts[i := th])"
proof -
  have sub: "set (ts[i := th]) \<subseteq> insert th (set ts)"
    by (rule set_update_subset_insert)
  have old: "ts ! i \<in> set ts"
    using assms(2) by simp
  have "same_config (self s0) (self t)"
    using assms(1) step_config [OF assms(3)] by (auto simp: pool_inv_def same_config_def)
  moreover have "\<forall>x \<in> set (ts[i := th]). \<forall>d. put_data x = Some d \<longrightarrow> d \<in> D"
    using assms(1) sub old step_put_data [OF assms(3)] by (auto simp: pool_inv_def)
  moreover have "\<forall>x \<in> set (ts[i := th]). thread_ok E s0 t x"
    using assms(1) sub assms(4) thread_ok_mono [where s = s and t = t, OF _ assms(5)] by (auto simp: pool_inv_def)
  ultimately show ?thesis
    using assms(1,6) by (simp add: pool_inv_def)
qed

lemma offsets_else:
  assumes "i < length ts" and "target (ts ! i) \<noteq> Some d"
  shows "offsets d ts \<subseteq> offsets d (ts[i := th])"
proof -
  have "offsets d [ts ! i] = {}"
    using assms(2) by (cases "ts ! i") (auto simp: offsets_def)
  with offsets_step(1) [OF assms(1), of d th] show ?thesis by simp
qed

lemma pool_inv_step:
  assumes inv: "pool_inv E D s0 s ts" and inj: "inj_on (hash_bytes E) D"
    and i: "i < length ts" and turn: "thread_step E s (ts ! i) t th"
  shows "pool_inv E D s0 t (ts[i := th])"
proof -
  have ok: "thread_ok E s0 s (ts ! i)" and mine: "\<And>d. put_data (ts ! i) = Some d \<Longrightarrow> d \<in> D"
    and cfg: "same_config (self s0) (self s)" and files: "\<And>d. d \<in> D \<Longrightarrow> file_ok E s0 s d (offsets d ts)"
    using inv i by (auto simp: pool_inv_def)
  have path: "put_path E s d = put_path E s0 d" and image: "blob_image E (self s) d = blob_image E (self s0) d" for d
    using cfg by (simp_all add: same_config_def put_path_def blob_path_loose_at blob_image_def)
  have far: "node_at t (put_path E s0 d) = node_at s (put_path E s0 d)"
    if "\<forall>d'. target (ts ! i) = Some d' \<longrightarrow> put_path E s0 d \<noteq> put_path E s0 d'" for d
    using step_far [OF turn, of "put_path E s0 d"] that by (simp flip: path)
  have other: "put_path E s0 d \<noteq> put_path E s0 d'" if "d \<in> D" "d' \<in> D" "d \<noteq> d'" for d d'
    using that inj by (auto simp: put_path_def blob_path_loose_at inj_on_eq_iff)
  show ?thesis
  proof (cases "target (ts ! i)")
    case None
    show ?thesis
    proof (rule pool_inv_turn [OF inv i turn])
      show "thread_ok E s0 t th"
        using turn
      proof (cases rule: thread_step.cases)
        case (put_there d)
        with path show ?thesis by (simp add: thread_ok_def)
      next
        case (put_absent d)
        with files [of d] mine [of d] path show ?thesis
          by (auto simp: thread_ok_def file_ok_def Let_def path_exists_def split: if_splits)
      next
        case (put_new_absent d)
        with files [of d] mine [of d] path show ?thesis
          by (auto simp: thread_ok_def file_ok_def Let_def path_exists_def split: if_splits)
      qed (use None ok in \<open>auto simp: thread_ok_def\<close>)
    qed (use far None file_ok_mono [OF _ _ offsets_else [OF i]] in \<open>auto simp: path_exists_def\<close>)
  next
    case (Some d)
    then have d: "d \<in> D" "\<not> path_exists s0 (put_path E s0 d)"
      using mine [of d] ok by (cases "ts ! i"; simp add: thread_ok_def)+
    have file_d: "node_at s (put_path E s0 d) = None \<or>
        (\<exists>raw c. blob_image E (self s0) d = Inr raw \<and> node_at s (put_path E s0 d) = Some (File c) \<and>
          covered raw c (offsets d ts))"
      using files [OF d(1)] d(2) by (simp add: file_ok_def Let_def)
    have new: "offsets d ts \<subseteq> offsets d [ts ! i] \<union> offsets d (ts[i := th])"
      "offsets d [th] \<subseteq> offsets d (ts[i := th])"
      by (rule offsets_step [OF i])+
    have "thread_ok E s0 t th \<and> (\<forall>p. path_exists s p \<longrightarrow> path_exists t p) \<and> file_ok E s0 t d (offsets d (ts[i := th]))"
      using turn
    proof (cases rule: thread_step.cases)
      case (put_opened d' raw)
      with Some image [of d] path [of d] have "d' = d" "blob_image E (self s0) d = Inr raw"
        "t = put_node (put_path E s0 d) (File []) s" "th = PutWriting d raw 0"
        by simp_all
      with d new(2) covered_mono [OF covered_opened [of raw "{}"]] show ?thesis
        by (simp add: thread_ok_def file_ok_def Let_def path_exists_def disk_nodes.look_put offsets_def)
    next
      case (put_chunk n off raw d' c)
      with Some path [of d] ok have chunk: "d' = d" "blob_image E (self s0) d = Inr raw"
        "t = put_node (put_path E s0 d) (File (write_at off (take n (drop off raw)) c)) s"
        "th = PutWriting d raw (off + n)" "node_at s (put_path E s0 d) = Some (File c)"
        by (simp_all add: thread_ok_def)
      then have "covered raw c (insert off (offsets d (ts[i := th])))"
        using file_d new(1) put_chunk(1) by (auto simp: offsets_def elim: covered_mono)
      from covered_chunk [OF this put_chunk(5)] new(2) chunk(4)
      have "covered raw (write_at off (take n (drop off raw)) c) (offsets d (ts[i := th]))"
        by (simp add: offsets_def insert_absorb)
      with chunk d put_chunk(5) show ?thesis
        by (simp add: thread_ok_def file_ok_def Let_def path_exists_def disk_nodes.look_put)
    next
      case (put_finished off raw d')
      with Some ok have fin: "d' = d" "blob_image E (self s0) d = Inr raw" "t = s"
        "path_exists s (put_path E s0 d)" "th = PutDone d (Inr (hash_bytes E d))"
        by (simp_all add: thread_ok_def)
      then obtain c where c: "node_at s (put_path E s0 d) = Some (File c)" "covered raw c (offsets d ts)"
        using file_d by (auto simp: path_exists_def)
      have "offsets d ts \<subseteq> insert (length raw) (offsets d (ts[i := th]))"
        using new(1) put_finished by (auto simp: offsets_def)
      then have "covered raw c (offsets d (ts[i := th]))"
        using c(2) covered_mono covered_finished by blast
      with fin c d show ?thesis
        by (simp add: thread_ok_def file_ok_def Let_def)
    qed (use Some d files [OF d(1)] new(1) file_ok_mono in \<open>auto simp: thread_ok_def offsets_def\<close>)
    moreover have "file_ok E s0 t e (offsets e (ts[i := th]))" if "e \<in> D" "e \<noteq> d" for e
      using that file_ok_mono [OF files far offsets_else [OF i]] Some other [OF that(1) d(1)] by auto
    ultimately show ?thesis
      by (intro pool_inv_turn [OF inv i turn]) (auto split: if_splits)
  qed
qed

lemma pool_inv_run:
  assumes "runs_to E (s, ts) (t, us)" and "\<forall>th \<in> set ts. starting th"
    and "inj_on (hash_bytes E) (puts ts)"
  shows "pool_inv E (puts ts) s t us"
  using assms(1) pool_inv_start [OF assms(2)]
  by (rule runs_to_invariant) (rule pool_inv_step [OF _ assms(3)])

lemma pool_others:
  assumes "runs_to E (s, ts) (t, us)" and "length q = length (root (self s)) + 3"
    and "\<forall>th \<in> set ts. \<forall>d. put_data th = Some d \<longrightarrow> q \<noteq> put_path E s d"
  shows "node_at t q = node_at s q"
proof -
  define P where "P u vs \<longleftrightarrow> node_at u q = node_at s q \<and> same_config (self s) (self u) \<and>
    (\<forall>th \<in> set vs. \<forall>d. put_data th = Some d \<longrightarrow> q \<noteq> put_path E s d)" for u :: world and vs
  have "P t us"
    using assms(1)
  proof (rule runs_to_invariant [where P = P])
    show "P s ts"
      using assms(3) by (simp add: P_def)
    fix u vs i v th
    assume P: "P u vs" and i: "i < length vs" and step: "thread_step E u (vs ! i) v th"
    have path: "put_path E u d = put_path E s d" for d
      using P by (simp add: P_def same_config_def put_path_def blob_path_loose_at)
    have "vs ! i \<in> set vs"
      using i by simp
    moreover have "target x = Some d \<Longrightarrow> put_data x = Some d" for x d
      by (cases x) auto
    ultimately have "node_at v q = node_at u q"
      using P path assms(2) by (intro step_far [OF step]) (auto simp: P_def same_config_def)
    moreover have "\<forall>x \<in> insert th (set vs). \<forall>d. put_data x = Some d \<longrightarrow> q \<noteq> put_path E s d"
      using P \<open>vs ! i \<in> set vs\<close> step_put_data [OF step] by (simp add: P_def)
    then have "\<forall>x \<in> set (vs[i := th]). \<forall>d. put_data x = Some d \<longrightarrow> q \<noteq> put_path E s d"
      using set_update_subset_insert [of vs i th] by blast
    moreover have "same_config (self s) (self v)"
      using P step_config [OF step] by (simp add: P_def same_config_def)
    ultimately show "P v (vs[i := th])"
      using P by (simp add: P_def)
  qed
  then show ?thesis by (simp add: P_def)
qed

text \<open>
  C11. Threads that put and get at the same time complete each other's files. However their steps
  interleave, once no thread writes the file of the data \<open>d\<close> any more, every put of \<open>d\<close> that has
  returned a digest returned that of \<open>d\<close>, and the store's content under it is \<open>d\<close>: a put that found
  the file and returned while another thread was writing it is made good, and so is a file that a
  second writer truncated. Blobs that no thread puts are as before.
\<close>

theorem concurrent_puts_complete:
  assumes "codec_ok E" and "inj_on (hash_bytes E) (puts ts)"
    and "\<forall>th \<in> set ts. starting th" and "\<forall>d \<in> puts ts. storable E (self s) d"
    and "\<forall>d \<in> puts ts. path_exists s (put_path E s d) \<longrightarrow> contents E s (hash_bytes E d) = Some d"
    and "runs_to E (s, ts) (t, us)"
  shows "(\<forall>d h. PutDone d (Inr h) \<in> set us \<and> (\<forall>raw off. PutWriting d raw off \<notin> set us) \<longrightarrow>
      h = hash_bytes E d \<and> contents E t h = Some d) \<and>
    (\<forall>g. g \<notin> hash_bytes E ` puts ts \<longrightarrow> contents E t g = contents E s g)"
proof (intro conjI allI impI)
  have inv: "pool_inv E (puts ts) s t us"
    by (rule pool_inv_run [OF assms(6,3,2)])
  have path: "blob_path (self t) h = blob_path (self s) h" for h
    using inv by (simp add: pool_inv_def same_config_def blob_path_loose_at)
  {
    fix d h
    assume "PutDone d (Inr h) \<in> set us \<and> (\<forall>raw off. PutWriting d raw off \<notin> set us)"
    then have put: "PutDone d (Inr h) \<in> set us" and "offsets d us = {}"
      by (auto simp: offsets_def)
    then have d: "d \<in> puts ts" "file_ok E s t d {}" and ok: "thread_ok E s t (PutDone d (Inr h))"
      using inv by (fastforce simp: pool_inv_def)+
    show h: "h = hash_bytes E d"
      using ok by (simp add: thread_ok_def)
    have sto: "storable E (self s) d"
      and old: "path_exists s (put_path E s d) \<longrightarrow> contents E s (hash_bytes E d) = Some d"
      using assms(4,5) d(1) by auto
    show "contents E t h = Some d"
    proof (cases "path_exists s (put_path E s d)")
      case True
      with d(2) old show ?thesis
        by (simp add: file_ok_def Let_def contents_def path put_path_def h)
    next
      case False
      with d(2) ok obtain raw c where "blob_image E (self s) d = Inr raw"
          "node_at t (put_path E s d) = Some (File c)" "covered raw c {}"
        by (auto simp: file_ok_def thread_ok_def path_exists_def)
      then have "blob_image E (self s) d = Inr raw" "node_at t (put_path E s d) = Some (File raw)"
        using covered_complete by simp_all
      then show ?thesis
        using unpack_image [OF assms(1) _ sto] by (simp add: contents_def path put_path_def h)
    qed
  next
    fix g
    assume g: "g \<notin> hash_bytes E ` puts ts"
    have "put_path E s d \<noteq> blob_path (self s) g" if "d \<in> puts ts" for d
      using g that by (auto simp: put_path_def blob_path_loose_at)
    then have "node_at t (blob_path (self s) g) = node_at s (blob_path (self s) g)"
      by (intro pool_others [OF assms(6)]) (fastforce simp: blob_path_loose_at puts_def)+
    then show "contents E t g = contents E s g"
      by (simp add: contents_def path)
  }
qed

section \<open>Verified reads\<close>

definition read_ok :: "env \<Rightarrow> thread \<Rightarrow> bool" where
  "read_ok E th \<longleftrightarrow>
     (case th of
        GetKeep h data \<Rightarrow> hash_bytes E data = h
      | GetDone h (Inr data) \<Rightarrow> hash_bytes E data = h
      | _ \<Rightarrow> True)"

definition reads_ok :: "env \<Rightarrow> world \<Rightarrow> thread list \<Rightarrow> bool" where
  "reads_ok E s ts \<longleftrightarrow>
     cache_true E s \<and> length (guarded (blob_cache (self s))) \<le> BLOB_CACHE_CAPACITY \<and>
     (\<forall>th \<in> set ts. read_ok E th)"

lemma cache_after_get:
  assumes "get_blob E h s = (r, t)" and "cached s h \<noteq> None"
  shows "length (guarded (blob_cache (self t))) = length (guarded (blob_cache (self s)))"
  using assms(1)
proof (cases rule: get_blob_cases)
  case (hit data rest)
  then show ?thesis
    using mset_eq_length [OF hit(3)] by simp
qed (use assms(2) in auto)

lemma cache_note: "note_dir p s = (r, t) \<Longrightarrow> blob_cache (self t) = blob_cache (self s)"
  by (auto simp: note_dir_def run_simps set_known_dirs_def run_atoms split: if_splits)

lemma cache_get_miss: "get_blob_miss E h s = (r, t) \<Longrightarrow> blob_cache (self t) = blob_cache (self s)"
  using upholdsD [OF preserves_get_blob_miss, of E h s r t] by auto

lemma verify_config: "same_config a b \<Longrightarrow> verify_on_read b = verify_on_read a"
  by (simp add: same_config_def)

lemma length_cache_insert: "length cache \<le> BLOB_CACHE_CAPACITY \<Longrightarrow> length (cache_insert h data cache) \<le> BLOB_CACHE_CAPACITY"
  by (auto simp: cache_insert_def BLOB_CACHE_CAPACITY_def)

lemma set_cache_insert: "set (cache_insert h data cache) \<subseteq> insert (h, data) (set cache)"
  by (auto simp: cache_insert_def dest: in_set_butlastD)

lemma step_cache:
  assumes "thread_step E s th t th'" and "blob_cache (self t) \<noteq> blob_cache (self s)"
  obtains (hit) h r where "th = GetStart h" "th' = GetDone h r" "cached s h \<noteq> None" "get_blob E h s = (r, t)"
  | (kept) h data where "th = GetKeep h data" "th' = GetDone h (Inr data)"
      "guarded (blob_cache (self t)) = cache_insert h data (guarded (blob_cache (self s)))"
  using assms(1)
proof (cases rule: thread_step.cases)
  case (get_kept h data r)
  with assms(2) show thesis
    by (intro kept) (auto simp: cache_blob_eq split: if_splits)
qed (use assms(2) hit in \<open>auto dest: cache_note cache_get_miss self_make_dir simp: put_node_def\<close>)

lemma reads_ok_step:
  assumes "reads_ok E s ts" and i: "i < length ts" and step: "thread_step E s (ts ! i) t th"
  shows "reads_ok E t (ts[i := th])"
proof -
  have ok: "cache_true E s" "length (guarded (blob_cache (self s))) \<le> BLOB_CACHE_CAPACITY"
    using assms(1) by (simp_all add: reads_ok_def)
  have verify: "verify_on_read (self s)" "verify_on_read (self t)"
    using ok(1) verify_config [OF step_config [OF step]] by (simp_all add: cache_true_def)
  have this_ok: "read_ok E (ts ! i)"
    using assms(1) i by (simp add: reads_ok_def)
  have "cache_true E t \<and> length (guarded (blob_cache (self t))) \<le> BLOB_CACHE_CAPACITY"
  proof (cases "blob_cache (self t) = blob_cache (self s)")
    case True
    with ok verify show ?thesis by (simp add: cache_true_def)
  next
    case False
    with step show ?thesis
    proof (cases rule: step_cache)
      case (hit h r)
      then show ?thesis
        using ok upholdsD [OF keeps_cache_true_get_blob hit(4)] cache_after_get [OF hit(4,3)] by simp
    next
      case (kept h data)
      then show ?thesis
        using ok verify this_ok length_cache_insert [OF ok(2)] set_cache_insert
        by (fastforce simp: cache_true_def read_ok_def)
    qed
  qed
  moreover have "read_ok E th"
    using step this_ok ok(1) verify(1)
    by (cases rule: thread_step.cases) (auto simp: read_ok_def split: sum.splits dest: get_blob_miss_hash get_blob_hash)
  ultimately show ?thesis
    using assms(1) set_update_subset_insert [of ts i th] unfolding reads_ok_def by blast
qed

text \<open>
  C23. Threads never read wrong data. While puts write and truncate files, with verification on and
  a cache of verified blobs, every get that returns data returns data of the digest it was asked
  for, and the cache stays verified and within its 1024 entries.
\<close>

theorem concurrent_reads_verified:
  assumes "runs_to E (s, ts) (t, us)" and "\<forall>th \<in> set ts. starting th"
    and "cache_true E s" and "length (guarded (blob_cache (self s))) \<le> BLOB_CACHE_CAPACITY"
  shows "(\<forall>h data. GetDone h (Inr data) \<in> set us \<longrightarrow> hash_bytes E data = h) \<and>
    cache_true E t \<and> length (guarded (blob_cache (self t))) \<le> BLOB_CACHE_CAPACITY"
proof -
  have "reads_ok E s ts"
    using assms(2-4) by (fastforce simp: reads_ok_def read_ok_def split: thread.split)
  with assms(1) have last: "reads_ok E t us"
    by (rule runs_to_invariant) (rule reads_ok_step)
  have "hash_bytes E data = h" if "GetDone h (Inr data) \<in> set us" for h data
    using last that by (auto simp: reads_ok_def read_ok_def dest: bspec [where x = "GetDone h (Inr data)"])
  with last show ?thesis
    by (simp add: reads_ok_def)
qed

section \<open>Every schedule ends\<close>

fun finished :: "thread \<Rightarrow> bool" where
  "finished (PutDone d r) = True"
| "finished (GetDone h r) = True"
| "finished _ = False"

text \<open>The steps that are left; each partial write makes progress.\<close>

definition image_length :: "env \<Rightarrow> blob_store \<Rightarrow> bytes \<Rightarrow> nat" where
  "image_length E st d = (case blob_image E st d of Inl e \<Rightarrow> 0 | Inr raw \<Rightarrow> length raw)"

fun steps_left :: "env \<Rightarrow> blob_store \<Rightarrow> thread \<Rightarrow> nat" where
  "steps_left E st (PutStart d) = 6 + image_length E st d"
| "steps_left E st (PutNewStart d) = 6 + image_length E st d"
| "steps_left E st (PutDir d) = 5 + image_length E st d"
| "steps_left E st (PutMake d) = 4 + image_length E st d"
| "steps_left E st (PutNote d) = 3 + image_length E st d"
| "steps_left E st (PutWrite d) = 2 + image_length E st d"
| "steps_left E st (PutWriting d raw off) = 1 + length raw - off"
| "steps_left E st (PutDone d r) = 0"
| "steps_left E st (GetStart h) = 3"
| "steps_left E st (GetMiss h) = 2"
| "steps_left E st (GetKeep h data) = 1"
| "steps_left E st (GetDone h r) = 0"

lemma same_image: "same_config a b \<Longrightarrow> blob_image E b d = blob_image E a d"
  by (simp add: same_config_def blob_image_def)

lemma step_decreases:
  assumes "thread_step E s th t th'" and "same_config st (self s)"
  shows "steps_left E st th' < steps_left E st th"
  using assms(1) same_image [OF assms(2)]
  by (cases rule: thread_step.cases) (auto simp: image_length_def)

lemma sum_update:
  fixes f :: "'a \<Rightarrow> nat"
  assumes "i < length xs" and "f x < f (xs ! i)"
  shows "sum_list (map f (xs[i := x])) < sum_list (map f xs)"
proof -
  have "sum_list (map f (xs[i := x])) = sum_list (map f xs) + f x - f (xs ! i)"
    using assms(1) by (simp add: map_update sum_list_update)
  moreover have "f (xs ! i) \<le> sum_list (map f xs)"
    using assms(1) by (simp add: member_le_sum_list)
  ultimately show ?thesis using assms(2) by linarith
qed

lemma pool_bounded:
  "(pool_step E ^^ n) (s, ts) q \<Longrightarrow>
     same_config (self s) (self (fst q)) \<and>
     n + sum_list (map (steps_left E (self s)) (snd q)) \<le> sum_list (map (steps_left E (self s)) ts)"
proof (induction n arbitrary: q)
  case (Suc n)
  obtain t us where mid: "(pool_step E ^^ n) (s, ts) (t, us)" and step: "pool_step E (t, us) q"
    using Suc.prems by auto
  obtain i u th where i: "i < length us" and th: "thread_step E t (us ! i) u th" and q: "q = (u, us[i := th])"
    using step by (auto elim: pool_step.cases)
  have "same_config (self s) (self t)"
    using Suc.IH [OF mid] by simp
  moreover from this have "sum_list (map (steps_left E (self s)) (us[i := th])) < sum_list (map (steps_left E (self s)) us)"
    by (intro sum_update [OF i] step_decreases [OF th])
  ultimately show ?case
    using Suc.IH [OF mid] step_config [OF th] q by (auto simp: same_config_def)
qed simp

lemma thread_moves:
  assumes "\<not> finished th" and "\<And>d raw off. th = PutWriting d raw off \<Longrightarrow>
      off \<le> length raw \<and> (\<exists>c. node_at s (put_path E s d) = Some (File c))"
  shows "\<exists>t th'. thread_step E s th t th'"
proof (cases th)
  case (PutStart d)
  then show ?thesis by (metis put_there put_absent)
next
  case (PutNewStart d)
  then show ?thesis by (metis put_new_there put_new_absent)
next
  case (PutDir d)
  have "\<exists>t th'. thread_step E s (PutDir d) t th'"
  proof (cases "poisoned (known_dirs (self s))")
    case True
    then show ?thesis by (metis put_poisoned lock_eq)
  next
    case False
    then show ?thesis by (metis put_known put_unknown lock_eq)
  qed
  with PutDir show ?thesis by simp
next
  case (PutMake d)
  then show ?thesis by (metis put_made put_unmade obj_sumE surj_pair)
next
  case (PutNote d)
  then show ?thesis by (metis put_noted put_unnoted obj_sumE surj_pair)
next
  case (PutWrite d)
  then show ?thesis by (metis put_uncompressed put_refused put_opened obj_sumE not_None_eq)
next
  case (PutWriting d raw off)
  then obtain c where c: "off \<le> length raw" "node_at s (put_path E s d) = Some (File c)"
    using assms(2) by blast
  show ?thesis
  proof (cases "off = length raw")
    case True
    with PutWriting show ?thesis by (metis put_finished)
  next
    case False
    then have "0 < length raw - off" "off + (length raw - off) \<le> length raw"
      using c(1) by simp_all
    from put_chunk [OF this c(2)] PutWriting show ?thesis by blast
  qed
next
  case (GetStart h)
  have "\<exists>t th'. thread_step E s (GetStart h) t th'"
  proof (cases "poisoned (blob_cache (self s))")
    case True
    then show ?thesis by (metis get_poisoned lock_eq)
  next
    case False
    then show ?thesis by (metis get_hit get_missed surj_pair)
  qed
  with GetStart show ?thesis by simp
next
  case (GetMiss h)
  then show ?thesis by (metis get_failed get_read obj_sumE surj_pair)
next
  case (GetKeep h data)
  then show ?thesis by (metis get_kept surj_pair)
qed (use assms(1) in simp_all)

text \<open>
  C22. Threads do not get stuck and do not go on for ever. Every run of puts and gets has at most as
  many steps as the number \<open>steps_left\<close> counts at the start, however the writes are cut into pieces,
  and as long as one thread has not returned, a thread can make a step.
\<close>

theorem threads_finish:
  assumes "(pool_step E ^^ n) (s, ts) (t, us)"
    and "\<forall>th \<in> set ts. starting th"
    and "inj_on (hash_bytes E) (puts ts)"
  shows "n \<le> sum_list (map (steps_left E (self s)) ts) \<and>
    ((\<forall>th \<in> set us. finished th) \<or> (\<exists>q. pool_step E (t, us) q))"
proof (intro conjI)
  show "n \<le> sum_list (map (steps_left E (self s)) ts)"
    using pool_bounded [OF assms(1)] by simp
  have inv: "pool_inv E (puts ts) s t us"
    using assms(1) by (intro pool_inv_run [OF _ assms(2,3)]) (simp add: relpowp_imp_rtranclp)
  have "\<exists>q. pool_step E (t, us) q" if th: "th \<in> set us" "\<not> finished th" for th
  proof -
    have "off \<le> length raw \<and> (\<exists>c. node_at t (put_path E t d) = Some (File c))"
      if "th = PutWriting d raw off" for d raw off
    proof -
      have "put_path E t d = put_path E s d"
        using inv by (simp add: pool_inv_def same_config_def put_path_def blob_path_loose_at)
      moreover have "thread_ok E s t (PutWriting d raw off)" "file_ok E s t d (offsets d us)"
        using inv th that by (fastforce simp: pool_inv_def)+
      ultimately show ?thesis
        by (auto simp: thread_ok_def file_ok_def Let_def path_exists_def)
    qed
    then obtain u th' where "thread_step E t th u th'"
      using thread_moves [OF th(2)] by blast
    with th(1) show ?thesis
      by (metis in_set_conv_nth turn)
  qed
  then show "(\<forall>th \<in> set us. finished th) \<or> (\<exists>q. pool_step E (t, us) q)"
    by blast
qed

section \<open>One thread alone\<close>

text \<open>
  C24. A thread alone runs the sequential call. On a disk without faults a put on its own returns
  what \<open>put_blob\<close>, or \<open>put_blob_new\<close>, returns and leaves the state that it leaves, however the file system cuts the
  write into pieces, and a get on its own does what \<open>get_blob\<close> does.
\<close>

theorem thread_alone:
  assumes "pending s = []"
  shows "(runs_to E (s, [PutStart data]) (t, [PutDone data r]) \<longleftrightarrow> put_blob E data s = (r, t)) \<and>
    (runs_to E (s, [PutNewStart data]) (t, [PutDone data r]) \<longleftrightarrow> put_blob_new E data s = (r, t)) \<and>
    (runs_to E (s, [GetStart h]) (t, [GetDone h q]) \<longleftrightarrow> get_blob E h s = (q, t))"
proof (intro conjI iffI)
  have single: "P t (ts ! 0)" if "P s x" "runs_to E (s, [x]) (t, ts)"
      "\<And>u v th th'. P u th \<Longrightarrow> thread_step E u th v th' \<Longrightarrow> P v th'"
    for P :: "world \<Rightarrow> thread \<Rightarrow> bool" and x ts
    by (rule runs_to_invariant [where P = "\<lambda>s ts. length ts = 1 \<and> P s (ts ! 0)", THEN conjunct2, OF that(2)])
      (use that(1,3) in auto)
  show "put_blob E data s = (r, t)" if "runs_to E (s, [PutStart data]) (t, [PutDone data r])"
    using single [OF _ that, of "put_progress False E s data"] put_progress_step [OF assms]
    by (fastforce simp: put_progress_def put_call_def)
  show "put_blob_new E data s = (r, t)" if "runs_to E (s, [PutNewStart data]) (t, [PutDone data r])"
    using single [OF _ that, of "put_progress True E s data"] put_progress_step [OF assms]
    by (fastforce simp: put_progress_def put_call_def)
  show "get_blob E h s = (q, t)" if "runs_to E (s, [GetStart h]) (t, [GetDone h q])"
    using single [OF _ that, of "get_progress E s h"] get_progress_step by (fastforce simp: get_progress_def)
qed (use put_runs [OF assms] get_runs in blast)+

theorem thread_alone_witness:
  "\<exists>t. put_blob (toy_env True) [7] (toy_world True []) = (Inr (hash_of [7]), t) \<and>
     runs_to (toy_env True) (toy_world True [], [PutStart [7]]) (t, [PutDone [7] (Inr (hash_of [7]))])"
proof -
  obtain t where "put_blob (toy_env True) [7] (toy_world True []) = (Inr (hash_of [7]), t)"
    by (rule toy_put)
  then show ?thesis
    using thread_alone [of "toy_world True []" "toy_env True" "[7]" t "Inr (hash_of [7])"] by auto
qed

section \<open>Two threads that put the same data\<close>

text \<open>
  Both find the file absent. The first has written one of the two bytes when the second opens and
  truncates the file; the first then writes its second byte past the end and returns, with a file
  that reads 0, 8; the second writes all.
\<close>

definition toy_dir07 :: path where
  "toy_dir07 = [''r'', ''objects'', ''07'']"

definition toy_race :: world where
  "toy_race = (toy_world False [(toy_dir07, Dir)])\<lparr>self := (toy_store False)\<lparr>known_dirs := Mutex False {toy_dir07}\<rparr>\<rparr>"

definition toy_racing :: "bytes \<Rightarrow> world" where
  "toy_racing c = put_node (loose_at [''r''] (hash_of [7, 8])) (File c) toy_race"

lemma left_step:
  assumes "thread_step E s a t a'" and "runs_to E (t, [a', b]) q"
  shows "runs_to E (s, [a, b]) q"
  using turn [of 0 "[a, b]", simplified, OF assms(1)] assms(2) by (rule converse_rtranclp_into_rtranclp)

lemma right_step:
  assumes "thread_step E s b t b'" and "runs_to E (t, [a, b']) q"
  shows "runs_to E (s, [a, b]) q"
  using turn [of 1 "[a, b]", simplified, OF assms(1)] assms(2) by (rule converse_rtranclp_into_rtranclp)

lemma toy_07: "take 2 (to_hex (hash_of [7, 8])) = ''07''"
  by code_simp

lemma toy_race_path [simp]:
  "put_path E toy_race d = loose_at [''r''] (hash_bytes E d)" "put_path E (toy_racing c) d = loose_at [''r''] (hash_bytes E d)"
  by (simp_all add: put_path_def blob_path_loose_at toy_racing_def put_node_def toy_race_def toy_store_def)

lemma toy_race_image [simp]:
  "blob_image (toy_env False) (self toy_race) d = Inr d" "blob_image (toy_env False) (self (toy_racing c)) d = Inr d"
  by (simp_all add: blob_image_def)

lemma toy_race_nodes:
  "node_at toy_race toy_dir07 = Some Dir" "node_at toy_race (loose_at [''r''] h) = None"
  "butlast (loose_at [''r''] (hash_of [7, 8])) = toy_dir07"
  by (simp_all add: toy_race_def) (simp_all add: node_at_def toy_dirs_def toy_dir07_def loose_at_def toy_07)

lemma toy_racing_node: "node_at (toy_racing c) (loose_at [''r''] (hash_of [7, 8])) = Some (File c)"
  by (simp add: toy_racing_def disk_nodes.look_put)

lemma toy_racing_again:
  "put_node (loose_at [''r''] (hash_of [7, 8])) (File c') (toy_racing c) = toy_racing c'"
  "put_node (loose_at [''r''] (hash_of [7, 8])) (File c') toy_race = toy_racing c'"
  by (simp_all add: toy_racing_def put_node_again)

lemma toy_race_open:
  "write_error toy_race (loose_at [''r''] (hash_of [7, 8])) = None"
  "write_error (toy_racing c) (loose_at [''r''] (hash_of [7, 8])) = None"
proof -
  have "toy_dir07 \<noteq> loose_at [''r''] (hash_of [7, 8])"
    by (simp add: toy_dir07_def loose_at_def)
  then show "write_error toy_race (loose_at [''r''] (hash_of [7, 8])) = None"
    "write_error (toy_racing c) (loose_at [''r''] (hash_of [7, 8])) = None"
    using toy_race_nodes by (simp_all add: write_error_def toy_racing_def disk_nodes.look_put)
qed

lemma toy_race_steps:
  "thread_step (toy_env False) toy_race (PutStart [7, 8]) toy_race (PutDir [7, 8])"
  "thread_step (toy_env False) toy_race (PutDir [7, 8]) toy_race (PutWrite [7, 8])"
  "thread_step (toy_env False) toy_race (PutWrite [7, 8]) (toy_racing []) (PutWriting [7, 8] [7, 8] 0)"
  "thread_step (toy_env False) (toy_racing c) (PutWrite [7, 8]) (toy_racing []) (PutWriting [7, 8] [7, 8] 0)"
  "0 < n \<Longrightarrow> off + n \<le> 2 \<Longrightarrow> w = write_at off (take n (drop off [7, 8])) c \<Longrightarrow>
     thread_step (toy_env False) (toy_racing c) (PutWriting [7, 8] [7, 8] off) (toy_racing w) (PutWriting [7, 8] [7, 8] (off + n))"
  "thread_step (toy_env False) (toy_racing c) (PutWriting [7, 8] [7, 8] 2) (toy_racing c) (PutDone [7, 8] (Inr (hash_of [7, 8])))"
proof -
  let ?E = "toy_env False" and ?d = "[7, 8] :: bytes"
  show "thread_step ?E toy_race (PutStart ?d) toy_race (PutDir ?d)"
    by (rule put_absent) (simp add: path_exists_def toy_race_nodes)
  show "thread_step ?E toy_race (PutDir ?d) toy_race (PutWrite ?d)"
    by (rule put_known [where known = "{toy_dir07}"]) (simp_all add: lock_eq toy_race_nodes, simp_all add: toy_race_def)
  show "thread_step ?E toy_race (PutWrite ?d) (toy_racing []) (PutWriting ?d ?d 0)"
    using put_opened [of ?E toy_race ?d ?d] by (simp add: toy_race_open toy_racing_again)
  show "thread_step ?E (toy_racing c) (PutWrite ?d) (toy_racing []) (PutWriting ?d ?d 0)"
    using put_opened [of ?E "toy_racing c" ?d ?d] by (simp add: toy_race_open toy_racing_again)
  show "thread_step ?E (toy_racing c) (PutWriting ?d ?d off) (toy_racing w) (PutWriting ?d ?d (off + n))"
    if "0 < n" "off + n \<le> 2" "w = write_at off (take n (drop off ?d)) c"
    using put_chunk [of n off ?d "toy_racing c" ?E ?d c] that toy_racing_node by (simp add: toy_racing_again)
  show "thread_step ?E (toy_racing c) (PutWriting ?d ?d 2) (toy_racing c) (PutDone ?d (Inr (hash_of ?d)))"
    using put_finished [of 2 ?d ?E "toy_racing c" ?d] by simp
qed

lemma toy_race_run:
  "runs_to (toy_env False) (toy_race, [PutStart [7, 8], PutStart [7, 8]])
     (toy_racing [0, 8], [PutDone [7, 8] (Inr (hash_of [7, 8])), PutWriting [7, 8] [7, 8] 0])"
  "runs_to (toy_env False) (toy_racing [0, 8], [PutDone [7, 8] (Inr (hash_of [7, 8])), PutWriting [7, 8] [7, 8] 0])
     (toy_racing [7, 8], [PutDone [7, 8] (Inr (hash_of [7, 8])), PutDone [7, 8] (Inr (hash_of [7, 8]))])"
proof -
  have chunks: "thread_step (toy_env False) (toy_racing []) (PutWriting [7, 8] [7, 8] 0) (toy_racing [7]) (PutWriting [7, 8] [7, 8] 1)"
    "thread_step (toy_env False) (toy_racing []) (PutWriting [7, 8] [7, 8] 1) (toy_racing [0, 8]) (PutWriting [7, 8] [7, 8] 2)"
    "thread_step (toy_env False) (toy_racing [0, 8]) (PutWriting [7, 8] [7, 8] 0) (toy_racing [7, 8]) (PutWriting [7, 8] [7, 8] 2)"
    using toy_race_steps(5) [of 1 0 "[7]" "[]"] toy_race_steps(5) [of 1 1 "[0, 8]" "[]"]
      toy_race_steps(5) [of 2 0 "[7, 8]" "[0, 8]"]
    by (simp_all add: write_at_def numeral_2_eq_2)
  note steps = toy_race_steps(1-4,6) chunks
  show "runs_to (toy_env False) (toy_race, [PutStart [7, 8], PutStart [7, 8]])
     (toy_racing [0, 8], [PutDone [7, 8] (Inr (hash_of [7, 8])), PutWriting [7, 8] [7, 8] 0])"
    by (rule left_step [OF steps(1)], rule left_step [OF steps(2)], rule right_step [OF steps(1)],
        rule right_step [OF steps(2)], rule left_step [OF steps(3)], rule left_step [OF steps(6)],
        rule right_step [OF steps(4)], rule left_step [OF steps(7)], rule left_step [OF steps(5)],
        rule rtranclp.rtrancl_refl)
  show "runs_to (toy_env False) (toy_racing [0, 8], [PutDone [7, 8] (Inr (hash_of [7, 8])), PutWriting [7, 8] [7, 8] 0])
     (toy_racing [7, 8], [PutDone [7, 8] (Inr (hash_of [7, 8])), PutDone [7, 8] (Inr (hash_of [7, 8]))])"
    by (rule right_step [OF steps(8)], rule right_step [OF steps(5)], rule rtranclp.rtrancl_refl)
qed

lemma toy_torn_hash: "hash_of [0, 8] \<noteq> hash_of [7, 8]"
  by (simp add: digest_inject [symmetric] digest_hash_of)

theorem concurrent_puts_complete_witness:
  "contents (toy_env False) (toy_racing [0, 8]) (hash_of [7, 8]) = None \<and>
     contents (toy_env False) (toy_racing [7, 8]) (hash_of [7, 8]) = Some [7, 8]"
proof -
  have "storable (toy_env False) (self toy_race) [7, 8]"
    by (simp add: storable_def is_zstd_compressed_def)
  then have "contents (toy_env False) (toy_racing [7, 8]) (hash_of [7, 8]) = Some [7, 8]"
    using concurrent_puts_complete [OF toy_codec _ _ _ _ rtranclp_trans [OF toy_race_run]]
    by (auto simp: path_exists_def toy_race_nodes inj_on_def)
  moreover have "contents (toy_env False) (toy_racing [0, 8]) (hash_of [7, 8]) = None"
    using toy_race_path(2) [of "toy_env False" "[0, 8]" "[7, 8]"] toy_racing_node [of "[0, 8]"]
    by (simp add: contents_def put_path_def unpack_loose_def is_zstd_compressed_def toy_torn_hash)
  ultimately show ?thesis by simp
qed

theorem threads_finish_witness:
  "\<exists>n q. (pool_step (toy_env False) ^^ n) (toy_race, [PutStart [7, 8], PutStart [7, 8]])
       (toy_racing [0, 8], [PutDone [7, 8] (Inr (hash_of [7, 8])), PutWriting [7, 8] [7, 8] 0]) \<and>
     n \<le> 16 \<and>
     pool_step (toy_env False) (toy_racing [0, 8], [PutDone [7, 8] (Inr (hash_of [7, 8])), PutWriting [7, 8] [7, 8] 0]) q"
proof -
  obtain n where n: "(pool_step (toy_env False) ^^ n) (toy_race, [PutStart [7, 8], PutStart [7, 8]])
      (toy_racing [0, 8], [PutDone [7, 8] (Inr (hash_of [7, 8])), PutWriting [7, 8] [7, 8] 0])"
    using rtranclp_imp_relpowp [OF toy_race_run(1)] by blast
  with threads_finish [OF this] show ?thesis
    by (auto simp: inj_on_def image_length_def)
qed

theorem concurrent_reads_verified_witness:
  "\<exists>t. runs_to (toy_env False) (toy_gc, [GetStart (hash_of [3])]) (t, [GetDone (hash_of [3]) (Inr [3])]) \<and>
     cache_true (toy_env False) t"
proof -
  have "loose_serves (toy_env False) toy_gc (blob_path (self toy_gc) (hash_of [3])) (hash_of [3]) [3]"
    using toy_loose_serves by (simp add: blob_path_loose_at)
  then obtain t where "get_blob (toy_env False) (hash_of [3]) toy_gc = (Inr [3], t)"
    using get_blob_serves_loose [of "toy_env False" toy_gc] by (simp add: cached_def)
  from get_runs [OF this] show ?thesis
    using concurrent_reads_verified [OF get_runs [OF \<open>get_blob _ _ _ = _\<close>]] by (auto simp: cache_true_def)
qed

end
