(* ===== verification/Races.thy ===== *)
theory Races
  imports ThreadSpec
begin

text \<open>
  Two calls that put the same data at the same time: the test for the file and the write are apart,
  and what a caller may conclude from a success is less than the documentation says.
\<close>

section \<open>Runs of one thread among others\<close>

lemma pool_step_among:
  assumes "pool_step E (s, ts) (t, us)"
  shows "pool_step E (s, xs @ ts @ ys) (t, xs @ us @ ys)"
  using assms
proof (cases rule: pool_step.cases)
  case (turn i th)
  then have "thread_step E s ((xs @ ts @ ys) ! (length xs + i)) t th" "length xs + i < length (xs @ ts @ ys)"
    by (simp_all add: nth_append)
  from pool_step.turn [OF this(2,1)] turn show ?thesis
    by (simp add: list_update_append)
qed

lemma runs_among:
  assumes "runs_to E (s, ts) (t, us)"
  shows "runs_to E (s, xs @ ts @ ys) (t, xs @ us @ ys)"
proof -
  have "runs_to E p q \<Longrightarrow> runs_to E (fst p, xs @ snd p @ ys) (fst q, xs @ snd q @ ys)" for p q
    by (induction rule: rtranclp_induct)
      (auto intro: rtranclp.rtrancl_into_rtrancl dest: pool_step_among [where xs = xs and ys = ys])
  from this [OF assms] show ?thesis by simp
qed

lemmas left_runs = runs_among [where xs = "[]", simplified]
lemmas right_runs = runs_among [where ys = "[]", simplified]

section \<open>What a put alone goes through\<close>

lemma fresh_put:
  assumes "pending s = []" and "put_blob E data s = (Inr h, t)" and "\<not> path_exists s (put_path E s data)"
  obtains raw v where "ensure_parent_dir (butlast (put_path E s data)) s = (Inr (), v)"
    and "put_path E v data = put_path E s data" and "blob_image E (self v) data = Inr raw"
    and "write_error v (put_path E s data) = None" and "h = hash_bytes E data"
    and "t = put_node (put_path E s data) (File raw) v" and "same_config (self s) (self v)"
proof -
  let ?p = "put_path E s data"
  obtain v where dir: "ensure_parent_dir (butlast ?p) s = (Inr (), v)"
    and wr: "write_blob E ?p data v = (Inr (), t)" and h: "h = hash_bytes E data"
    using assms(2) by (auto simp: put_blob_absent_eq [OF assms(3)] bindE_eq run_atoms)
  have quiet: "pending v = []"
    by (rule pending_parent_dir [OF dir assms(1)])
  obtain raw where "blob_image E (self v) data = Inr raw" "write_error v ?p = None" "t = put_node ?p (File raw) v"
    using wr quiet by (auto simp: write_blob_eq map_err_eq fs_write_def bindE_eq quiet_next_fault run_simps
        split: sum.splits option.splits if_splits)
  moreover have "same_config (self s) (self v)"
    using store_step_config [OF upholdsD [OF changes_only_ensure_parent_dir [of "{}"] dir]] .
  ultimately show thesis
    using that dir parent_dir_path [OF dir] h by blast
qed

lemma config_paths:
  "same_config (self s) (self t) \<Longrightarrow> put_path E t data = put_path E s data"
  by (simp add: same_config_def put_path_def blob_path_loose_at)

lemma parent_dir_known:
  assumes "ensure_parent_dir p s = (Inr (), v)"
  shows "lock known_dirs v = (Inr (guarded (known_dirs (self v))), v)" and "p \<in> guarded (known_dirs (self v))"
    and "blob_cache (self v) = blob_cache (self s)"
  using assms self_make_dir
  by (fastforce simp: ensure_parent_dir_def lock_eq run_simps bindE_eq map_err_eq set_known_dirs_def run_atoms
      split: if_splits)+

section \<open>Creation is not exclusive\<close>

text \<open>After a put, one that found the file absent before it writes the same file again.\<close>

lemma put_again_runs:
  assumes "pending s = []" and "put_blob E data s = (Inr h, t)" and "\<not> path_exists s (put_path E s data)"
  shows "runs_to E (t, [PutDir data]) (t, [PutDone data (Inr h)])" and "path_exists t (put_path E t data)"
    and "h = hash_bytes E data"
proof -
  let ?p = "put_path E s data"
  obtain raw v where dir: "ensure_parent_dir (butlast ?p) s = (Inr (), v)" and image: "blob_image E (self v) data = Inr raw"
    and free: "write_error v ?p = None" and h: "h = hash_bytes E data" and t: "t = put_node ?p (File raw) v"
    and cfg: "same_config (self s) (self v)"
    by (rule fresh_put [OF assms])
  show "h = hash_bytes E data" by (rule h)
  have self: "self t = self v" and path: "put_path E t data = ?p" and quiet: "pending t = []"
    using t config_paths [of s t] cfg pending_parent_dir [OF dir assms(1)] by (simp_all add: put_node_def)
  have node: "node_at t ?p = Some (File raw)"
    using t by (simp add: disk_nodes.look_put)
  then show "path_exists t (put_path E t data)"
    using path by (simp add: path_exists_def)
  have "?p \<noteq> []"
    by (simp add: put_path_def blob_path_loose_at loose_at_def)
  then have "butlast ?p \<noteq> ?p"
    by (metis append_butlast_last_id append_self_conv not_Cons_self2)
  then have "write_error t ?p = None"
    using free node t by (simp add: write_error_def disk_nodes.look_put split: if_splits option.splits node.splits)
  then have "write_blob E ?p data t = (Inr (), t)"
    using image self quiet t by (simp add: write_blob_eq map_err_def quiet_write put_node_again)
  from put_tail_runs [OF quiet, of E data, unfolded path, OF this]
  have again: "runs_to E (t, [PutWrite data]) (t, [PutDone data (Inr h)])"
    by (simp add: h)
  have "thread_step E t (PutDir data) t (PutWrite data)"
    using parent_dir_known [OF dir] self path by (intro put_known) (simp_all add: lock_eq split: if_splits)
  with again show "runs_to E (t, [PutDir data]) (t, [PutDone data (Inr h)])"
    by (blast intro: alone_then)
qed

text \<open>
  C13. \<open>put_blob_new\<close> is not exclusive. Its documentation says that it returns an error if the blob is
  there already, and called after another put it does; but wherever one call of it succeeds, two
  threads that call it with the same data can both be told that they stored a new blob.
\<close>

theorem put_new_not_exclusive:
  assumes "pending s = []" and "put_blob_new E data s = (Inr h, t)"
  shows "runs_to E (s, [PutNewStart data, PutNewStart data]) (t, [PutDone data (Inr h), PutDone data (Inr h)]) \<and>
    put_blob_new E data t = (Inl (AlreadyExists (to_hex h)), t)"
proof
  have absent: "\<not> path_exists s (put_path E s data)"
    using assms(2) put_blob_new_found by (metis Inl_Inr_False prod.inject)
  have put: "put_blob E data s = (Inr h, t)"
    using assms(2) put_blob_absent_eq(2) [OF absent] by simp
  note again = put_again_runs [OF assms(1) put absent]
  show "put_blob_new E data t = (Inl (AlreadyExists (to_hex h)), t)"
    using put_blob_new_found [OF again(2)] again(3) by simp
  have "runs_to E (s, [PutDir data, PutDir data]) (t, [PutDone data (Inr h), PutDir data])"
    using left_runs [OF put_absent_runs [OF assms(1) put absent], of "[PutDir data]"] by simp
  moreover have "runs_to E (t, [PutDone data (Inr h), PutDir data]) (t, [PutDone data (Inr h), PutDone data (Inr h)])"
    using right_runs [OF again(1), of "[PutDone data (Inr h)]"] by simp
  ultimately have "runs_to E (s, [PutDir data, PutDir data]) (t, [PutDone data (Inr h), PutDone data (Inr h)])"
    by (rule rtranclp_trans)
  then show "runs_to E (s, [PutNewStart data, PutNewStart data]) (t, [PutDone data (Inr h), PutDone data (Inr h)])"
    using put_new_absent [OF absent] by (blast intro: left_step right_step)
qed

section \<open>A success before the blob is there\<close>

text \<open>One thread has come to the offset \<open>n\<close> of its write.\<close>

lemma writing_runs:
  assumes "write_error v (put_path E v data) = None" and "blob_image E (self v) data = Inr raw" and "n \<le> length raw"
  shows "runs_to E (v, [PutWrite data]) (put_node (put_path E v data) (File (take n raw)) v, [PutWriting data raw n])"
proof -
  let ?p = "put_path E v data"
  let ?o = "put_node ?p (File []) v"
  have "runs_to E (?o, [PutWriting data raw 0]) (put_node ?p (File (take n raw)) v, [PutWriting data raw n])"
  proof (cases "n = 0")
    case False
    have "put_path E ?o data = ?p" and "node_at ?o ?p = Some (File [])"
      by (simp_all add: put_path_def put_node_def disk_nodes.look_put [unfolded put_node_def])
    with put_chunk [of n 0 raw ?o E data "[]"] False assms(3)
    have "thread_step E ?o (PutWriting data raw 0) (put_node ?p (File (take n raw)) v) (PutWriting data raw n)"
      by (simp add: put_node_again write_whole)
    then show ?thesis
      by (auto intro: alone_then)
  qed simp
  then show ?thesis
    using put_opened [OF assms(2,1)] by (rule alone_then [rotated])
qed

text \<open>A read at that moment.\<close>

lemma torn_read:
  assumes "node_at u (blob_path (self u) h) = Some (File c)" and "cached u h = None"
    and "\<forall>x. unpack_loose E c = Inr x \<longrightarrow> hash_bytes E x \<noteq> h" and "get_blob E h u = (Inr x, w)"
  shows "hash_bytes E x \<noteq> h"
  using assms(4)
proof (cases rule: get_blob_cases)
  case (miss w')
  have "get_blob_loose E h u = (Inr x, w')"
    using miss(2) get_blob_miss_there [of u h E] assms(1) by (simp add: path_exists_def)
  then show ?thesis
    using assms(3) by (auto simp: get_blob_loose_eq [OF assms(1)] split: sum.splits if_splits)
qed (use assms(2) in simp_all)

text \<open>
  C14. A put may return before the blob can be read. While one thread writes the file of a blob,
  \<open>put_blob\<close> of the same data in another thread finds the file and returns the digest at once; at
  that moment, where the bytes written so far do not unpack to data of this digest, no read
  returns the blob.
\<close>

theorem put_returns_early:
  assumes "pending s = []" and "put_blob E data s = (Inr h, t)" and "\<not> path_exists s (put_path E s data)"
    and "blob_image E (self s) data = Inr raw" and "n \<le> length raw"
    and "\<forall>x. unpack_loose E (take n raw) = Inr x \<longrightarrow> hash_bytes E x \<noteq> h" and "cached s h = None"
  shows "\<exists>u. runs_to E (s, [PutStart data, PutStart data]) (u, [PutWriting data raw n, PutDone data (Inr h)]) \<and>
    (\<forall>x v. get_blob E h u = (Inr x, v) \<longrightarrow> hash_bytes E x \<noteq> h)"
proof -
  let ?p = "put_path E s data"
  obtain raw' v where dir: "ensure_parent_dir (butlast ?p) s = (Inr (), v)" and path: "put_path E v data = ?p"
    and image: "blob_image E (self v) data = Inr raw'" and free: "write_error v ?p = None" and h: "h = hash_bytes E data"
    by (rule fresh_put [OF assms(1-3)])
  let ?u = "put_node ?p (File (take n raw)) v"
  have paths: "put_path E ?u data = ?p" "blob_path (self ?u) h = ?p" and node: "node_at ?u ?p = Some (File (take n raw))"
    using path h by (simp_all add: put_path_def put_node_def disk_nodes.look_put [unfolded put_node_def])
  have "blob_image E (self v) data = Inr raw"
    using parent_dir_image [OF dir, of E data] assms(4) by simp
  with free assms(5) have "runs_to E (v, [PutWrite data]) (?u, [PutWriting data raw n])"
    unfolding path [symmetric] by (intro writing_runs)
  with parent_dir_runs [OF dir] have "runs_to E (s, [PutDir data]) (?u, [PutWriting data raw n])"
    by (simp add: rtranclp_trans)
  then have "runs_to E (s, [PutStart data]) (?u, [PutWriting data raw n])"
    using put_absent [OF assms(3)] by (blast intro: alone_then)
  from left_runs [OF this, of "[PutStart data]"]
  have "runs_to E (s, [PutStart data, PutStart data]) (?u, [PutWriting data raw n, PutStart data])"
    by simp
  moreover have "thread_step E ?u (PutStart data) ?u (PutDone data (Inr h))"
    using put_there [of ?u E data] paths(1) node h by (simp add: path_exists_def)
  then have "runs_to E (?u, [PutWriting data raw n, PutStart data]) (?u, [PutWriting data raw n, PutDone data (Inr h)])"
    by (rule right_step) simp
  ultimately have "runs_to E (s, [PutStart data, PutStart data]) (?u, [PutWriting data raw n, PutDone data (Inr h)])"
    by (rule rtranclp_trans)
  moreover have "cached ?u h = None"
    using assms(7) parent_dir_known(3) [OF dir] by (simp add: cached_def put_node_def)
  then have "\<forall>x w. get_blob E h ?u = (Inr x, w) \<longrightarrow> hash_bytes E x \<noteq> h"
    using torn_read [of ?u h "take n raw" E] paths(2) node assms(6) by simp
  ultimately show ?thesis by blast
qed

section \<open>Witnesses\<close>

theorem put_new_not_exclusive_witness:
  "\<exists>t. runs_to (toy_env True) (toy_world True [], [PutNewStart [7], PutNewStart [7]])
       (t, [PutDone [7] (Inr (hash_of [7])), PutDone [7] (Inr (hash_of [7]))]) \<and>
     put_blob_new (toy_env True) [7] t = (Inl (AlreadyExists (to_hex (hash_of [7]))), t)"
proof -
  obtain t where put: "put_blob (toy_env True) [7] (toy_world True []) = (Inr (hash_of [7]), t)"
    by (rule toy_put)
  have "\<not> path_exists (toy_world True []) (put_path (toy_env True) (toy_world True []) [7])"
    by (simp add: path_exists_def put_path_def blob_path_loose_at node_at_def toy_dirs_def loose_at_def toy_store_def)
  then have "put_blob_new (toy_env True) [7] (toy_world True []) = (Inr (hash_of [7]), t)"
    using put by (simp add: put_blob_absent_eq(2))
  from put_new_not_exclusive [OF _ this] show ?thesis
    by auto
qed

lemma toy_race_put: "put_blob (toy_env False) [7, 8] toy_race = (Inr (hash_of [7, 8]), toy_racing [7, 8])"
proof -
  have absent: "\<not> path_exists toy_race (put_path (toy_env False) toy_race [7, 8])"
    by (simp add: path_exists_def toy_race_nodes)
  have "pending toy_race = []"
    by (simp add: toy_race_def)
  then have "write_blob (toy_env False) (loose_at [''r''] (hash_of [7, 8])) [7, 8] toy_race = (Inr (), toy_racing [7, 8])"
    using toy_race_open(1) by (simp add: write_blob_eq map_err_def quiet_write toy_racing_again)
  moreover have "ensure_parent_dir toy_dir07 toy_race = (Inr (), toy_race)"
    by (simp add: ensure_parent_dir_def run_simps toy_race_def)
  ultimately show ?thesis
    unfolding put_blob_absent_eq(1) [OF absent] by (simp add: bindE_def toy_race_nodes run_atoms)
qed

theorem put_returns_early_witness:
  "\<exists>u. runs_to (toy_env False) (toy_race, [PutStart [7, 8], PutStart [7, 8]])
       (u, [PutWriting [7, 8] [7, 8] 1, PutDone [7, 8] (Inr (hash_of [7, 8]))]) \<and>
     (\<forall>x v. get_blob (toy_env False) (hash_of [7, 8]) u = (Inr x, v) \<longrightarrow> hash_of x \<noteq> hash_of [7, 8])"
proof -
  have "\<not> path_exists toy_race (put_path (toy_env False) toy_race [7, 8])"
    by (simp add: path_exists_def toy_race_nodes)
  moreover have "hash_of [7] \<noteq> hash_of [7, 8]"
    using replicate_Suc [of 30 "0 :: 8 word"] by (simp add: digest_inject [symmetric] digest_hash_of)
  then have "\<forall>x. unpack_loose (toy_env False) (take 1 [7, 8]) = Inr x \<longrightarrow> hash_bytes (toy_env False) x \<noteq> hash_of [7, 8]"
    by (simp add: unpack_loose_def is_zstd_compressed_def)
  moreover have "cached toy_race (hash_of [7, 8]) = None" "pending toy_race = []"
    by (simp_all add: cached_def toy_race_def toy_store_def)
  ultimately show ?thesis
    using put_returns_early [OF _ toy_race_put, of "[7, 8]" 1] by simp
qed

end
