(* ===== verification/Converge.thy ===== *)
theory Converge
  imports SweepSpec Machine
begin

text \<open>
  Sweeps converge: after a sweep that succeeded, the next one with the same live set finds nothing
  to remove.
\<close>

section \<open>The nodes after a sweep\<close>

text \<open>Phase 1 makes no directory deeper than the pack directory.\<close>

definition no_new_dir :: "path \<Rightarrow> world \<Rightarrow> world \<Rightarrow> bool" where
  "no_new_dir q s t \<longleftrightarrow> (node_at t q = Some Dir \<longrightarrow> node_at s q = Some Dir)"

interpretation dirs_kept: state_preorder "no_new_dir q" for q
  by unfold_locales (auto simp: no_new_dir_def)

lemma no_new_dir_write: "upholds (no_new_dir q) (fs_write p b)"
proof (rule upholdsI)
  fix s :: world and r t
  assume run: "fs_write p b s = (r, t)"
  have "node_at t q \<noteq> Some Dir \<or> node_at t q = node_at s q"
    using fs_write_ok [of p b s _ t] fs_write_err [of p b s _ t] run touches_at [OF fs_write_touches [OF run]]
    by (cases "q = p"; cases r) auto
  then show "no_new_dir q s t"
    by (auto simp: no_new_dir_def)
qed

lemma no_new_dir_create:
  assumes "length dir < length q"
  shows "upholds (no_new_dir q) (PackFile_create E dir objects)"
proof -
  have "upholds (no_new_dir q) (create_dir_all dir)"
    by (rule upholdsI) (simp add: no_new_dir_def create_dir_all_far [OF _ assms])
  then show ?thesis
    unfolding PackFile_create_def write_pack_pair_def Let_def by (intro hoare no_new_dir_write)
qed

lemma no_new_dir_rewrite:
  assumes "length dir < length q"
  shows "upholds (no_new_dir q) (rewrite_phase E options dir plan)"
proof -
  have "upholds (no_new_dir q) (rewrite_one E dir rw acc)" for rw acc
  proof -
    have "upholds (no_new_dir q) (read_kept E rw)" "upholds (no_new_dir q) (pair_saving rw pair)" for pair
      unfolding read_kept_def by (rule dirs_kept.resp_reads, intro hoare)+
    then show ?thesis
      unfolding rewrite_one_def by (cases acc) (simp, intro hoare no_new_dir_create [OF assms])
  qed
  then show ?thesis
    unfolding rewrite_phase_def by (intro hoare)
qed

text \<open>With the files it writes known, every other node at the depth of blobs and packs stays.\<close>

lemma exact_node:
  assumes "store_step S s u" and "no_new_dir q s u" and "q \<notin> S"
  shows "node_at u q = node_at s q"
proof (cases "node_at u q")
  case None
  then show ?thesis
    using assms(1,3) by (cases "node_at s q") (auto simp: store_step_def, metis node.exhaust option.distinct(1))
next
  case (Some n)
  then show ?thesis
    using assms by (cases n) (auto simp: store_step_def no_new_dir_def)
qed

lemma invalidate_nodes: "invalidate_pack_cache s = (r, t) \<Longrightarrow> node_at t = node_at s"
  by (auto simp: invalidate_pack_cache_def bindE_def attemptE_def lock_eq set_store_packs_def
      run_atoms node_at_def fun_eq_iff split: if_splits)

lemma execute_plan_exact:
  assumes codec: "codec_ok E" and pd: "planned_disk s live ps plan" and fresh: "fresh_replacements E s plan"
    and run: "execute_plan E options plan s = (Inr report, t)"
  obtains u where "store_step (all_replacements E s plan) s u"
    and "rewrite_partial_packs options \<Longrightarrow> \<forall>rw \<in> set (packs_to_rewrite plan). replaced E s u rw"
    and "\<And>q. length q = length (root (self s)) + 3 \<Longrightarrow> q \<notin> all_replacements E s plan \<Longrightarrow> node_at u q = node_at s q"
    and "\<And>q. q \<notin> sweep_area (root (self s)) (doomed (self s) options plan) \<Longrightarrow> node_at t q = node_at u q"
proof -
  let ?st = "self s" and ?r = "root (self s)" and ?md = "mode options"
  let ?A = "sweep_area ?r (doomed ?st options plan)" and ?S = "all_replacements E s plan"
  obtain a n1 u b n2 u2 n3 u3 c n4 u4 where
    p1: "rewrite_phase E options (pack_dir ?st) plan s = (Inr (a, n1), u)"
    and p2: "loose_phase ?md (?r @ [TRASH_DIR]) ?st plan n1 u = (Inr (b, n2), u2)"
    and p3: "orphan_phase ?md (?r @ [TRASH_DIR]) plan n2 u2 = (Inr n3, u3)"
    and p4: "pack_phase ?md (?r @ [TRASH_DIR]) options plan n3 u3 = (Inr (c, n4), u4)"
    and p5: "invalidate_pack_cache u4 = (Inr (), t)"
    using run by (auto simp: execute_plan_def bind_pure Let_def bindE_eq run_atoms)
  have step: "store_step ?S s u" "rewrite_partial_packs options \<Longrightarrow> \<forall>rw \<in> set (packs_to_rewrite plan). replaced E s u rw"
    using p1 triple_ok [OF rewrite_loop [OF codec planned_rewrites_exist [OF pd] fresh, of "(0, 0)"] refl]
    by (auto simp: rewrite_phase_def run_atoms split: if_splits)
  have "touches ?A u u2" "touches ?A u2 u3" "touches ?A u3 u4"
    by (rule upholdsD [OF frames_loose_phase [OF order_refl] p2],
        rule upholdsD [OF frames_orphan_phase [OF order_refl] p3],
        rule upholdsD [OF frames_pack_phase [OF order_refl] p4])
  then have rest: "node_at t q = node_at u q" if "q \<notin> ?A" for q
    using that invalidate_nodes [OF p5] by (simp add: touches_def)
  have exact: "node_at u q = node_at s q" if "length q = length ?r + 3" "q \<notin> ?S" for q
    by (rule exact_node [OF step(1) upholdsD [OF no_new_dir_rewrite p1] that(2)]) (simp add: pack_dir_def that(1))
  show thesis
    by (rule that [OF step exact rest])
qed

section \<open>Stores with names in order\<close>

text \<open>
  The disk is a tree, garbage lies under its canonical name, and every index file has a name
  before its extension.
\<close>

definition proper_names :: "hash set \<Rightarrow> world \<Rightarrow> bool" where
  "proper_names live s \<longleftrightarrow>
     tree s \<and> tidy s \<and>
     (\<forall>x y h. x \<noteq> ''pack'' \<and> is_file_node (node_at s (objects_dir (self s) @ [x, y])) \<and>
        named_hash (x, y) = Some h \<and> h \<notin> live \<longrightarrow> objects_dir (self s) @ [x, y] = loose_path (self s) h) \<and>
     (\<forall>name. path_exists s (pack_dir (self s) @ [name]) \<and> ends_with (to_string_lossy name) ''.idx'' \<longrightarrow>
        (\<exists>stem. stem \<noteq> [] \<and> name = stem @ ''.idx''))"

text \<open>A sweep of the plan, with the state \<open>u\<close> after its first phase.\<close>

definition swept :: "env \<Rightarrow> hash set \<Rightarrow> sweep_options \<Rightarrow> world \<Rightarrow> path list \<Rightarrow> sweep_plan \<Rightarrow> world \<Rightarrow> world \<Rightarrow> bool" where
  "swept E live options s ps plan u t \<longleftrightarrow>
     planned_disk s live ps plan \<and> fresh_replacements E s plan \<and> rewrite_partial_packs options \<and>
     (\<forall>rw \<in> set (packs_to_rewrite plan). replaced E s u rw) \<and>
     (\<forall>q. is_under (root (self s) @ [''objects'']) q \<and> length q = length (root (self s)) + 3 \<longrightarrow>
        (q \<notin> all_replacements E s plan \<longrightarrow> node_at u q = node_at s q) \<and>
        node_at t q = (if q \<in> doomed (self s) options plan then None else node_at u q)) \<and>
     (\<forall>q b. is_under (root (self s) @ [''objects'']) q \<and> length q < length (root (self s)) + 3 \<and>
        node_at t q = Some (File b) \<longrightarrow> node_at s q = Some (File b))"

lemma length_replacement: "q \<in> all_replacements E s plan \<Longrightarrow> length q = length (root (self s)) + 3"
  by (auto simp: all_replacements_def replacement_paths_def new_pack_paths_def pair_paths_def pack_dir_def
      split: sum.splits)

lemma shallow_kept:
  assumes pd: "planned_disk s live ps plan" and q: "is_under (root (self s) @ [''objects'']) q" "length q < length (root (self s)) + 3"
  shows "q \<notin> sweep_area (root (self s)) (doomed (self s) options plan)"
proof -
  have "\<not> is_under p q" if "p \<in> doomed (self s) options plan" for p
  proof
    assume "is_under p q"
    then have "length p \<le> length q"
      by (auto simp: is_under_iff)
    with doomed_length [OF pd that] q(2) show False by simp
  qed
  with q(1) show ?thesis
    by (auto simp: sweep_area_def)
qed

lemma execute_plan_swept:
  assumes "codec_ok E" and pd: "planned_disk s live ps plan" and fresh: "fresh_replacements E s plan"
    and run: "execute_plan E options plan s = (Inr report, t)" and "rewrite_partial_packs options"
  obtains u where "swept E live options s ps plan u t"
proof (rule execute_plan_exact [OF assms(1-4)])
  fix u
  assume step: "store_step (all_replacements E s plan) s u"
  assume u: "rewrite_partial_packs options \<Longrightarrow> \<forall>rw \<in> set (packs_to_rewrite plan). replaced E s u rw"
    "\<And>q. length q = length (root (self s)) + 3 \<Longrightarrow> q \<notin> all_replacements E s plan \<Longrightarrow> node_at u q = node_at s q"
    "\<And>q. q \<notin> sweep_area (root (self s)) (doomed (self s) options plan) \<Longrightarrow> node_at t q = node_at u q"
  have "node_at t q = (if q \<in> doomed (self s) options plan then None else node_at u q)"
    if "is_under (root (self s) @ [''objects'']) q" "length q = length (root (self s)) + 3" for q
    using that u(3) outside_area [OF pd _ that] execute_plan_done(1) [OF pd run] by auto
  moreover have "node_at s q = Some (File b)"
    if "is_under (root (self s) @ [''objects'']) q" "length q < length (root (self s)) + 3" "node_at t q = Some (File b)" for q b
  proof -
    have "q \<notin> all_replacements E s plan"
      using length_replacement that(2) by fastforce
    moreover have "node_at u q = Some (File b)"
      using u(3) [OF shallow_kept [OF pd that(1,2)]] that(3) by metis
    ultimately show ?thesis
      using store_step_at [OF step] by blast
  qed
  ultimately have "swept E live options s ps plan u t"
    using u(1,2) assms(5) pd fresh by (simp add: swept_def)
  then show thesis by (rule that)
qed

lemma sweptD:
  assumes "swept E live options s ps plan u t"
  shows "planned_disk s live ps plan" "fresh_replacements E s plan" "rewrite_partial_packs options"
  using assms by (simp_all add: swept_def)

lemma swept_node:
  assumes "swept E live options s ps plan u t" and "is_under (root (self s) @ [''objects'']) q"
    and "length q = length (root (self s)) + 3"
  shows "q \<notin> all_replacements E s plan \<Longrightarrow> node_at u q = node_at s q"
    and "node_at t q = (if q \<in> doomed (self s) options plan then None else node_at u q)"
  using assms by (simp_all add: swept_def)

text \<open>What lies on a path of a replacement pack.\<close>

lemma swept_replacement:
  assumes sw: "swept E live options s ps plan u t" and q: "q \<in> all_replacements E s plan"
  obtains p index pd where "q = p \<or> q = with_extension p ''idx''" and "is_pack_path (pack_dir (self s)) p"
    and "node_at t p = Some (File pd)" and "idx_of t p = Inr index" and "set (PackIndex_hashes index) \<subseteq> packed_set s ps \<inter> live"
proof -
  obtain rw where rw: "rw \<in> set (packs_to_rewrite plan)" and "q \<in> set (replacement_paths E s (pack_dir (self s)) rw)"
    using q by (auto simp: all_replacements_def)
  then obtain p pd index where q': "q = p \<or> q = with_extension p ''idx''" and p: "is_pack_path (pack_dir (self s)) p"
    and paths: "set (replacement_paths E s (pack_dir (self s)) rw) = {p, with_extension p ''idx''}"
    and nodes: "node_at u p = Some (File pd)" "idx_of u p = Inr index" "set (PackIndex_hashes index) = set (keep rw)"
    using sw unfolding swept_def replaced_def by blast
  have "\<not> path_exists s p" "\<not> path_exists s (with_extension p ''idx'')"
    using sweptD(2) [OF sw] rw paths by (auto simp: fresh_replacements_def)
  then have "p \<notin> doomed (self s) options plan" "with_extension p ''idx'' \<notin> doomed (self s) options plan"
    using doomed_exists [OF sweptD(1) [OF sw]] by blast+
  then have "node_at t p = node_at u p" "node_at t (with_extension p ''idx'') = node_at u (with_extension p ''idx'')"
    using swept_node(2) [OF sw] pack_path_under [OF p] by simp_all
  moreover from this have "idx_of t p = Inr index"
    using nodes(2) by (simp add: idx_of_def index_at_ok)
  moreover have "set (keep rw) \<subseteq> packed_set s ps \<inter> live"
    using planned_rewrites [OF sweptD(1) [OF sw] rw] by (auto simp: packed_set_def)
  ultimately show thesis
    using that [OF q' p] nodes by simp
qed

section \<open>What the next plan finds\<close>

lemma entry_place:
  "is_under (root st @ [''objects'']) (objects_dir st @ [x, y])" "length (objects_dir st @ [x, y]) = length (root st) + 3"
  "is_under (root st @ [''objects'']) (pack_dir st @ [y])" "length (pack_dir st @ [y]) = length (root st) + 3"
  by (simp_all add: objects_dir_def pack_dir_def)

lemma proper_namesD:
  assumes "proper_names live s"
  shows "tree s" "tidy s" "wf_disk s"
  using assms by (simp_all add: proper_names_def tidy_def)

lemma named_listed:
  assumes "tree s" and "wf_disk s" and "x \<noteq> ''pack''" and "named_hash (x, y) = Some h"
    and node: "is_file_node (node_at s (objects_dir (self s) @ [x, y]))"
  shows "h \<in> loose_set s"
proof -
  let ?dir = "objects_dir (self s)"
  obtain b where b: "node_at s ((?dir @ [x]) @ [y]) = Some (File b)"
    using node by (auto elim: is_file_nodeE)
  have bucket: "node_at s (?dir @ [x]) = Some Dir"
    using treeD [OF assms(1) b] by simp
  then have "node_at s ?dir = Some Dir"
    using treeD [OF assms(1)] by (metis append_is_Nil_conv list.distinct(1) objects_dir_def)
  with bucket assms show ?thesis
    using mem_loose_hashes [OF assms(2), of ?dir h] by (auto simp: loose_set_def)
qed

lemma swept_loose:
  assumes sw: "swept E live options s ps plan u t" and names: "proper_names live s" and wf: "wf_disk t"
    and st: "root (self t) = root (self s)"
  shows "loose_set t \<subseteq> loose_set s \<inter> live"
proof
  fix h
  let ?dir = "objects_dir (self s)"
  have dir: "objects_dir (self t) = ?dir"
    using st by (simp add: objects_dir_def)
  assume h: "h \<in> loose_set t"
  then have "node_at t ?dir = Some Dir"
    by (auto simp: loose_set_def loose_hashes_def dir split: if_splits)
  with h obtain x y where x: "x \<noteq> ''pack''" and file_t: "is_file_node (node_at t (?dir @ [x, y]))"
    and name: "named_hash (x, y) = Some h"
    using mem_loose_hashes [OF wf, of ?dir h] by (auto simp: loose_set_def dir)
  note node = swept_node [OF sw entry_place(1,2), of x y]
  have out: "?dir @ [x, y] \<notin> all_replacements E s plan"
    using x by (auto simp: all_replacements_def replacement_paths_def new_pack_paths_def pair_paths_def
        pack_dir_def objects_dir_def split: sum.splits)
  with file_t node have keep: "?dir @ [x, y] \<notin> doomed (self s) options plan"
    and file_s: "is_file_node (node_at s (?dir @ [x, y]))"
    by (auto simp: is_file_node_def split: if_splits)
  have "h \<in> loose_set s"
    by (rule named_listed [OF proper_namesD(1,3) [OF names] x name file_s])
  have "h \<in> live"
  proof (rule ccontr)
    assume "h \<notin> live"
    then have "?dir @ [x, y] = loose_path (self s) h"
      using names x file_s name unfolding proper_names_def by blast
    moreover have "loose_garbage plan = sorted_list_of_set (loose_set s - live)"
      using planned_diskD(3) [OF sweptD(1) [OF sw]] by (simp add: planned_def)
    moreover have "finite (loose_set s - live)"
      by (simp add: loose_set_def)
    ultimately have "?dir @ [x, y] \<in> doomed (self s) options plan"
      using \<open>h \<in> loose_set s\<close> \<open>h \<notin> live\<close> by (simp add: doomed_def)
    with keep show False ..
  qed
  with \<open>h \<in> loose_set s\<close> show "h \<in> loose_set s \<inter> live" ..
qed

lemma is_pack_path_names:
  assumes "is_pack_path dir p"
  obtains stem where "stem \<noteq> []" "p = dir @ [stem @ ''.pack'']" "with_extension p ''idx'' = dir @ [stem @ ''.idx'']"
    "\<not> ends_with (to_string_lossy (stem @ ''.pack'')) ''.idx''"
  using assms by (auto elim!: is_pack_pathE dest: lossy_pack_name)

lemma swept_pack:
  assumes sw: "swept E live options s ps plan u t" and names: "proper_names live s"
    and p: "is_pack_path (pack_dir (self s)) p" and there: "path_exists t p"
  shows "has_idx t p" and "indexed t p \<Longrightarrow> pack_hashes t p \<subseteq> packed_set s ps \<inter> live"
proof -
  let ?D = "doomed (self s) options plan" and ?R = "all_replacements E s plan" and ?idx = "with_extension p ''idx''"
  have "has_idx t p \<and> (indexed t p \<longrightarrow> pack_hashes t p \<subseteq> packed_set s ps \<inter> live)"
  proof (cases "p \<in> ?R \<or> ?idx \<in> ?R")
    case True
    then obtain q p' index where q: "q \<in> {p, ?idx}" "q = p' \<or> q = with_extension p' ''idx''"
      and p': "is_pack_path (pack_dir (self s)) p'" "idx_of t p' = Inr index" "set (PackIndex_hashes index) \<subseteq> packed_set s ps \<inter> live"
      by (elim disjE) (metis insertI1 insertI2 swept_replacement [OF sw])+
    have "p = p'"
      using q p'(1) p by (elim is_pack_path_names) (auto simp: pack_not_idx pack_not_idx [symmetric])
    moreover have "has_idx t p'"
      using p'(2) by (auto simp: has_idx_def path_exists_def idx_of_def index_at_ok)
    ultimately show ?thesis
      using p'(2,3) by (simp add: pack_hashes_def)
  next
    case False
    note under = pack_path_under [OF p]
    have "p \<notin> ?D" and at: "node_at s p = node_at t p"
      using swept_node [OF sw under(1,2)] there False by (auto simp: path_exists_def split: if_splits)
    then have there_s: "path_exists s p"
      using there by (simp add: path_exists_def)
    have "node_at s (pack_dir (self s)) = Some Dir"
      using p there_s treeD [OF proper_namesD(1) [OF names]]
      by (auto simp: path_exists_def is_pack_path_def pack_dir_def)
    then have mem: "p \<in> set ps"
      using p there_s mem_packs_at [OF planned_diskD(1,2) [OF sweptD(1) [OF sw]]] by (auto simp: is_pack_path_def)
    note planned = planned_diskD(3) [OF sweptD(1) [OF sw], unfolded planned_def]
    have has: "has_idx s p"
    proof (rule ccontr)
      assume "\<not> has_idx s p"
      with mem planned have "p \<in> set (orphan_files plan)" by simp
      with \<open>p \<notin> ?D\<close> show False by (simp add: doomed_def)
    qed
    have "p \<notin> set (removals options plan)"
      using \<open>p \<notin> ?D\<close> by (simp add: doomed_def)
    with survivor_not_doomed(2) [OF sweptD(1) [OF sw] p there_s has] have "?idx \<notin> ?D" .
    then have idx: "node_at t ?idx = node_at s ?idx"
      using swept_node [OF sw under(3,4)] False by simp
    have "set (removals options plan) = {p \<in> set ps. indexed s p \<and> \<not> healthy s live p}"
    proof -
      have "mset (removals options plan) = mset (filter (\<lambda>p. indexed s p \<and> \<not> healthy s live p) ps)"
        using planned sweptD(3) [OF sw] by (simp add: removals_def)
      from mset_eq_setD [OF this] show ?thesis by simp
    qed
    then have "indexed s p \<longrightarrow> pack_hashes s p \<subseteq> packed_set s ps \<inter> live"
      using mem \<open>p \<notin> set (removals options plan)\<close> by (auto simp: healthy_def packed_set_def)
    moreover have "has_idx t p" "idx_of t p = idx_of s p"
      using has idx index_at_cong [of t ?idx s] by (auto simp: has_idx_def path_exists_def idx_of_def)
    ultimately show ?thesis
      by (simp add: indexed_def pack_hashes_def has)
  qed
  then show "has_idx t p" and "indexed t p \<Longrightarrow> pack_hashes t p \<subseteq> packed_set s ps \<inter> live"
    by simp_all
qed

lemma swept_index:
  assumes sw: "swept E live options s ps plan u t" and names: "proper_names live s"
    and q: "q = pack_dir (self s) @ [name]" "path_exists t q" and idx: "ends_with (to_string_lossy name) ''.idx''"
  shows "path_exists t (with_extension q ''pack'')"
proof (rule ccontr)
  let ?D = "doomed (self s) options plan" and ?R = "all_replacements E s plan" and ?p = "with_extension q ''pack''"
  assume gone: "\<not> path_exists t ?p"
  have "q \<notin> ?R"
  proof
    assume "q \<in> ?R"
    then obtain p pd where p: "q = p \<or> q = with_extension p ''idx''" "is_pack_path (pack_dir (self s)) p"
      "node_at t p = Some (File pd)"
      by (rule swept_replacement [OF sw])
    from p(2) obtain stem where "stem \<noteq> []" "p = pack_dir (self s) @ [stem @ ''.pack'']"
      "with_extension p ''idx'' = pack_dir (self s) @ [stem @ ''.idx'']"
      "\<not> ends_with (to_string_lossy (stem @ ''.pack'')) ''.idx''"
      by (rule is_pack_path_names)
    with p(1,3) q(1) idx gone show False
      by (auto simp: idx_to_pack path_exists_def)
  qed
  note place = entry_place(3,4) [of "self s"]
  have "q \<notin> ?D" and at: "node_at s q = node_at t q"
    using swept_node [OF sw, of q] place q \<open>q \<notin> ?R\<close> by (auto simp: path_exists_def split: if_splits)
  then have there: "path_exists s q"
    using q(2) by (simp add: path_exists_def)
  then obtain stem where stem: "stem \<noteq> []" "name = stem @ ''.idx''"
    using names idx q(1) unfolding proper_names_def by blast
  then have p: "?p = pack_dir (self s) @ [stem @ ''.pack'']" and pair: "with_extension ?p ''idx'' = q"
    using q(1) by (simp_all add: idx_to_pack pack_to_idx)
  have dir: "node_at s (pack_dir (self s)) = Some Dir"
    using there q(1) treeD [OF proper_namesD(1) [OF names]] by (auto simp: path_exists_def pack_dir_def)
  note pd = sweptD(1) [OF sw]
  note planned = planned_diskD(3) [OF pd, unfolded planned_def]
  have "?p \<notin> ?R"
  proof
    assume "?p \<in> ?R"
    then obtain p' where "?p = p' \<or> ?p = with_extension p' ''idx''" "is_pack_path (pack_dir (self s)) p'"
      "\<exists>b. node_at t p' = Some (File b)"
      by (rule swept_replacement [OF sw]) blast
    with gone p show False
      by (elim is_pack_path_names) (auto simp: path_exists_def pack_not_idx)
  qed
  then have node: "node_at t ?p = (if ?p \<in> ?D then None else node_at s ?p)"
    using swept_node [OF sw, of ?p] place p by simp
  show False
  proof (cases "path_exists s ?p")
    case False
    then have "?p \<notin> set ps"
      using mem_packs_at [OF planned_diskD(1,2) [OF pd]] by blast
    moreover obtain n where "(name, n) \<in> set (children s (pack_dir (self s)))"
      using there q(1) mem_children [OF planned_diskD(1) [OF pd]] by (auto simp: path_exists_def)
    ultimately have "q \<in> set (orphan_indices s (filter (indexed s) ps) (pack_dir (self s)))"
      using dir idx False q(1) by (force simp: orphan_indices_def)
    with planned have "q \<in> set (orphan_files plan)" by simp
    with \<open>q \<notin> ?D\<close> show False by (simp add: doomed_def)
  next
    case True
    with gone node have "?p \<in> ?D"
      by (auto simp: path_exists_def split: if_splits)
    with pd show False
    proof (cases rule: doomed_cases)
      case (loose h)
      with p show False
        using loose_at_not_pack [of "root (self s)" h "stem @ ''.pack''"] by (simp add: pack_dir_def)
    next
      case bare
      with there pair show False by (simp add: has_idx_def)
    next
      case (stray name')
      with p names obtain stem' where "stem @ ''.pack'' = stem' @ ''.idx''"
        unfolding proper_names_def by auto
      then show False by (simp add: pack_not_idx)
    next
      case pack
      then have "with_extension ?p ''idx'' \<in> ?D"
        unfolding doomed_def by blast
      with pair \<open>q \<notin> ?D\<close> show False
        by simp
    next
      case (idx p')
      with p packs_proper(1) [OF pd idx(3)] show False
        by (auto elim!: is_pack_path_names simp: pack_not_idx)
    qed
  qed
qed

text \<open>The plan made after such a sweep.\<close>

lemma swept_plan:
  assumes sw: "swept E live options s ps plan u t" and names: "proper_names live s" and wf: "wf_disk t"
    and st: "root (self t) = root (self s)" and pd: "planned_disk t live ps' plan'"
  shows "loose_garbage plan' = []" and "packs_to_remove plan' = []" and "packs_to_rewrite plan' = []"
    and "orphan_files plan' = []"
proof -
  have dir: "pack_dir (self t) = pack_dir (self s)"
    using st by (simp add: pack_dir_def)
  note planned = planned_diskD(3) [OF pd, unfolded planned_def]
  have packs: "has_idx t p" "indexed t p \<longrightarrow> healthy t live p" if "p \<in> set ps'" for p
    using swept_pack [OF sw names, of p] packs_proper [OF pd that] dir by (simp_all add: healthy_def)
  show "loose_garbage plan' = []"
  proof -
    have "loose_set t - live = {}"
      using swept_loose [OF sw names wf st] by blast
    with planned show ?thesis by simp
  qed
  have "filter (\<lambda>p. indexed t p \<and> \<not> healthy t live p) ps' = []"
    using packs(2) by (simp add: filter_empty_conv)
  then have "mset (packs_to_remove plan' @ map rewrite_pack (packs_to_rewrite plan')) = {#}"
    using planned by simp
  then show "packs_to_remove plan' = []" "packs_to_rewrite plan' = []"
    by simp_all
  have "filter (\<lambda>p. \<not> has_idx t p) ps' = []"
    using packs(1) by (simp add: filter_empty_conv)
  moreover have "orphan_indices t (filter (indexed t) ps') (pack_dir (self t)) = []"
  proof -
    have "path_exists t (with_extension (pack_dir (self s) @ [name]) ''pack'')"
      if "(name, n) \<in> set (children t (pack_dir (self s)))" "ends_with (to_string_lossy name) ''.idx''" for name n
      using swept_index [OF sw names refl _ that(2)] that(1) mem_children [OF wf] by (auto simp: path_exists_def)
    then show ?thesis
      by (fastforce simp: orphan_indices_def dir filter_empty_conv)
  qed
  ultimately show "orphan_files plan' = []"
    using planned by simp
qed

section \<open>Convergence\<close>

interpretation rooted: store_relation "\<lambda>s t. root (self t) = root (self s)" E for E
proof unfold_locales
  show "upholds (\<lambda>s t. root (self t) = root (self s)) (get_blob E h)" for h
    by (rule upholds_mono [OF changes_only_get_blob [of "{}"]]) (simp add: store_step_def same_config_def)
  show "upholds (\<lambda>s t. root (self t) = root (self s)) (set_known_dirs k :: unit store_prog)"
    "upholds (\<lambda>s t. root (self t) = root (self s)) (set_store_packs c :: unit store_prog)" for k c
    by (auto intro!: upholdsI simp: set_known_dirs_def set_store_packs_def run_atoms)
qed (rule preserves_mono, rule hoare self_kept.rel_create_dir_all self_kept.rel_fs_write
    self_kept.rel_fs_remove_file self_kept.rel_fs_rename)+

lemma next_plan:
  assumes sw: "swept E live options s ps plan u t" and names: "proper_names live s" and wf: "wf_disk t"
    and st: "root (self t) = root (self s)" and plan: "plan_sweep live s = (Inr plan, s)"
  obtains plan' ps' where "plan_sweep live t = (Inr plan', t)" and "planned_disk t live ps' plan'"
proof -
  have shallow: "node_at t q = Some (File b) \<Longrightarrow> node_at s q = Some (File b)"
    if "q = objects_dir (self s) \<or> q = pack_dir (self s)" for q b
    using sw that unfolding swept_def by (auto simp: objects_dir_def pack_dir_def)
  have dirs: "objects_dir (self t) = objects_dir (self s)" "pack_dir (self t) = pack_dir (self s)"
    using st by (simp_all add: objects_dir_def pack_dir_def)
  have "\<forall>b. node_at s (objects_dir (self s)) \<noteq> Some (File b)"
    using plan by (auto simp: plan_sweep_def list_blobs_def each_loose_file_def bindE_eq map_err_eq run_atoms
        path_exists_def read_dir_def split: if_splits)
  then have list: "list_blobs t = (Inr (loose_hashes t (objects_dir (self t))), t)"
    using shallow by (intro list_blobs_eq [OF wf]) (auto simp: dirs)
  have "\<forall>b. node_at s (pack_dir (self s)) \<noteq> Some (File b)"
    using planned_diskD(2) [OF sweptD(1) [OF sw]] by (auto simp: packs_at_cases)
  then have "\<forall>b. node_at t (pack_dir (self t)) \<noteq> Some (File b)"
    using shallow by (auto simp: dirs)
  then obtain ps' where ps': "packs_at t (pack_dir (self t)) = Inr ps'"
    using packs_at_cases [of t "pack_dir (self t)"]
    by (cases "node_at t (pack_dir (self t))") (auto split: node.splits)
  have "loose_set t - live = {}"
    using swept_loose [OF sw names wf st] by blast
  then obtain plan' where run: "plan_sweep live t = (Inr plan', t)"
    using plan_sweep_eq [OF wf list ps', of live] by simp
  have "\<not> path_exists s (pack_dir (self s) @ [''.pack''])"
    using planned_diskD(4) [OF sweptD(1) [OF sw]] .
  moreover have "pack_dir (self s) @ [''.pack''] \<notin> all_replacements E s plan"
  proof
    assume "pack_dir (self s) @ [''.pack''] \<in> all_replacements E s plan"
    then obtain p where "pack_dir (self s) @ [''.pack''] = p \<or> pack_dir (self s) @ [''.pack''] = with_extension p ''idx''"
      "is_pack_path (pack_dir (self s)) p"
      by (rule swept_replacement [OF sw])
    then show False
      using pack_not_idx [of "[]"] by (elim is_pack_path_names) auto
  qed
  ultimately have "tidy t"
    using swept_node [OF sw entry_place(3,4), of "''.pack''"] wf by (auto simp: tidy_def path_exists_def dirs)
  then show thesis
    using tidy_planned run that by metis
qed

text \<open>
  C18. Sweeps converge. After a sweep that succeeded with rewriting on, in either mode, the next plan
  for the same live set succeeds and finds nothing: no loose garbage, no pack with garbage to remove or to rewrite,
  and no orphan file, where garbage had its canonical names and the replacement packs names of their own.
\<close>

theorem sweep_converges:
  assumes "codec_ok E" and "proper_names live s" and "mode options \<noteq> DryRun" and "rewrite_partial_packs options"
    and "\<forall>plan. plan_sweep live s = (Inr plan, s) \<longrightarrow> fresh_replacements E s plan"
    and "sweep E live options s = (Inr report, t)"
  shows "\<exists>plan. plan_sweep live t = (Inr plan, t) \<and> loose_garbage plan = [] \<and>
    packs_to_remove plan = [] \<and> packs_to_rewrite plan = [] \<and> orphan_files plan = []"
proof -
  obtain plan ps where plan: "plan_sweep live s = (Inr plan, s)" and pd: "planned_disk s live ps plan"
    and run: "execute_plan E options plan s = (Inr report, t)"
    using sweep_executed [OF assms(6,3) proper_namesD(2) [OF assms(2)]] .
  obtain u where sw: "swept E live options s ps plan u t"
    using execute_plan_swept [OF assms(1) pd _ run assms(4)] assms(5) plan by blast
  have "well_formed t" and st: "root (self t) = root (self s)"
    using upholdsD [OF shape.rel_sweep assms(6)] upholdsD [OF rooted.rel_sweep assms(6)]
      proper_namesD [OF assms(2)] by (simp_all add: well_formed_def)
  then have wf: "wf_disk t"
    by (simp add: well_formed_def)
  obtain plan' ps' where "plan_sweep live t = (Inr plan', t)" and "planned_disk t live ps' plan'"
    by (rule next_plan [OF sw assms(2) wf st plan])
  with swept_plan [OF sw assms(2) wf st] show ?thesis
    by blast
qed

lemma toy_proper: "proper_names toy_live toy_gc"
  unfolding proper_names_def
proof (intro conjI allI impI)
  fix x y h
  assume file_xy: "x \<noteq> ''pack'' \<and> is_file_node (node_at toy_gc (objects_dir (self toy_gc) @ [x, y])) \<and>
      named_hash (x, y) = Some h \<and> h \<notin> toy_live"
  then have "node_at toy_gc [''r'', ''objects'', x] = Some Dir"
    using treeD [OF toy_tree, of "[''r'', ''objects'', x]" y] by (auto elim: is_file_nodeE)
  with file_xy have "(x, y) \<in> set (loose_files toy_gc [''r'', ''objects''])"
    by (simp add: mem_loose_files [OF toy_gc_wf])
  with file_xy show "objects_dir (self toy_gc) @ [x, y] = loose_path (self toy_gc) h"
    by (auto simp: toy_loose_files toy_named loose_path_eq toy_loose_at)
next
  fix name
  assume "path_exists toy_gc (pack_dir (self toy_gc) @ [name]) \<and> ends_with (to_string_lossy name) ''.idx''"
  moreover have "\<not> ends_with (to_string_lossy ''p.pack'') ''.idx''"
    by code_simp
  ultimately have "name = ''p'' @ ''.idx''"
    by (auto simp: path_exists_def node_at_def toy_paths split: if_splits)
  then show "\<exists>stem. stem \<noteq> [] \<and> name = stem @ ''.idx''" by blast
qed (rule toy_tree, rule toy_tidy)

theorem sweep_converges_witness:
  "\<exists>report t plan. sweep (toy_env False) toy_live \<lparr>mode = Delete, rewrite_partial_packs = True\<rparr> toy_gc = (Inr report, t) \<and>
     loose_removed report = 1 \<and> plan_sweep toy_live t = (Inr plan, t) \<and> loose_garbage plan = [] \<and> packs_to_rewrite plan = []"
proof -
  obtain report t where run: "sweep (toy_env False) toy_live \<lparr>mode = Delete, rewrite_partial_packs = True\<rparr> toy_gc = (Inr report, t)"
    using toy_sweep by blast
  obtain plan ps where pd: "planned_disk toy_gc toy_live ps plan"
      and went: "execute_plan (toy_env False) \<lparr>mode = Delete, rewrite_partial_packs = True\<rparr> plan toy_gc = (Inr report, t)"
    by (rule sweep_executed [OF run _ toy_tidy]) simp_all
  have "loose_garbage plan = [hash_of [4]]"
    using planned_diskD(3) [OF pd] by (simp add: planned_def toy_loose_set toy_live_def insert_Diff_if)
  with execute_plan_done(5) [OF pd went] have "loose_removed report = 1"
    by simp
  with run sweep_converges [OF toy_codec toy_proper _ _ toy_fresh run] show ?thesis
    by auto
qed

end
