(* ===== verification/Remains.thy ===== *)
theory Remains
  imports Converge
begin

text \<open>
  What a sweep leaves, as one equation: the digests on the disk after a sweep that succeeded are
  those that were there before and are live. From it, what a whole run of \<open>cas-gc\<close> leaves.
\<close>

section \<open>The digests on a disk\<close>

text \<open>
  The abstraction: the digests that the names under \<open>objects\<close> and the readable indices list, as
  \<open>list_blobs\<close> and a fresh \<open>list_blobs_packed\<close> find them.
\<close>

definition stored :: "'z disk_scheme \<Rightarrow> path \<Rightarrow> hash set" where
  "stored d r = set (loose_hashes d (r @ [''objects''])) \<union>
     (case packs_at d (r @ [''objects'', ''pack'']) of Inl e \<Rightarrow> {} | Inr ps \<Rightarrow> packed_set d ps)"

lemma stored_world:
  "packs_at s (pack_dir (self s)) = Inr ps \<Longrightarrow> stored s (root (self s)) = loose_set s \<union> packed_set s ps"
  by (simp add: stored_def loose_set_def objects_dir_def pack_dir_def)

lemma stored_same: "nodes t = nodes s \<Longrightarrow> stored t r = stored s r"
  unfolding stored_def using pack_facts_same(3,7) [of t s] lookups_same(2) [of t s]
  by (auto split: sum.split)

lemma held_stored:
  assumes "tree s" and "wf_disk s" and "packs_at s (pack_dir (self s)) = Inr ps"
    and "held E s (root (self s)) h data"
  shows "h \<in> loose_set s \<union> packed_set s ps"
  using assms(4) loose_listed [OF assms(1,2)] pack_listed [OF assms(1-3)]
  by (fastforce simp: held_def pack_dir_def)

lemma stored_held:
  assumes pd: "planned_disk s live ps plan" and sound: "sound_store E live s"
    and "h \<in> loose_set s \<union> packed_set s ps" and live: "h \<in> live"
  shows "\<exists>data. held E s (root (self s)) h data"
  using assms(3)
proof
  assume "h \<in> loose_set s"
  with sound live show ?thesis
    by (auto simp: sound_store_def held_def)
next
  assume "h \<in> packed_set s ps"
  then obtain p where p: "p \<in> set ps" "indexed s p" "h \<in> pack_hashes s p"
    by (auto simp: packed_set_def)
  note proper = packs_proper(1) [OF pd p(1)]
  from sound_pack [OF sound proper p(2) live p(3)] proper show ?thesis
    by (auto simp: held_def is_pack_path_def pack_dir_def)
qed

section \<open>After a sweep\<close>

text \<open>No digest is new, and none is garbage.\<close>

lemma swept_stored:
  assumes sw: "swept E live options s ps plan u t" and names: "proper_names live s" and wf: "wf_disk t"
    and st: "root (self t) = root (self s)" and pd: "planned_disk t live ps' plan'"
  shows "loose_set t \<union> packed_set t ps' \<subseteq> (loose_set s \<union> packed_set s ps) \<inter> live"
proof -
  have dir: "pack_dir (self t) = pack_dir (self s)"
    using st by (simp add: pack_dir_def)
  have "pack_hashes t p \<subseteq> packed_set s ps \<inter> live" if "p \<in> set ps'" "indexed t p" for p
    using swept_pack(2) [OF sw names, of p] packs_proper [OF pd that(1)] that(2) dir by simp
  then have "packed_set t ps' \<subseteq> packed_set s ps \<inter> live"
    by (auto simp: packed_set_def)
  with swept_loose [OF sw names wf st] show ?thesis
    by blast
qed

lemma sweep_restricts:
  assumes "codec_ok E" and "proper_names live s" and "sound_store E live s"
    and "mode options \<noteq> DryRun" and "rewrite_partial_packs options"
    and "\<forall>plan. plan_sweep live s = (Inr plan, s) \<longrightarrow> fresh_replacements E s plan"
    and "sweep E live options s = (Inr report, t)"
  shows "stored t (root (self t)) = stored s (root (self s)) \<inter> live"
proof -
  obtain plan ps where plan: "plan_sweep live s = (Inr plan, s)" and pd: "planned_disk s live ps plan"
    and run: "execute_plan E options plan s = (Inr report, t)"
    using sweep_executed [OF assms(7,4) proper_namesD(2) [OF assms(2)]] .
  obtain u where sw: "swept E live options s ps plan u t"
    using execute_plan_swept [OF assms(1) pd _ run assms(5)] assms(6) plan by blast
  have "well_formed t" and st: "root (self t) = root (self s)"
    using upholdsD [OF shape.rel_sweep assms(7)] upholdsD [OF rooted.rel_sweep assms(7)]
      proper_namesD [OF assms(2)] by (simp_all add: well_formed_def)
  then have tree: "tree t" and wf: "wf_disk t"
    by (simp_all add: well_formed_def)
  obtain plan' ps' where pd': "planned_disk t live ps' plan'"
    by (rule next_plan [OF sw assms(2) wf st plan])
  have "h \<in> loose_set t \<union> packed_set t ps'" if "h \<in> loose_set s \<union> packed_set s ps" "h \<in> live" for h
  proof -
    from stored_held [OF pd assms(3) that] obtain data where "held E s (root (self s)) h data" ..
    with sweep_keeps_held [OF assms(1,3,6) that(2) _ assms(7)] st
    obtain data' where "held E t (root (self t)) h data'"
      by metis
    then show ?thesis
      by (rule held_stored [OF tree wf planned_diskD(2) [OF pd']])
  qed
  with swept_stored [OF sw assms(2) wf st pd'] show ?thesis
    unfolding stored_world [OF planned_diskD(2) [OF pd]] stored_world [OF planned_diskD(2) [OF pd']]
    by blast
qed

text \<open>
  C8. What a sweep does to the store is the restriction of its set of digests to the live set. After
  a sweep that succeeded with rewriting on, in either mode, on a disk with any faults, the digests that
  the blob files and the readable pack indices list are exactly the live ones among those listed before.
\<close>

theorem sweep_refines_restriction:
  assumes "codec_ok E" and "proper_names live s" and "sound_store E live s"
    and "mode options \<noteq> DryRun" and "rewrite_partial_packs options"
    and "\<forall>plan. plan_sweep live s = (Inr plan, s) \<longrightarrow> fresh_replacements E s plan"
    and "sweep E live options s = (Inr report, t)"
  shows "stored t (root (self t)) = stored s (root (self s)) \<inter> live"
  by (rule sweep_restricts [OF assms])

lemma toy_stored: "stored toy_gc [''r''] = {hash_of [1], hash_of [2], hash_of [3], hash_of [4]}"
  using stored_world [of toy_gc "[toy_pack_path]"] toy_packs toy_loose_set toy_packed_set
  by (auto simp: pack_dir_def)

theorem sweep_refines_restriction_witness:
  "\<exists>report t. sweep (toy_env False) toy_live \<lparr>mode = Delete, rewrite_partial_packs = True\<rparr> toy_gc = (Inr report, t) \<and>
     hash_of [4] \<in> stored toy_gc [''r''] \<and> hash_of [2] \<in> stored toy_gc [''r''] \<and> stored t (root (self t)) = toy_live"
proof -
  obtain report t where run: "sweep (toy_env False) toy_live \<lparr>mode = Delete, rewrite_partial_packs = True\<rparr> toy_gc = (Inr report, t)"
    using toy_sweep by blast
  have "stored t (root (self t)) = stored toy_gc (root (self toy_gc)) \<inter> toy_live"
    by (rule sweep_refines_restriction [OF toy_codec toy_proper toy_sound _ _ toy_fresh run]) simp_all
  with run toy_stored show ?thesis
    by (auto simp: toy_live_def)
qed

section \<open>After a run of the command line tool\<close>

lemma alike_proper:
  assumes "alike s t" and "proper_names live s"
  shows "proper_names live t"
proof -
  note n = alike_nodes(1) [OF assms(1)] and dirs = alike_dirs [OF assms(1)]
  have "tree t" "tidy t"
    using proper_namesD [OF assms(2)] node_at_same [OF n] lookups_same [OF n] dirs
    by (simp_all add: tree_def tidy_def)
  with assms(2) show ?thesis
    unfolding proper_names_def node_at_same [OF n] lookups_same [OF n] by (simp add: dirs)
qed

lemma proper_listed:
  assumes "proper_names live s" and "live \<inter> loose_set s \<subseteq> live'"
  shows "proper_names live' s"
  unfolding proper_names_def
proof (intro conjI allI impI)
  fix x y h
  assume file_xy: "x \<noteq> ''pack'' \<and> is_file_node (node_at s (objects_dir (self s) @ [x, y])) \<and>
      named_hash (x, y) = Some h \<and> h \<notin> live'"
  with named_listed [OF proper_namesD(1,3) [OF assms(1)]] assms(2) have "h \<notin> live"
    by blast
  with file_xy show "objects_dir (self s) @ [x, y] = loose_path (self s) h"
    using assms(1) unfolding proper_names_def by blast
next
  fix name
  assume "path_exists s (pack_dir (self s) @ [name]) \<and> ends_with (to_string_lossy name) ''.idx''"
  then show "\<exists>stem. stem \<noteq> [] \<and> name = stem @ ''.idx''"
    using assms(1) unfolding proper_names_def by blast
qed (rule proper_namesD [OF assms(1)])+

text \<open>What mark hands to the sweep, when the store has just been opened.\<close>

lemma marked_ready:
  assumes mark: "mark E roots s = (Inr ls, v)" and none: "guarded (store_packs (self s)) = None"
    and order: "map_order_ok E" and names: "proper_names roots s" and sound: "sound_store E roots s"
    and fresh: "\<forall>plan. plan_sweep (stored s (root (self s)) \<inter> roots) s = (Inr plan, s) \<longrightarrow> fresh_replacements E s plan"
  shows "live_hashes ls = stored s (root (self s)) \<inter> roots"
    and "proper_names (live_hashes ls) v" and "sound_store E (live_hashes ls) v"
    and "\<forall>plan. plan_sweep (live_hashes ls) v = (Inr plan, v) \<longrightarrow> fresh_replacements E v plan"
proof -
  have alike: "alike s v"
    by (rule mark_alike [OF mark])
  have wf: "wf_disk s"
    using proper_namesD [OF names] by simp
  obtain ps where ps: "packs_at s (pack_dir (self s)) = Inr ps"
    and "live_hashes ls = {h \<in> roots. h \<in> loose_set s \<union> packed_set s ps}"
    by (rule mark_live [OF mark wf order none])
  then show live: "live_hashes ls = stored s (root (self s)) \<inter> roots"
    using stored_world [OF ps] by auto
  have "proper_names (live_hashes ls) s"
    by (rule proper_listed [OF names]) (auto simp: live stored_world [OF ps])
  then show "proper_names (live_hashes ls) v"
    by (rule alike_proper [OF alike])
  have "sound_store E (live_hashes ls) s"
    by (rule sound_mono [OF sound]) (simp add: live)
  then show "sound_store E (live_hashes ls) v"
    by (rule alike_sound [OF alike])
  have "fresh_replacements E v plan" if "plan_sweep (live_hashes ls) v = (Inr plan, v)" for plan
    using alike_plan [OF alike wf that] fresh live by (auto intro: alike_fresh [OF alike])
  then show "\<forall>plan. plan_sweep (live_hashes ls) v = (Inr plan, v) \<longrightarrow> fresh_replacements E v plan"
    by blast
qed

lemma opened_uncached:
  "BlobStore_new r d = (Inr st, d) \<Longrightarrow> store_packs (self (opened st d)) = Mutex False None"
  by (auto simp: BlobStore_new_def bindE_eq map_err_eq run_atoms)

lemma opened_stored [simp]: "stored (opened st d) r = stored d r"
  by (rule stored_same) simp

text \<open>
  C6. What a successful run of \<open>cas-gc sweep --apply\<close> or with a trash directory leaves: the digests on
  the disk are then exactly the ones in the roots file among those that were there, on a disk with
  any faults, where the counted copies of the roots are good and the names in the store are canonical.
\<close>

theorem run_gc_leaves_roots:
  assumes "codec_ok E" and "map_order_ok E" and "proper_names roots (opened st d)"
    and "command_parts (cli_command args) = (cmd, roots_file, md)" and "md \<noteq> DryRun"
    and "BlobStore_new (resolve hst (cli_root args)) d = (Inr st, d)"
    and "parse_roots E hst roots_file d = (Inr roots, d)"
    and "sound_store E roots (opened st d)"
    and "\<forall>plan. plan_sweep (stored d (root st) \<inter> roots) (opened st d) = (Inr plan, opened st d) \<longrightarrow>
      fresh_replacements E (opened st d) plan"
    and "run_gc E hst args d = (Inr out, t)"
  shows "stored t (root st) = stored d (root st) \<inter> roots"
proof -
  let ?s = "opened st d"
  have none: "guarded (store_packs (self ?s)) = None"
    using opened_uncached [OF assms(6)] by simp
  obtain ls report u where ms: "mark_and_sweep E roots md ?s = (Inr (ls, report), u)" and t: "t = disk.truncate u"
    using assms(10,4) by (cases rule: run_gc_cases) (use assms(6,7) in auto)
  obtain v where mark: "mark E roots ?s = (Inr ls, v)"
    and sweep: "sweep E (live_hashes ls) \<lparr>mode = md, rewrite_partial_packs = True\<rparr> v = (Inr report, u)"
    using ms by (cases rule: mark_and_sweep_cases) (auto split: sum.splits)
  have alike: "alike ?s v"
    by (rule mark_alike [OF mark])
  have fresh: "\<forall>plan. plan_sweep (stored ?s (root (self ?s)) \<inter> roots) ?s = (Inr plan, ?s) \<longrightarrow> fresh_replacements E ?s plan"
    using assms(9) by simp
  note ready = marked_ready [OF mark none assms(2,3,8) fresh]
  have "stored u (root (self u)) = stored v (root (self v)) \<inter> live_hashes ls"
    by (rule sweep_restricts [OF assms(1) ready(2,3) _ _ ready(4) sweep]) (simp_all add: assms(5))
  moreover have "root (self v) = root st" "root (self u) = root (self v)"
    using alike upholdsD [OF rooted.rel_sweep sweep] by (simp_all add: alike_def)
  moreover have "stored v (root st) = stored d (root st)" "stored t (root st) = stored u (root st)"
    using alike_nodes(1) [OF alike] t stored_same [of v d] stored_same [of t u] by simp_all
  ultimately show ?thesis
    using ready(1) by auto
qed

text \<open>On a disk without faults the run does succeed.\<close>

lemma mark_pending: "mark E roots s = (q, t) \<Longrightarrow> pending t = pending s"
  using readsD [OF reads_list_blobs] readsD [OF reads_load_all]
  by (fastforce simp: mark_def list_blobs_packed_def with_pack_cache_def bindE_eq map_err_eq lock_eq run_atoms
      set_store_packs_def Let_def split: sum.splits if_splits option.splits)

lemma doomed_place:
  assumes pd: "planned_disk s live ps plan" and "q \<in> doomed (self s) options plan"
  shows "\<exists>x y. q = root (self s) @ [''objects'', x, y]"
proof -
  have pack: "(\<exists>x y. p = root (self s) @ [''objects'', x, y]) \<and> (\<exists>x y. with_extension p ''idx'' = root (self s) @ [''objects'', x, y])"
    if "p \<in> set ps" for p
    using packs_proper(1) [OF pd that] by (elim is_pack_path_names) (simp add: pack_dir_def)
  from assms show ?thesis
    by (cases rule: doomed_cases) (auto simp: loose_at_def pack_dir_def dest: pack)
qed

lemma plan_succeeds:
  assumes names: "proper_names live s" and ps: "packs_at s (pack_dir (self s)) = Inr ps"
    and dir: "node_at s (objects_dir (self s)) = Some Dir"
  obtains plan where "plan_sweep live s = (Inr plan, s)"
proof -
  have list: "list_blobs s = (Inr (loose_hashes s (objects_dir (self s))), s)"
    using dir by (intro list_blobs_eq [OF proper_namesD(3) [OF names]]) simp
  have "path_exists s (loose_path (self s) h)" if h: "h \<in> loose_set s" "h \<notin> live" for h
  proof -
    obtain x y where "x \<noteq> ''pack''" and xy: "is_file_node (node_at s (objects_dir (self s) @ [x, y]))"
      and "named_hash (x, y) = Some h"
      using h(1) mem_loose_hashes [OF proper_namesD(3) [OF names] dir] by (auto simp: loose_set_def)
    then have "objects_dir (self s) @ [x, y] = loose_path (self s) h"
      using names h(2) unfolding proper_names_def by blast
    with xy show ?thesis
      by (auto simp: path_exists_def is_file_node_def split: option.splits)
  qed
  then have "find (\<lambda>h. \<not> path_exists s (loose_path (self s) h)) (sorted_list_of_set (loose_set s - live)) = None"
    by (auto simp: find_None_iff)
  with plan_sweep_eq [OF proper_namesD(3) [OF names] list ps, of live] that show thesis
    by simp
qed


lemma run_gc_ends:
  assumes "map_order_ok E" and "\<And>data. \<exists>c. encode_payload E data = Inr c" and "pending d = []"
    and "command_parts (cli_command args) = (cmd, roots_file, md)"
    and "BlobStore_new (resolve hst (cli_root args)) d = (Inr st, d)"
    and "parse_roots E hst roots_file d = (Inr roots, d)"
    and "proper_names roots (opened st d)" and "sound_store E roots (opened st d)"
    and "indices_load (opened st d) ps"
    and "\<forall>plan. plan_sweep (stored d (root st) \<inter> roots) (opened st d) = (Inr plan, opened st d) \<longrightarrow>
      fresh_replacements E (opened st d) plan"
    and "\<forall>x y. node_at d (root st @ [''objects'', x, y]) \<noteq> Some Dir"
    and "md = Trash \<longrightarrow> trash_ready d (root st)"
  shows "\<exists>out t. run_gc E hst args d = (Inr out, t)"
proof -
  let ?s = "opened st d"
  note cache = opened_uncached [OF assms(5)]
  have dir: "node_at ?s (objects_dir (self ?s)) = Some Dir"
    using assms(5) create_dir_all_ok by (auto simp: BlobStore_new_def bindE_eq map_err_eq run_atoms objects_dir_def)
  have wf: "wf_disk ?s" and none: "guarded (store_packs (self ?s)) = None" and current: "packs_current ?s"
    using proper_namesD [OF assms(7)] cache by (simp_all add: packs_current_def)
  obtain ls v where mark: "mark E roots ?s = (Inr ls, v)"
    by (rule mark_runs [OF wf assms(1) current assms(9), of roots]) (use dir in simp_all)
  have alike: "alike ?s v"
    by (rule mark_alike [OF mark])
  have fresh: "\<forall>plan. plan_sweep (stored ?s (root (self ?s)) \<inter> roots) ?s = (Inr plan, ?s) \<longrightarrow> fresh_replacements E ?s plan"
    using assms(10) by simp
  note ready = marked_ready [OF mark none assms(1,7,8) fresh]
  have nodes: "node_at v = node_at d" and root: "root (self v) = root st"
    using node_at_same [OF alike_nodes(1) [OF alike]] alike by (simp_all add: alike_def)
  have "packs_at v (pack_dir (self v)) = Inr ps"
    using assms(9) alike_dirs [OF alike] lookups_same(2) [OF alike_nodes(1) [OF alike]] by (simp add: indices_load_def)
  moreover have "node_at v (objects_dir (self v)) = Some Dir"
    using dir nodes root by (simp add: objects_dir_def)
  ultimately obtain plan where plan: "plan_sweep (live_hashes ls) v = (Inr plan, v)"
    by (rule plan_succeeds [OF ready(2)])
  obtain ps' where pd: "planned_disk v (live_hashes ls) ps' plan"
    using tidy_planned [OF proper_namesD(2) [OF ready(2)] plan] .
  have "\<forall>q \<in> doomed (self v) \<lparr>mode = md, rewrite_partial_packs = True\<rparr> plan. node_at v q \<noteq> Some Dir"
    using doomed_place [OF pd] assms(11) nodes root by fastforce
  moreover have "md = Trash \<longrightarrow> trash_ready v (root (self v))"
    using assms(12) by (simp add: trash_ready_def nodes root)
  ultimately obtain report u where "sweep E (live_hashes ls) \<lparr>mode = md, rewrite_partial_packs = True\<rparr> v = (Inr report, u)"
    using sweep_runs [OF ready(3) _ assms(2) plan, of "\<lparr>mode = md, rewrite_partial_packs = True\<rparr>"]
      mark_pending [OF mark] assms(3) ready(4) plan by fastforce
  with mark have "mark_and_sweep E roots md ?s = (Inr (ls, report), u)"
    by (simp add: mark_and_sweep_def bindE_def run_atoms)
  note ms = this
  obtain r t where run: "run_gc E hst args d = (r, t)"
    by (cases "run_gc E hst args d")
  from run assms(4) have "\<exists>out. r = Inr out"
    by (cases rule: run_gc_cases) (use assms(5,6) ms in auto)
  with run show ?thesis by blast
qed


text \<open>
  C9. A run of \<open>cas-gc\<close> succeeds on a disk without faults, whatever the command: \<open>mark\<close>, a dry
  \<open>sweep\<close>, \<open>sweep --apply\<close>, which moves the garbage to the trash, and \<open>sweep --apply --delete\<close>. The
  conditions: the store is there and the roots file is read, the indices load, the counted copies of
  the roots are good, the names in the store are canonical, no directory lies at the depth of blob files, the replacement packs have free names,
  the compressor does not fail, and, for a run that moves to the trash, no file stands where the trash mirror
  needs a directory and no directory where it needs a file (\<open>trash_ready\<close>: an absent trash is
  ready, and so is one that earlier sweeps have filled).
\<close>

theorem run_gc_succeeds:
  assumes "map_order_ok E" and "\<And>data. \<exists>c. encode_payload E data = Inr c" and "pending d = []"
    and "command_parts (cli_command args) = (cmd, roots_file, md)"
    and "BlobStore_new (resolve hst (cli_root args)) d = (Inr st, d)"
    and "parse_roots E hst roots_file d = (Inr roots, d)"
    and "proper_names roots (opened st d)" and "sound_store E roots (opened st d)"
    and "indices_load (opened st d) ps"
    and "\<forall>plan. plan_sweep (stored d (root st) \<inter> roots) (opened st d) = (Inr plan, opened st d) \<longrightarrow>
      fresh_replacements E (opened st d) plan"
    and "\<forall>x y. node_at d (root st @ [''objects'', x, y]) \<noteq> Some Dir"
    and "md = Trash \<longrightarrow> trash_ready d (root st)"
  shows "\<exists>out t. run_gc E hst args d = (Inr out, t)"
  by (rule run_gc_ends [OF assms])

lemma toy_run_ready:
  obtains st where "BlobStore_new (resolve toy_host (cli_root toy_sweep_args)) (disk.truncate toy_gc) = (Inr st, disk.truncate toy_gc)"
    and "root st = [''r'']" and "alike toy_gc (opened st (disk.truncate toy_gc))"
    and "proper_names toy_live (opened st (disk.truncate toy_gc))"
    and "sound_store (toy_env False) toy_live (opened st (disk.truncate toy_gc))"
    and "\<forall>plan. plan_sweep (stored (disk.truncate toy_gc) (root st) \<inter> toy_live) (opened st (disk.truncate toy_gc)) =
        (Inr plan, opened st (disk.truncate toy_gc)) \<longrightarrow>
      fresh_replacements (toy_env False) (opened st (disk.truncate toy_gc)) plan"
proof -
  let ?d = "disk.truncate toy_gc"
  have "node_at ?d [''r'', ''objects''] = Some Dir"
    by (simp add: toy_node_at)
  then obtain st where st: "BlobStore_new [''r''] ?d = (Inr st, ?d)" "root st = [''r'']"
    by (rule toy_opening)
  have alike: "alike toy_gc (opened st ?d)"
    using st(2) by (simp add: alike_def disk.truncate_def)
  have "stored ?d (root st) \<inter> toy_live = toy_live"
    using stored_same [of ?d toy_gc] st(2) toy_stored by (auto simp: toy_live_def)
  then have "\<forall>plan. plan_sweep (stored ?d (root st) \<inter> toy_live) (opened st ?d) = (Inr plan, opened st ?d) \<longrightarrow>
      fresh_replacements (toy_env False) (opened st ?d) plan"
    using toy_fresh alike_plan [OF alike toy_gc_wf] alike_fresh [OF alike] by auto
  with st alike alike_proper [OF alike toy_proper] alike_sound [OF alike toy_sound] that show thesis
    by (simp add: toy_args)
qed

lemma toy_live_roots: "parse_roots E toy_host ''-'' d = (Inr toy_live, d)"
  using toy_roots by (simp add: toy_live_def)


lemma toy_no_dir: "node_at toy_gc [''r'', ''objects'', x, y] \<noteq> Some Dir"
proof
  assume "node_at toy_gc [''r'', ''objects'', x, y] = Some Dir"
  then have "([''r'', ''objects'', x, y], Dir) \<in> set (nodes toy_gc)"
    unfolding node_at_def by (rule map_of_SomeD)
  then show False by (auto simp: toy_paths)
qed

lemma toy_pending: "pending (disk.truncate toy_gc) = []"
  by (simp add: disk.truncate_def)

lemma toy_opened_indices:
  assumes "alike toy_gc s"
  shows "indices_load s [toy_pack_path]"
  using toy_indices alike_dirs [OF assms] lookups_same(2,4) [OF alike_nodes(1) [OF assms]]
    reads_same(1) [OF alike_nodes(1) [OF assms]]
  by (simp add: indices_load_def idx_of_def)

text \<open>The trash of the example store, which is not there yet, is ready.\<close>

lemma toy_trash_ready: "trash_ready (disk.truncate toy_gc) [''r'']"
  unfolding trash_ready_def
proof (intro conjI allI impI)
  fix q
  assume "is_under q [''r'']"
  then have "q \<in> {[], [''r'']}"
    by (auto simp: is_under_iff Cons_eq_append_conv)
  then show "\<not> is_file_node (node_at (disk.truncate toy_gc) q)"
    by (auto simp: node_at_def toy_paths is_file_node_def)
next
  fix q
  assume "is_under ([''r''] @ [TRASH_DIR]) q"
  then have none: "node_at toy_gc q = None"
    by (auto simp: is_under_iff TRASH_DIR_def node_at_def toy_paths)
  show "length [''r''] + 4 \<le> length q" if "is_file_node (node_at (disk.truncate toy_gc) q)"
    using that by (simp add: none is_file_node_def)
  show "length q < length [''r''] + 4" if "node_at (disk.truncate toy_gc) q = Some Dir"
    using that by (simp add: none)
qed

lemma toy_run: "\<exists>out t. run_gc (toy_env False) toy_host toy_sweep_args (disk.truncate toy_gc) = (Inr out, t)"
proof (rule toy_run_ready)
  fix st
  let ?d = "disk.truncate toy_gc"
  assume st: "BlobStore_new (resolve toy_host (cli_root toy_sweep_args)) ?d = (Inr st, ?d)" "root st = [''r'']"
    and alike: "alike toy_gc (opened st ?d)"
    and ready: "proper_names toy_live (opened st ?d)" "sound_store (toy_env False) toy_live (opened st ?d)"
      "\<forall>plan. plan_sweep (stored ?d (root st) \<inter> toy_live) (opened st ?d) = (Inr plan, opened st ?d) \<longrightarrow>
         fresh_replacements (toy_env False) (opened st ?d) plan"
  show ?thesis
    by (rule run_gc_ends [OF toy_map_order _ _ toy_args(1) st(1) toy_live_roots ready(1,2) toy_opened_indices [OF alike] ready(3)])
      (simp_all add: st(2) toy_no_dir toy_pending)
qed

text \<open>The default of \<open>--apply\<close>.\<close>

definition toy_apply_args :: cli where
  "toy_apply_args = \<lparr>cli_root = ''r'', cli_json = False,
     cli_command = SweepCmd ''-'' \<lparr>dry_run = False, apply_sweep = True\<rparr> False\<rparr>"

lemma toy_apply: "command_parts (cli_command toy_apply_args) = (''sweep'', ''-'', Trash)"
  by (simp add: toy_apply_args_def command_parts_def sweep_mode_of_def)

theorem run_gc_succeeds_witness:
  "\<exists>out t. run_gc (toy_env False) toy_host toy_apply_args (disk.truncate toy_gc) = (Inr out, t)"
proof (rule toy_run_ready)
  fix st
  let ?d = "disk.truncate toy_gc"
  assume st: "BlobStore_new (resolve toy_host (cli_root toy_sweep_args)) ?d = (Inr st, ?d)" "root st = [''r'']"
    and alike: "alike toy_gc (opened st ?d)"
    and ready: "proper_names toy_live (opened st ?d)" "sound_store (toy_env False) toy_live (opened st ?d)"
      "\<forall>plan. plan_sweep (stored ?d (root st) \<inter> toy_live) (opened st ?d) = (Inr plan, opened st ?d) \<longrightarrow>
         fresh_replacements (toy_env False) (opened st ?d) plan"
  have new: "BlobStore_new (resolve toy_host (cli_root toy_apply_args)) ?d = (Inr st, ?d)"
    using st(1) by (simp add: toy_apply_args_def toy_sweep_args_def)
  show ?thesis
    by (rule run_gc_succeeds [OF toy_map_order _ _ toy_apply new toy_live_roots ready(1,2) toy_opened_indices [OF alike] ready(3)])
      (simp_all add: st(2) toy_no_dir toy_pending toy_trash_ready)
qed

theorem run_gc_leaves_roots_witness:
  "\<exists>out t. run_gc (toy_env False) toy_host toy_sweep_args (disk.truncate toy_gc) = (Inr out, t) \<and>
     stored (disk.truncate toy_gc) [''r''] = {hash_of [1], hash_of [2], hash_of [3], hash_of [4]} \<and>
     stored t [''r''] = {hash_of [1], hash_of [3]}"
proof (rule toy_run_ready)
  fix st
  let ?d = "disk.truncate toy_gc"
  assume st: "BlobStore_new (resolve toy_host (cli_root toy_sweep_args)) ?d = (Inr st, ?d)" "root st = [''r'']"
    and ready: "proper_names toy_live (opened st ?d)" "sound_store (toy_env False) toy_live (opened st ?d)"
      "\<forall>plan. plan_sweep (stored ?d (root st) \<inter> toy_live) (opened st ?d) = (Inr plan, opened st ?d) \<longrightarrow>
         fresh_replacements (toy_env False) (opened st ?d) plan"
  obtain out t where run: "run_gc (toy_env False) toy_host toy_sweep_args ?d = (Inr out, t)"
    using toy_run by blast
  have "stored t (root st) = stored ?d (root st) \<inter> toy_live"
    by (rule run_gc_leaves_roots [OF toy_codec toy_map_order ready(1) toy_args(1) _ st(1) toy_live_roots ready(2,3) run]) simp
  moreover have "stored ?d (root st) = {hash_of [1], hash_of [2], hash_of [3], hash_of [4]}"
    using stored_same [of ?d toy_gc] st(2) toy_stored by simp
  ultimately show ?thesis
    using run st(2) by (auto simp: toy_live_def)
qed

end
