(* ===== verification/RepackLoss.thy ===== *)
theory RepackLoss
  imports RepackSpec Machine
begin

text \<open>
  What a repack loses: in a store without compression a blob beyond the limit of decompression is
  stored raw and can be read, but a pack always compresses it, and the loose file is deleted.
\<close>

section \<open>A disk without faults stays without faults\<close>

lemma calm_sets:
  "keeps (\<lambda>s. pending s = []) (set_store_packs c :: unit store_prog)"
  "keeps (\<lambda>s. pending s = []) (set_blob_cache b :: unit store_prog)"
  by (auto intro!: upholdsI simp: set_store_packs_def set_blob_cache_def run_atoms)

lemma calm_reads:
  "keeps (\<lambda>s. pending s = []) (fs_read p)" "keeps (\<lambda>s. pending s = []) (load_all p)"
  "keeps (\<lambda>s. pending s = []) (PackIndex_load p)" "keeps (\<lambda>s. pending s = []) (lock field)"
  "keeps (\<lambda>s. pending s = []) (PackFile_read_blob E p index h)"
  by (rule keeping.resp_reads, rule hoare)+

lemma calm_get_blob: "keeps (\<lambda>s. pending s = []) (get_blob E h)"
  unfolding get_blob_def get_blob_miss_def get_blob_loose_def get_blob_packed_def with_pack_cache_def cache_blob_def Let_def
  by (intro hoare calm_sets calm_reads)

interpretation calm: store_relation "\<lambda>s t. pending s = [] \<longrightarrow> pending t = []" E for E
proof unfold_locales
  show "keeps (\<lambda>s :: world. pending s = []) (create_dir_all p)" for p
    by (intro upholdsI) (auto simp: create_dir_all_def bindE_def run_simps split: option.splits node.splits if_splits)
  show "keeps (\<lambda>s :: world. pending s = []) (fs_write p b)" for p b
    by (intro upholdsI) (auto simp: fs_write_def bindE_def run_simps split: option.splits if_splits)
  show "keeps (\<lambda>s :: world. pending s = []) (fs_remove_file p)" for p
    by (intro upholdsI) (auto simp: fs_remove_file_def bindE_def run_simps split: option.splits node.splits if_splits)
  show "keeps (\<lambda>s :: world. pending s = []) (fs_rename p q)" for p q
    by (intro upholdsI) (auto simp: fs_rename_def bindE_def run_simps split: option.splits if_splits)
qed (auto intro!: upholdsI calm_get_blob simp: set_known_dirs_def set_store_packs_def run_atoms)

lemma calm_gather: "gather E hs s = (r, t) \<Longrightarrow> pending s = [] \<Longrightarrow> pending t = []"
proof -
  have "keeps (\<lambda>s :: world. pending s = []) (gather E hs)"
    unfolding gather_def by (intro hoare calm_get_blob)
  then show "gather E hs s = (r, t) \<Longrightarrow> pending s = [] \<Longrightarrow> pending t = []"
    using upholdsD [of "\<lambda>s t. pending s = [] \<longrightarrow> pending t = []" "gather E hs" s r t] by blast
qed

section \<open>The deletions without faults\<close>

lemma calm_delete:
  assumes "delete_blob g u = (q, v)" and "pending u = []"
  shows "pending v = [] \<and> self v = self u \<and>
    node_at v (loose_at (root (self u)) h) =
      (if g = h \<and> is_file_node (node_at u (loose_at (root (self u)) h)) then None
       else node_at u (loose_at (root (self u)) h))"
proof -
  let ?p = "loose_at (root (self u)) g"
  have "v = (if is_file_node (node_at u ?p) then del_node ?p u else u)"
    using assms by (auto simp: delete_blob_eq blob_path_loose_at fs_remove_file_def bindE_def run_simps is_file_node_def
        split: option.splits node.splits)
  moreover have "self (del_node ?p u) = self u"
    by (simp add: del_node_def)
  ultimately show ?thesis
    using assms(2) by (simp add: disk_nodes.look_del)
qed

text \<open>A listed digest has no file any more after them.\<close>

lemma calm_deletions:
  assumes "(mapE (\<lambda>h. attemptE (delete_blob h)) hs :: (cas_error + unit) list store_prog) s = (Inr rs, t)"
    and "pending s = []" and "is_file_node (node_at s (loose_at (root (self s)) h))" and "h \<in> set hs"
  shows "node_at t (loose_at (root (self s)) h) = None"
proof -
  let ?p = "loose_at (root (self s)) h"
  define I :: "hash list \<Rightarrow> world \<Rightarrow> bool" where "I = (\<lambda>pre u. pending u = [] \<and> self u = self s \<and>
    (if h \<in> set pre then node_at u ?p = None else is_file_node (node_at u ?p)))"
  have "triple (I []) (mapE (\<lambda>h. attemptE (delete_blob h)) hs :: (cas_error + unit) list store_prog)
      (\<lambda>_. I hs) (\<lambda>_ _. False)"
    unfolding mapE_def
  proof (rule triple_foldE [where I = "\<lambda>pre _. I pre"])
    fix pre g post and a :: "(cas_error + unit) list"
    have step: "I (pre @ [g]) v" if inv: "I pre u" and run: "delete_blob g u = (q, v)" for u v q
      using inv calm_delete [OF run, of h] by (auto simp: I_def split: if_splits)
    show "triple (I pre) (bindE (attemptE (delete_blob g)) (\<lambda>y. returnE (a @ [y]))) (\<lambda>_. I (pre @ [g])) (\<lambda>_ _. False)"
      by (rule tripleI) (auto simp: bindE_eq attemptE_eq run_atoms dest: step)
  qed
  from triple_ok [OF this _ assms(1)] assms(2-4) show ?thesis
    by (simp add: I_def)
qed

section \<open>The loss\<close>

text \<open>Another pack of the directory has another index.\<close>

lemma other_pair_apart:
  assumes "is_pack_name name" and "name \<noteq> pack_name E x @ ''.pack''"
  shows "name \<noteq> pack_name E x @ ''.idx''"
    and "with_extension (r @ [''objects'', ''pack'', name]) ''idx'' \<noteq> r @ [''objects'', ''pack'', pack_name E x @ ''.pack'']"
    and "with_extension (r @ [''objects'', ''pack'', name]) ''idx'' \<noteq> r @ [''objects'', ''pack'', pack_name E x @ ''.idx'']"
proof -
  obtain stem where stem: "name = stem @ ''.pack''"
    using assms(1) by (auto simp: is_pack_name_def elim: ends_withE)
  have ext: "with_extension (r @ [''objects'', ''pack'', name]) ''idx'' = r @ [''objects'', ''pack'', file_stem name @ ''.idx'']"
    by (simp add: with_extension_def butlast_append)
  have ends: "a @ ''.pack'' \<noteq> b @ ''.idx''" for a b :: string
    by (rule notI) (drule arg_cong [where f = last], simp)
  show "name \<noteq> pack_name E x @ ''.idx''"
    unfolding stem by (rule ends)
  show "with_extension (r @ [''objects'', ''pack'', name]) ''idx'' \<noteq> r @ [''objects'', ''pack'', pack_name E x @ ''.pack'']"
    unfolding ext using ends [of "pack_name E x" "file_stem name"] by auto
  have "file_stem name \<noteq> pack_name E x"
  proof (cases "stem = []")
    case True
    then show ?thesis
      by (simp add: stem file_stem_def pack_name_def)
  next
    case False
    with assms(2) show ?thesis
      using file_stem_dot [of stem "''pack''"] by (auto simp: stem)
  qed
  then show "with_extension (r @ [''objects'', ''pack'', name]) ''idx'' \<noteq> r @ [''objects'', ''pack'', pack_name E x @ ''.idx'']"
    unfolding ext by simp
qed

text \<open>
  C35. A repack loses the large blobs of an uncompressed store. With zstd, a blob of more than
  \<open>MAX_DECOMPRESSED_SIZE\<close> bytes that no pack holds is readable as a raw loose file; a \<open>repack\<close>
  on a disk without faults that reports success packs it compressed and deletes the file, and after it
  the disk holds no data of that digest: neither the loose path nor any pack serves it (only the
  in-memory cache of this store object may, until the entry is evicted). As in C26 the new pack has
  room, the codec is right, verification is on, the cache holds no wrong bytes, and the payload is
  below 4 GiB.
\<close>

theorem repack_loses_huge:
  assumes "feature_zstd E" and "codec_ok E" and "wf_disk s" and "cache_true E s" and "repack_room E s"
    and "pending s = []" and "repack E threshold s = (Inr n, t)" and "0 < n"
    and "repack_reads E s h data" and "payload_fits E data" and "MAX_DECOMPRESSED_SIZE < length data"
    and "is_file_node (node_at s (loose_at (root (self s)) h))"
    and "\<forall>name out. is_pack_name name \<longrightarrow> \<not> pack_serves E s (root (self s) @ [''objects'', ''pack'', name]) h out"
  shows "\<not> held E t (root (self s)) h out"
  using assms(7,3,4)
proof (cases rule: repack_cases)
  case idle
  with assms(8) show ?thesis by auto
next
  case (packed hs objects u pair v rs w)
  let ?r = "root (self s)" and ?dir = "pack_dir (self s)"
  let ?new = "set (new_pack_paths E ?dir objects)"
  have obj: "(h, data) \<in> set objects"
    using assms(9) packed(1,2) by (auto simp: repack_reads_def)
  then have h: "h \<in> set hs"
    using packed(4) by force
  have room: "indexable E objects"
    using repack_roomD(1) [OF assms(5)] packed(1,2,4) by blast
  have create: "store_step ?new u v"
    using upholdsD [OF changes_only_writes(4) [OF order_refl] packed(7)] .
  have deleted: "store_step (loose_at ?r ` set hs) v t"
    using packed(9,10) by (meson empty_subsetI store_step_mono storing.related_trans)
  have "store_step (?new \<union> loose_at ?r ` set hs) s t"
    using packed(3) create deleted by (meson Un_upper1 Un_upper2 empty_subsetI store_step_mono storing.related_trans)
  note frame = pack_serves_step [OF this]
  have "store_step ?new s v"
    using packed(3) create by (meson empty_subsetI store_step_mono storing.related_trans)
  moreover have "loose_at ?r h \<notin> ?new"
    by (rule new_pack_not_loose)
  ultimately have there: "is_file_node (node_at v (loose_at ?r h))"
    using assms(12) store_step_at by (metis is_file_nodeE is_file_node_File)
  have self: "root (self v) = ?r"
    using store_step_config [OF \<open>store_step ?new s v\<close>] by (simp add: same_config_def)
  have "pending v = []"
    using calm_gather [OF packed(2) assms(6)] upholdsD [OF calm.rel_PackFile_create packed(7)] by blast
  then have "node_at w (loose_at ?r h) = None"
    using calm_deletions [OF packed(8) _ _ h] there self by simp
  then have "\<not> loose_serves E t (loose_at ?r h) h out"
    using store_step_at [OF packed(10)] by (auto simp: loose_serves_def)
  moreover have "\<not> pack_serves E t (?r @ [''objects'', ''pack'', name]) h out" if name: "is_pack_name name" for name
  proof -
    let ?p = "?r @ [''objects'', ''pack'', name]"
    have create': "PackFile_create E (?r @ [''objects'', ''pack'']) objects u = (Inr pair, v)"
      using packed(7) by (simp add: pack_dir_def)
    obtain new x where new: "new = pack_name E x @ ''.pack''"
        "?new = {?r @ [''objects'', ''pack'', new], ?r @ [''objects'', ''pack'', pack_name E x @ ''.idx'']}"
      and lost: "\<not> pack_serves E t (?r @ [''objects'', ''pack'', new]) h out"
    proof (rule repacked_serves [OF assms(2) room create' deleted packed(11)])
      fix name x
      assume "name = pack_name E x @ ''.pack''"
        and "set (new_pack_paths E (?r @ [''objects'', ''pack'']) objects) =
          {?r @ [''objects'', ''pack'', name], ?r @ [''objects'', ''pack'', pack_name E x @ ''.idx'']}"
        and "\<And>h data out. (h, data) \<in> set objects \<Longrightarrow> payload_fits E data \<Longrightarrow> feature_zstd E \<Longrightarrow>
          MAX_DECOMPRESSED_SIZE < length data \<Longrightarrow> \<not> pack_serves E t (?r @ [''objects'', ''pack'', name]) h out"
      then show thesis
        using that obj assms(10,1,11) by (simp add: pack_dir_def)
    qed
    show ?thesis
    proof (cases "name = new")
      case True
      with lost show ?thesis by simp
    next
      case False
      have "?p \<notin> ?new" and "with_extension ?p ''idx'' \<notin> ?new"
        using other_pair_apart [OF name, of E x] False unfolding new(2) by (simp_all add: new(1))
      then have "pack_serves E t ?p h out \<longleftrightarrow> pack_serves E s ?p h out"
        using frame pack_not_loose by blast
      with assms(13) name show ?thesis by blast
    qed
  qed
  ultimately show ?thesis
    by (simp add: held_def)
qed simp

text \<open>An uncompressed store with one raw blob.\<close>

definition toy_single_blob :: "bytes \<Rightarrow> world" where
  "toy_single_blob data = toy_world False
     [([''r'', ''objects'', take 2 (to_hex (hash_of data))], Dir), (loose_at [''r''] (hash_of data), File data)]"

lemma toy_single_nodes:
  "nodes (toy_single_blob data) = toy_dirs @
     [([''r'', ''objects'', take 2 (to_hex (hash_of data))], Dir),
      ([''r'', ''objects'', take 2 (to_hex (hash_of data)), drop 2 (to_hex (hash_of data))], File data)]"
  "self (toy_single_blob data) = toy_store False" "pending (toy_single_blob data) = []"
  by (simp_all add: toy_single_blob_def loose_at_def)

lemma toy_single_places:
  "node_at (toy_single_blob data) (loose_at [''r''] (hash_of data)) = Some (File data)"
  "node_at (toy_single_blob data) [''r'', ''objects''] = Some Dir"
  "node_at (toy_single_blob data) [''r'', ''objects'', ''pack''] = Some Dir"
  "node_at (toy_single_blob data) [''r'', ''objects'', ''pack'', name] = None"
  using bucket_not_pack [of "hash_of data"]
  by (simp_all add: node_at_def toy_single_nodes toy_dirs_def loose_at_def)

lemma toy_single_wf: "wf_disk (toy_single_blob data)"
  using bucket_not_pack [of "hash_of data"]
  by (simp add: wf_disk_def toy_single_nodes toy_dirs_def)

lemma toy_single_hashes: "loose_hashes (toy_single_blob data) [''r'', ''objects''] = [hash_of data]"
proof -
  have "loose_files (toy_single_blob data) [''r'', ''objects''] =
      [(take 2 (to_hex (hash_of data)), drop 2 (to_hex (hash_of data)))]"
    using bucket_not_pack [of "hash_of data"]
    by (simp add: loose_files_def bucket_files_def children_def toy_single_nodes toy_dirs_def)
  then show ?thesis
    by (simp add: loose_hashes_def toy_single_places List.map_filter_simps named_hash_canonical)
qed

lemma toy_single_gather:
  assumes "\<not> is_zstd_compressed (toy_env True) data"
  shows "gather (toy_env True) [hash_of data] (toy_single_blob data) = (Inr [(hash_of data, data)],
    (toy_single_blob data)\<lparr>self := (toy_store False)\<lparr>blob_cache := Mutex False [(hash_of data, data)]\<rparr>\<rparr>)"
proof -
  have "loose_serves (toy_env True) (toy_single_blob data) (blob_path (self (toy_single_blob data)) (hash_of data)) (hash_of data) data"
    using assms by (simp add: loose_serves_def toy_single_nodes(2) blob_path_loose_at toy_single_places unpack_loose_def)
  from get_blob_serves_loose [OF this] show ?thesis
    by (simp add: toy_single_nodes(2) cached_def cache_insert_def BLOB_CACHE_CAPACITY_def gather_def mapE_def bindE_def
        run_atoms)
qed

lemma toy_single_image:
  obtains pd ies where "pack_objects (toy_env True) [(hash_of data, data)] (pack_header [(hash_of data, data)]) [] = Inr (pd, ies)"
    and "length pd = 57 + length data"
  by (simp add: encode_payload_def compress_default_def zstd_compress_def toy_env_def ZSTD_MAGIC_def)

lemma toy_single_room:
  assumes "\<not> is_zstd_compressed (toy_env True) data" and "length data < 2 ^ 32"
  shows "repack_room (toy_env True) (toy_single_blob data)"
proof -
  obtain pd ies where "pack_objects (toy_env True) [(hash_of data, data)] (pack_header [(hash_of data, data)]) [] = Inr (pd, ies)"
    and "length pd = 57 + length data"
    by (rule toy_single_image)
  with assms show ?thesis
    by (simp add: repack_room_def toy_single_nodes(2) toy_single_hashes toy_single_gather new_pack_paths_def pair_paths_def
        path_exists_def toy_single_places)
qed

lemma toy_single_repack:
  assumes "\<not> is_zstd_compressed (toy_env True) data"
  shows "\<exists>t. repack (toy_env True) 0 (toy_single_blob data) = (Inr 1, t)"
proof -
  let ?E = "toy_env True" and ?s = "toy_single_blob data" and ?dir = "[''r'', ''objects'', ''pack'']"
  let ?u = "?s\<lparr>self := (toy_store False)\<lparr>blob_cache := Mutex False [(hash_of data, data)]\<rparr>\<rparr>"
  note g = toy_single_gather [OF assms]
  obtain pd ies where image: "pack_objects ?E [(hash_of data, data)] (pack_header [(hash_of data, data)]) [] = Inr (pd, ies)"
    by (rule toy_single_image)
  have u: "node_at ?u q = node_at ?s q" for q
    by (simp add: node_at_def)
  then have dir: "node_at ?u ?dir = Some Dir" and free: "\<forall>p \<in> set (pair_paths ?E ?dir ies). node_at ?u p \<noteq> Some Dir"
    by (simp_all add: toy_single_places pair_paths_def)
  obtain pair v where "write_pack_pair ?E ?dir pd ies ?u = (Inr pair, v)"
    using quiet_write_pack_pair [OF _ dir free, of pd] by (auto simp: toy_single_nodes(3))
  then have create: "PackFile_create ?E ?dir [(hash_of data, data)] ?u = (Inr pair, v)"
    using dir image by (simp add: PackFile_create_def create_dir_all_def bindE_def map_err_def run_atoms)
  obtain rs w where d: "(mapE (\<lambda>h. attemptE (delete_blob h)) [hash_of data] :: (cas_error + unit) list store_prog) v = (Inr rs, w)"
    using deletions_step by (metis surj_pair)
  obtain x where i: "(invalidate_pack_cache :: unit store_prog) w = (Inr (), x)"
    by (cases "poisoned (store_packs (self w))")
      (simp_all add: invalidate_pack_cache_def bindE_def attemptE_def lock_eq set_store_packs_def run_atoms)
  have "list_blobs ?s = (Inr [hash_of data], ?s)"
    using list_blobs_eq [OF toy_single_wf] by (simp add: toy_single_nodes(2) toy_single_places toy_single_hashes)
  moreover have "pack_dir (self ?u) = ?dir"
    by (simp add: pack_dir_def)
  ultimately show ?thesis
    using g create d i by (simp add: repack_def bindE_def run_atoms gather_def [symmetric] map_err_def)
qed

theorem repack_loses_huge_witness:
  "held (toy_env True) (toy_single_blob (replicate (2 ^ 30 + 1) 0)) [''r''] (hash_of (replicate (2 ^ 30 + 1) 0))
     (replicate (2 ^ 30 + 1) 0) \<and>
   (\<exists>t. repack (toy_env True) 0 (toy_single_blob (replicate (2 ^ 30 + 1) 0)) = (Inr 1, t) \<and>
     \<not> held (toy_env True) t [''r''] (hash_of (replicate (2 ^ 30 + 1) 0)) (replicate (2 ^ 30 + 1) 0))"
proof -
  define data :: bytes where "data = replicate (2 ^ 30 + 1) 0"
  let ?E = "toy_env True" and ?s = "toy_single_blob data"
  have "take 4 data = replicate 4 0"
    by (simp only: data_def take_replicate) (simp add: min_def)
  moreover have "replicate 4 (0 :: u8) \<noteq> [0x28, 0xB5, 0x2F, 0xFD]"
    by code_simp
  ultimately have raw: "\<not> is_zstd_compressed ?E data"
    by (simp add: is_zstd_compressed_def)
  have size: "length data = 2 ^ 30 + 1"
    by (simp add: data_def)
  obtain t where run: "repack ?E 0 ?s = (Inr 1, t)"
    using toy_single_repack [OF raw] by blast
  have "cache_true ?E ?s"
    by (simp add: cache_true_def toy_single_nodes(2))
  moreover have "repack_reads ?E ?s (hash_of data) data"
    using toy_single_gather [OF raw] by (simp add: repack_reads_def toy_single_nodes(2) toy_single_hashes)
  moreover have "payload_fits ?E data"
    using size by (simp add: payload_fits_def encode_payload_def compress_default_def zstd_compress_def toy_env_def ZSTD_MAGIC_def)
  moreover have "\<forall>name out. is_pack_name name \<longrightarrow> \<not> pack_serves ?E ?s (root (self ?s) @ [''objects'', ''pack'', name]) (hash_of data) out"
    using pack_serves_exists by (fastforce simp: toy_single_nodes(2) path_exists_def toy_single_places)
  moreover have "repack_room ?E ?s"
    using size by (intro toy_single_room [OF raw]) simp
  moreover have "is_file_node (node_at ?s (loose_at (root (self ?s)) (hash_of data)))"
    by (simp add: toy_single_nodes(2) toy_single_places is_file_node_def)
  moreover have "MAX_DECOMPRESSED_SIZE < length data"
    unfolding size by (simp add: MAX_DECOMPRESSED_SIZE_def)
  ultimately have "\<not> held ?E t (root (self ?s)) (hash_of data) data"
    using toy_single_nodes(3) [of data]
    by (intro repack_loses_huge [OF _ toy_codec toy_single_wf _ _ _ run]) simp_all
  moreover have "held ?E ?s [''r''] (hash_of data) data"
    using raw by (simp add: held_def loose_serves_def toy_single_places unpack_loose_def)
  ultimately show ?thesis
    using run unfolding data_def [symmetric] by (auto simp: toy_single_nodes(2))
qed

end
