(* ===== verification/Spec2Isabelle.thy ===== *)
theory Spec2Isabelle
  imports FormatSpec PackSpec StoreSpec ReadSpec RepackSpec GcSpec SweepSpec CliSpec RunSpec Machine Refinement FileStoreSpec StaleCache Races Remains RepackLoss
begin

text \<open>
  cas-kit, a content-addressed blob store: the root of the development. Data is stored under its
  BLAKE3 digest, as one file per blob (a loose blob, compressed with zstd where the feature is on)
  or in pack files with an index; a garbage collector removes what a caller-supplied set of live
  digests does not contain, and the tool \<open>cas-gc\<close> runs it from a file of digests.

  \<^bold>\<open>Parts of the program and their theories.\<close>
  \<^item> \<open>src/error.rs\<close>, \<open>HashError\<close>, \<open>PackError\<close>: \<open>Errors\<close>; the text functions of \<open>str\<close> they need
    are in \<open>Text\<close>.
  \<^item> \<open>src/hash.rs\<close>: \<open>Digest\<close> (the type, its order and equality as class instances, \<open>from_hex\<close>,
    \<open>to_hex\<close>).
  \<^item> \<open>std::fs\<close> and \<open>std::path\<close> as far as the crate uses them: \<open>Disk\<close>.
  \<^item> \<open>src/hasher.rs\<close> and \<open>src/compressor.rs\<close>: \<open>Codec\<close>; binary fields and readers: \<open>Bytes\<close>.
  \<^item> \<open>src/pack.rs\<close>: \<open>PackFormat\<close> (both binary formats, parser and serializer), \<open>PackFiles\<close> (create,
    load, read, list), \<open>PackCacheFacts\<close> (what loading and looking up return); the binary search
    of the standard library: \<open>Search\<close>.
  \<^item> \<open>src/store.rs\<close>: \<open>Store\<close>, one definition per method in the order of the source; \<open>StoreFacts\<close>
    holds what each method may change and returns.
  \<^item> \<open>src/gc.rs\<close>: \<open>Gc\<close> (mark, plan, the four phases of a sweep, the async wrappers); \<open>GcPlan\<close>,
    \<open>GcSweep\<close>, \<open>GcSafety\<close>, \<open>GcFinish\<close> and \<open>GcLive\<close> hold the facts about plans, about the paths a
    sweep touches, about what it never loses, about sweeps that come to their end, and that they do.
  \<^item> \<open>src/bin/cas-gc.rs\<close>: \<open>Cli\<close>, from the parsed arguments to the printed reports and exit code.
  \<^item> \<open>examples/file_store.rs\<close>: \<open>FileStore\<close>, its four subcommands and the dispatch on the arguments.
  \<^item> A store shared by threads (\<open>Arc<BlobStore>\<close>): \<open>Threads\<close> cuts \<open>put_blob\<close>, \<open>put_blob_new\<close> and \<open>get_blob\<close> at every
    file system operation and every section under a mutex, \<open>thread_step\<close> and \<open>pool_step\<close>; a write is a
    truncation followed by partial writes, each at the offset of its own descriptor.

  \<^bold>\<open>State and effects.\<close> A fallible function is a program of the monad of \<open>Prelude\<close>: it maps a
  state to a result (\<open>Inl\<close> is \<open>Err\<close>) and the state it leaves, failed or not. The state is the
  disk, and for the methods of a store the disk with the record \<open>blob_store\<close> (\<open>world\<close>): root,
  settings, and the three caches in their mutexes, each with its poison flag. Programs are composed as the source composes
  them, with the question mark operator as \<open>bindE\<close> and \<open>map_err\<close>. \<open>upholds R m\<close> says that whatever
  \<open>m\<close> returns, \<open>R\<close> relates the states before and after; \<open>triple\<close> is the Hoare triple with one
  postcondition per outcome. The locale \<open>state_preorder\<close> proves that such relations compose; every
  frame and invariant of the development is an interpretation of it. \<open>node_map\<close> is the interface of
  the disk, \<open>field_codec\<close> of the fixed-width fields, \<open>ordered_search\<close> of the index lookup, and
  \<open>disk_relation\<close> and its extension \<open>store_relation\<close> of a relation that every call of store and
  collector respects.

  \<^bold>\<open>The fault model.\<close> Every operation that changes the disk takes the next entry of a schedule: it
  proceeds, is refused, or is torn (a prefix of a write or of the missing directories is left).
  The properties of safety hold for every schedule, so for a crash at any point; those of success
  assume the empty schedule. The order of \<open>read_dir\<close> is the order of the node list, and that of a
  \<open>HashMap\<close> a parameter, so statements cover every order.

  \<^bold>\<open>Third-party code.\<close> BLAKE3, zstd and the text of an operating system error are fields of the
  record \<open>env\<close>, tokio and tempfile are arguments. What is asked of them is named: \<open>streaming_hash\<close>
  (a streaming hasher hashes the concatenation), \<open>zstd_lossless\<close> and \<open>zstd_frames\<close> (together
  \<open>codec_ok\<close>), \<open>map_order_ok\<close>. No property assumes that the hash has no collisions, but for those of
  concurrent puts, among the data that are put. \<open>Toy\<close> has
  environments that satisfy all of it, on which the witnesses run.

  \<^bold>\<open>What the properties show.\<close>
  \<^item> Formats (\<open>FormatSpec\<close>, \<open>PackSpec\<close>): digests and indices round-trip, the index parser accepts
    exactly the serialized indices, hashing in chunks is hashing, decompression ends and is bounded, packs
    serve what was packed and appear only when complete.
  \<^item> Store (\<open>StoreSpec\<close>, \<open>ReadSpec\<close>, \<open>RepackSpec\<close>, \<open>Refinement\<close>): put and get round-trip under
    faults, a write changes one path, the cache is an LRU cache, packed blobs are found; a repack
    loses none of the blobs that a pack can give back, and serves exactly those; put, get and delete
    refine the update, lookup and removal of a finite map.
  \<^item> Every history (\<open>Machine\<close>): in any sequence of calls and of switches of the verification, with any
    interference on the disk, the store object keeps its invariant; reads return data of the digest
    asked for if verification was never switched off, and otherwise wrong data comes only with
    verification off or from the cache. Every call keeps the directory tree (\<open>TreeFacts\<close>, the
    interpretation \<open>shape\<close>).
  \<^item> Collector (\<open>GcSpec\<close>, \<open>SweepSpec\<close>, \<open>Converge\<close>): mark and plan are exact, a sweep keeps every live blob under
    all faults, removes all garbage when it succeeds, succeeds on a working disk in every mode, and in
    trash mode keeps the bytes of what it removed; after a sweep that succeeded the next plan finds nothing.
    \<open>Remains\<close> states the effect as an equation over the abstraction \<open>stored\<close>, the set of digests on the
    disk: a sweep restricts it to the live set.
  \<^item> Command line (\<open>CliSpec\<close>, \<open>RunSpec\<close>): the roots file is read exactly, JSON strings are correct, a
    run loses no root and a dry run changes nothing; a run of any command succeeds on a working disk,
    and one that sweeps leaves exactly the roots among the digests that were there (\<open>Remains\<close>).
  \<^item> Threads (\<open>ThreadSpec\<close>): a thread alone runs the sequential call; however threads interleave,
    files that several of them write at once come out complete, reads return verified data only,
    and every schedule ends. \<open>Races\<close>: what a success does not mean while another thread puts the same data.
  \<^item> The example program (\<open>FileStoreSpec\<close>): what \<open>add\<close> stored, \<open>get\<close> writes back byte for byte.
  \<^item> Defects, each as a theorem about the code as it is: the loss of live blobs when a leftover file
    has the name of a replacement pack, data that starts with the zstd magic, data over 1 GiB, raw
    blobs over 1 GiB that a repack compresses and deletes (\<open>RepackLoss\<close>), unverified reads that the
    cache keeps (\<open>unverified_read_lingers\<close> of \<open>Machine\<close>), torn files that are never repaired, one bad index that hides all packs, a non-canonical file name
    that blocks every sweep, a failed sweep that leaves the pack cache stale (\<open>StaleCache\<close>), printed
    addresses that no command accepts, a creation that is not exclusive and a put that returns
    before the blob is there (\<open>Races\<close>).

  \<^bold>\<open>Bounds.\<close> No fuel is used: the loops are structural, over lists, or have a measure (the bytes left,
  the remaining allowance of the decompression limit, the number of units). Offsets, counts and
  lengths of the pack formats are words of their width; sizes in memory and on the disk and the counters of reports
  are naturals, since they count bytes and files that exist.

  \<^bold>\<open>Not modelled.\<close> The crate root \<open>lib.rs\<close> (re-exports) and the benches; the parsing of arguments by
  clap; links, permissions and mount points; failures of reading an existing file; concurrent
  calls other than \<open>put_blob\<close>, \<open>put_blob_new\<close> and \<open>get_blob\<close> (all calls are atomic outside \<open>Threads\<close>, and other
  processes act between calls; in \<open>Threads\<close> a read of the disk is one step and the disk has no
  faults); panics other than the poison flags they leave.
\<close>

end
